(* ===== verification/Ndn_Prelude.thy ===== *)
theory Ndn_Prelude
  imports Main "HOL-Library.Word"
begin

unbundle bit_operations_syntax

text \<open>
  Shared ground of the development.  A C++ \<open>char\<close> held in an \<open>ndn::Blob\<close> is a
  \<open>byte\<close> (an 8-bit word); text (URIs, name expressions) is a HOL \<open>string\<close>, converted
  by \<open>of_char\<close> and \<open>char_of\<close>.  Exceptions are values: an operation that may throw
  returns \<open>ndn_error + 'a\<close> and composes by \<open>bindE\<close>.  The collections
  \<open>ndn_simps\<close> and \<open>ndn_defs\<close> carry the facts that the component proofs unfold.
\<close>

named_theorems ndn_simps "rewrite rules of the operations, used by the component proofs"
named_theorems ndn_defs "definitions unfolded by the component proofs"

type_synonym byte = "8 word"
type_synonym blob = "byte list"
type_synonym uint32 = "32 word"
type_synonym uint64 = "64 word"

section \<open>Errors\<close>

text \<open>
  The exception types of \<open>ndn.cxx/error.h\<close>, the parser, the regular expressions and the wrapper.
  \<open>UndefinedBehaviour\<close> stands for a null pointer that the code would dereference or a value
  that it would read before it is set.
\<close>

datatype ndn_error =
    ErrUri
  | ErrComponent
  | ErrName
  | ErrExclude
  | ErrKeyLocator
  | BadAnyCast
  | UndefinedBehaviour
  | NdnbDecodingException
  | RegexException
  | BoostRegexError
  | DerDecodingException
  | DerEncodingException
  | NegativeLengthException
  | SecException
  | CryptoException
  | ErrWireNdnb
  | NdnOperation
  | StdOutOfRange
  | OutOfFuel

type_synonym 'a result = "ndn_error + 'a"

definition bindE :: "'e + 'a \<Rightarrow> ('a \<Rightarrow> 'e + 'b) \<Rightarrow> 'e + 'b" where
  "bindE m f = (case m of Inl e \<Rightarrow> Inl e | Inr x \<Rightarrow> f x)"

lemma bindE_simps [simp]:
  "bindE (Inl e) f = Inl e"
  "bindE (Inr x) f = f x"
  by (simp_all add: bindE_def)

lemma bindE_Inr_iff [ndn_simps]:
  "bindE m f = Inr y \<longleftrightarrow> (\<exists>x. m = Inr x \<and> f x = Inr y)"
  by (cases m) simp_all

lemma bindE_Inl_iff [ndn_simps]:
  "bindE m f = Inl e \<longleftrightarrow> m = Inl e \<or> (\<exists>x. m = Inr x \<and> f x = Inl e)"
  by (cases m) simp_all

lemma bindE_assoc: "bindE (bindE m f) g = bindE m (\<lambda>x. bindE (f x) g)"
  by (cases m) simp_all

lemma bindE_cong [fundef_cong]:
  "m = m' \<Longrightarrow> (\<And>x. m' = Inr x \<Longrightarrow> f x = f' x) \<Longrightarrow> bindE m f = bindE m' f'"
  by (cases m') simp_all

fun mapE :: "('a \<Rightarrow> 'e + 'b) \<Rightarrow> 'a list \<Rightarrow> 'e + 'b list" where
  "mapE f [] = Inr []"
| "mapE f (x # xs) = bindE (f x) (\<lambda>y. bindE (mapE f xs) (\<lambda>ys. Inr (y # ys)))"

lemma mapE_Inr: "(\<And>x. x \<in> set xs \<Longrightarrow> f x = Inr (g x)) \<Longrightarrow> mapE f xs = Inr (map g xs)"
  by (induction xs) simp_all

section \<open>State and exceptions\<close>

text \<open>
  Code that changes an object and may throw on the way: the state at the throw is kept, as it is in C++.
\<close>

type_synonym ('s, 'a) action = "'s \<Rightarrow> 'a result \<times> 's"

definition retA :: "'a \<Rightarrow> ('s, 'a) action" where "retA x s = (Inr x, s)"

definition throwA :: "ndn_error \<Rightarrow> ('s, 'a) action" where "throwA e s = (Inl e, s)"

definition bindA :: "('s, 'a) action \<Rightarrow> ('a \<Rightarrow> ('s, 'b) action) \<Rightarrow> ('s, 'b) action" where
  "bindA m f s = (case m s of (Inl e, s') \<Rightarrow> (Inl e, s') | (Inr x, s') \<Rightarrow> f x s')"

text \<open>A pure computation that may throw, a query of the state, and an update.\<close>

definition pureA :: "'a result \<Rightarrow> ('s, 'a) action" where "pureA r s = (r, s)"

definition askA :: "('s \<Rightarrow> 'a result) \<Rightarrow> ('s, 'a) action" where "askA f s = (f s, s)"

definition readA :: "('s \<Rightarrow> 'a) \<Rightarrow> ('s, 'a) action" where "readA f s = (Inr (f s), s)"

definition writeA :: "('s \<Rightarrow> 's) \<Rightarrow> ('s, unit) action" where "writeA f s = (Inr (), f s)"

text \<open>An action on a part of the state.\<close>

definition zoom :: "('t \<Rightarrow> 's) \<Rightarrow> ('s \<Rightarrow> 't \<Rightarrow> 't) \<Rightarrow> ('s, 'a) action \<Rightarrow> ('t, 'a) action" where
  "zoom part put m t = (case m (part t) of (r, s') \<Rightarrow> (r, put s' t))"

lemma action_simps [simp]:
  "retA x s = (Inr x, s)" "throwA e s = (Inl e, s)" "pureA r s = (r, s)" "askA g s = (g s, s)"
  "readA h s = (Inr (h s), s)" "writeA u s = (Inr (), u s)"
  by (simp_all add: retA_def throwA_def pureA_def askA_def readA_def writeA_def)

text \<open>A property of the state that an action keeps, whether it returns or throws.\<close>

definition preserves :: "('s \<Rightarrow> bool) \<Rightarrow> ('s, 'a) action \<Rightarrow> bool" where
  "preserves P m \<longleftrightarrow> (\<forall>s. P s \<longrightarrow> P (snd (m s)))"

lemma preservesD: "preserves P m \<Longrightarrow> P s \<Longrightarrow> P (snd (m s))"
  by (simp add: preserves_def)

named_theorems preserving "the actions that keep an invariant"

lemma preserves_queries [preserving]:
  "preserves P (retA x)" "preserves P (throwA e)" "preserves P (pureA r)" "preserves P (askA g)" "preserves P (readA h)"
  by (simp_all add: preserves_def)

lemma preserves_writeA [preserving]: "(\<And>s. P s \<Longrightarrow> P (f s)) \<Longrightarrow> preserves P (writeA f)"
  by (simp add: preserves_def)

lemma preserves_bindA [preserving]:
  assumes "preserves P m" and "\<And>x. preserves P (f x)"
  shows "preserves P (bindA m f)"
  using assms by (fastforce simp: preserves_def bindA_def split: prod.splits sum.splits)

lemma bindA_Inr_iff:
  "fst (bindA m f s) = Inr y \<longleftrightarrow> (\<exists>x s'. m s = (Inr x, s') \<and> fst (f x s') = Inr y)"
  by (auto simp: bindA_def split: prod.splits sum.splits)

lemma bindA_eq: "m s = (Inr x, s') \<Longrightarrow> bindA m f s = f x s'"
  by (simp add: bindA_def)

lemma bindA_Inr:
  "bindA m f s = (Inr y, t) \<longleftrightarrow> (\<exists>x s'. m s = (Inr x, s') \<and> f x s' = (Inr y, t))"
  by (auto simp: bindA_def split: prod.splits sum.splits)

section \<open>Bytes and characters\<close>

text \<open>A character of a \<open>std::string\<close> as the byte of a blob, and back.\<close>

definition byte_of_char :: "char \<Rightarrow> byte" where
  "byte_of_char c = of_nat (of_char c)"

definition char_of_byte :: "byte \<Rightarrow> char" where
  "char_of_byte b = char_of (unat b)"

lemma unat_byte_less: "unat (b :: byte) < 256"
  using unsigned_less [of b, where ?'a = nat] by simp

lemma unat_byte_of_char: "unat (byte_of_char c) = of_char c"
  by (simp add: byte_of_char_def unat_of_nat)

lemma byte_of_char_of_byte [simp]: "byte_of_char (char_of_byte b) = b"
  using unat_byte_less [of b]
  by (simp add: byte_of_char_def char_of_byte_def of_char_of take_bit_nat_eq_self)

lemma char_of_byte_of_char [simp]: "char_of_byte (byte_of_char c) = c"
  by (simp add: char_of_byte_def unat_byte_of_char)

lemma char_of_byte_inject [simp]: "char_of_byte b = char_of_byte b' \<longleftrightarrow> b = b'"
  by (metis byte_of_char_of_byte)

section \<open>Words\<close>

lemma sint_inject [simp]: "sint v = sint w \<longleftrightarrow> v = (w :: 'a::len word)"
  by (auto intro: signed_word_eqI)

lemma unat_drop_bit_div: "unat (drop_bit k (w :: 'a::len word)) = unat w div 2 ^ k"
  by (subst unat_drop_bit_eq) (rule drop_bit_eq_div)

lemma sint_neq_cases: "v \<noteq> (w :: 'a::len word) \<Longrightarrow> sint v < sint w \<or> sint w < sint v"
  by (metis sint_inject linorder_neqE)

text \<open>One step of the big-endian accumulation loops: shift by a byte and add a byte.\<close>

lemma unat_push_byte:
  assumes "unat r < 2 ^ 56"
  shows "unat (push_bit 8 r OR ucast (b :: byte) :: uint64) = 256 * unat r + unat b"
proof -
  have "push_bit 8 r AND ucast b = (0 :: uint64)"
    by (rule bit_word_eqI) (auto simp: bit_simps dest: bit_imp_le_length)
  then have "push_bit 8 r OR ucast b = push_bit 8 r + (ucast b :: uint64)"
    by (rule disjunctive_add_eq_or [symmetric])
  also have "\<dots> = of_nat (256 * unat r + unat b)"
    by (simp add: push_bit_eq_mult)
  finally have e: "push_bit 8 r OR ucast b = (of_nat (256 * unat r + unat b) :: uint64)" .
  have "256 * unat r + unat b < 2 ^ 64"
    using assms unat_byte_less [of b] by simp
  then show ?thesis unfolding e unat_of_nat by simp
qed

lemma join_low_byte: "push_bit 8 (drop_bit 8 n) OR ucast (ucast (n AND 255) :: byte) = (n :: uint64)"
proof -
  have m: "(255 :: uint64) = mask 8" by (simp add: mask_eq_exp_minus_1)
  show ?thesis unfolding m
    by (rule bit_word_eqI) (auto simp: bit_simps not_less, metis le_add_diff_inverse not_less)
qed

lemma unat_low_byte: "unat (ucast (n AND 255 :: uint64) :: byte) = unat n mod 256"
proof -
  have m: "(255 :: uint64) = mask 8" by (simp add: mask_eq_exp_minus_1)
  have "ucast (n AND 255) = (ucast n :: byte)"
    unfolding m by (rule bit_word_eqI) (auto simp: bit_simps)
  then show ?thesis by (simp add: unsigned_ucast_eq take_bit_eq_mod)
qed

text \<open>
  The index arithmetic \<open>index = size () - (-index)\<close> on a negative 32-bit index, computed
  in 64 bits and truncated: the result is \<open>size + index\<close> modulo \<open>2 ^ 32\<close>.
\<close>

lemma ucast_word_of_int_64_32: "(ucast (word_of_int k :: uint64) :: uint32) = word_of_int k"
  by transfer (simp add: take_bit_take_bit min_def)

lemma ucast_size_minus: "(ucast (of_nat s - scast (- i) :: uint64) :: uint32) = of_nat s + i"
proof -
  have "of_nat s - scast (- i) = (word_of_int (int s - sint (- i)) :: uint64)" by simp
  then have "(ucast (of_nat s - scast (- i) :: uint64) :: uint32) = word_of_int (int s - sint (- i))"
    by (simp only: ucast_word_of_int_64_32)
  also have "\<dots> = of_nat s - (- i)" by (simp only: wi_hom_sub [symmetric]) simp
  finally show ?thesis by simp
qed

lemma unat_size_plus_negative:
  assumes "sint (i :: uint32) < 0" and "s < 2 ^ 31"
  shows "unat (of_nat s + i) =
    (if 0 \<le> int s + sint i then nat (int s + sint i) else nat (2 ^ 32 + int s + sint i))"
proof -
  let ?x = "int s + sint i"
  have r: "- (2 ^ 31) \<le> sint i" using sint_greater_eq [of i] by simp
  have "of_nat s + i = word_of_int ?x"
    by simp
  then have "uint (of_nat s + i) = ?x mod 2 ^ 32"
    by (simp only: uint_word_of_int) simp
  also have "\<dots> = (if 0 \<le> ?x then ?x else 2 ^ 32 + ?x)"
  proof (cases "0 \<le> ?x")
    case True
    then show ?thesis using assms by (simp add: mod_pos_pos_trivial)
  next
    case False
    have "?x mod 2 ^ 32 = (2 ^ 32 + ?x) mod 2 ^ 32" by simp
    also have "\<dots> = 2 ^ 32 + ?x" using False r assms by (intro mod_pos_pos_trivial) auto
    finally show ?thesis using False by simp
  qed
  finally show ?thesis by (simp add: unat_eq_nat_uint split: if_splits)
qed

section \<open>Lists\<close>

lemma map_nth_upt: "b \<le> length xs \<Longrightarrow> map ((!) xs) [a..<b] = take (b - a) (drop a xs)"
  by (rule nth_equalityI) auto

end
