(* ===== verification/Uri_Escape.thy ===== *)
theory Uri_Escape
  imports Ndn_Prelude
begin

unbundle bit_operations_syntax

text \<open>
  \<open>ndn.cxx/helpers/uri.h\<close>: percent-escaping of the bytes of a name component.
  \<open>toEscaped\<close> and \<open>fromEscaped\<close> follow the two loops of class \<open>Uri\<close>; the table
  \<open>ESCAPE_CHARACTER\<close> is kept row by row.
\<close>

section \<open>The escape table and hexadecimal digits\<close>

definition ESCAPE_CHARACTER :: "nat list" where
  "ESCAPE_CHARACTER = [
  1, 1, 1, 1, 1, 1, 1, 1, 1, 1, 1, 1, 1, 1, 1, 1, 1, 1, 1, 1, 1, 1, 1, 1, 1, 1, 1,
  1, 1, 1, 1, 1, 1, 0, 1, 0, 0, 1, 0, 0, 0, 0, 0, 0, 0, 0, 0, 0, 0, 0, 0, 0, 0, 0,
  0, 0, 0, 0, 0, 0, 1, 0, 1, 0, 0, 0, 0, 0, 0, 0, 0, 0, 0, 0, 0, 0, 0, 0, 0, 0, 0,
  0, 0, 0, 0, 0, 0, 0, 0, 0, 0, 0, 1, 0, 1, 0, 1, 0, 0, 0, 0, 0, 0, 0, 0, 0, 0, 0,
  0, 0, 0, 0, 0, 0, 0, 0, 0, 0, 0, 0, 0, 0, 0, 1, 1, 1, 0, 1, 1, 1, 1, 1, 1, 1, 1,
  1, 1, 1, 1, 1, 1, 1, 1, 1, 1, 1, 1, 1, 1, 1, 1, 1, 1, 1, 1, 1, 1, 1, 1, 1, 1, 1,
  1, 1, 1, 1, 1, 1, 1, 1, 1, 1, 1, 1, 1, 1, 1, 1, 1, 1, 1, 1, 1, 1, 1, 1, 1, 1, 1,
  1, 1, 1, 1, 1, 1, 1, 1, 1, 1, 1, 1, 1, 1, 1, 1, 1, 1, 1, 1, 1, 1, 1, 1, 1, 1, 1,
  1, 1, 1, 1, 1, 1, 1, 1, 1, 1, 1, 1, 1, 1, 1, 1, 1, 1, 1, 1, 1, 1, 1, 1, 1, 1, 1,
  1, 1, 1, 1, 1, 1, 1, 1, 1, 1, 1, 1, 1]"

definition must_escape :: "byte \<Rightarrow> bool" where
  "must_escape b \<longleftrightarrow> ESCAPE_CHARACTER ! unat b \<noteq> 0"

text \<open>
  \<open>hex_to_4_bit\<close>: the value of a hexadecimal digit of either case, and
  \<open>error::StringTransform\<close> (here \<open>None\<close>) for any other character.
\<close>

definition hex_to_4_bit :: "char \<Rightarrow> byte option" where
  "hex_to_4_bit ch = (let c = of_char ch :: nat in
     if 48 \<le> c \<and> c \<le> 57 then Some (of_nat (c - 48))
     else if 65 \<le> c \<and> c \<le> 70 then Some (of_nat (c - 55))
     else if 97 \<le> c \<and> c \<le> 102 then Some (of_nat (c - 87))
     else None)"

definition hex_lookup_table :: string where
  "hex_lookup_table = ''0123456789ABCDEF''"

definition hex_from_4_bit :: "byte \<Rightarrow> char" where
  "hex_from_4_bit b = hex_lookup_table ! unat b"

section \<open>Escaping and unescaping\<close>

text \<open>
  \<open>Uri::fromEscaped\<close>.  After a \<open>%\<close> the loop advances two positions and converts the
  two characters it jumped over.  Where fewer than two are left before the end of the
  component, the character found there is the slash that ends the component or the
  terminating zero of the string; neither is a hexadecimal digit, so the conversion throws.
\<close>

fun fromEscaped :: "string \<Rightarrow> blob result" where
  "fromEscaped [] = Inr []"
| "fromEscaped (c # cs) =
     (if c = CHR ''%'' then
        (case cs of
           h # l # rest \<Rightarrow>
             (case (hex_to_4_bit h, hex_to_4_bit l) of
                (Some hi, Some lo) \<Rightarrow>
                  bindE (fromEscaped rest) (\<lambda>bs. Inr ((push_bit 4 hi OR lo) # bs))
              | _ \<Rightarrow> Inl ErrUri)
         | _ \<Rightarrow> Inl ErrUri)
      else if \<not> must_escape (byte_of_char c) then
        bindE (fromEscaped cs) (\<lambda>bs. Inr (byte_of_char c # bs))
      else Inl ErrUri)"

definition escape_byte :: "byte \<Rightarrow> string" where
  "escape_byte b =
     (if must_escape b then
        [CHR ''%'', hex_from_4_bit (drop_bit 4 b AND 15), hex_from_4_bit (b AND 15)]
      else [char_of_byte b])"

fun toEscaped :: "blob \<Rightarrow> string" where
  "toEscaped [] = []"
| "toEscaped (b # bs) = escape_byte b @ toEscaped bs"

section \<open>Facts about the table\<close>

text \<open>The bytes that are escaped, read off the table.\<close>

lemma must_escape_iff:
  "must_escape b \<longleftrightarrow> unat b \<le> 32 \<or> unat b \<in> {34, 37, 60, 62, 92, 94, 96, 123, 124, 125}
     \<or> 127 \<le> unat b"
proof -
  let ?P = "\<lambda>n. n \<le> 32 \<or> n \<in> {34, 37, 60, 62, 92, 94, 96, 123, 124, 125} \<or> 127 \<le> n"
  have "map (\<lambda>x. x \<noteq> 0) ESCAPE_CHARACTER = map ?P [0..<256]"
    by code_simp
  then have "map (\<lambda>x. x \<noteq> 0) ESCAPE_CHARACTER ! unat b = map ?P [0..<256] ! unat b"
    by simp
  moreover have "length ESCAPE_CHARACTER = 256"
    by (simp add: ESCAPE_CHARACTER_def)
  ultimately show ?thesis
    using unat_byte_less [of b] by (simp add: must_escape_def)
qed

text \<open>
  What the encoder relies on: the two digits written for a byte decode to that byte, and a
  byte that is not escaped is read back as it is (in particular it is not a percent sign).
\<close>

lemma hex_digit_decodes:
  assumes "unat d < 16"
  shows "hex_to_4_bit (hex_from_4_bit d) = Some d"
proof -
  have "\<forall>n \<in> set [0, 1, 2, 3, 4, 5, 6, 7, 8, 9, 10, 11, 12, 13, 14, 15].
      hex_to_4_bit (hex_lookup_table ! n) = Some (of_nat n)"
    by (simp add: hex_lookup_table_def hex_to_4_bit_def)
  moreover have "unat d \<in> set [0, 1, 2, 3, 4, 5, 6, 7, 8, 9, 10, 11, 12, 13, 14, 15]"
    using assms by simp arith
  ultimately have "hex_to_4_bit (hex_lookup_table ! unat d) = Some (of_nat (unat d))"
    by blast
  then show ?thesis by (simp add: hex_from_4_bit_def)
qed

lemma nibble_less: "unat (b AND 15 :: byte) < 16"
proof -
  have "b AND 15 \<le> (15 :: byte)" by (rule word_and_le1)
  then show ?thesis by (simp add: word_le_nat_alt)
qed

lemma nibbles_join: "push_bit 4 (drop_bit 4 b AND 15) OR (b AND 15) = (b :: byte)"
proof -
  have m: "(15 :: byte) = mask 4" by (simp add: mask_eq_exp_minus_1)
  show ?thesis unfolding m
    by (rule bit_word_eqI) (auto simp: bit_simps)
qed

lemma unescaped_not_percent: "\<not> must_escape b \<Longrightarrow> char_of_byte b \<noteq> CHR ''%''"
proof
  assume "char_of_byte b = CHR ''%''" and n: "\<not> must_escape b"
  then have "b = byte_of_char (CHR ''%'')" by (metis byte_of_char_of_byte)
  then have "unat b = 37" by (simp add: byte_of_char_def)
  with n show False by (simp add: must_escape_iff)
qed

lemma fromEscaped_escape_byte [ndn_simps]:
  "fromEscaped (escape_byte b @ cs) = bindE (fromEscaped cs) (\<lambda>bs. Inr (b # bs))"
proof (cases "must_escape b")
  case True
  then show ?thesis
    by (simp add: escape_byte_def hex_digit_decodes nibble_less nibbles_join del: push_bit_and)
next
  case False
  then show ?thesis
    using unescaped_not_percent [OF False] by (simp add: escape_byte_def)
qed

lemma fromEscaped_toEscaped_append:
  "fromEscaped (toEscaped bs @ cs) = bindE (fromEscaped cs) (\<lambda>r. Inr (bs @ r))"
  by (induction bs) (simp_all add: ndn_simps bindE_assoc, cases "fromEscaped cs", simp_all)

end
