(* ===== verification/Name_Component.thy ===== *)
theory Name_Component
  imports Uri_Escape
begin

unbundle bit_operations_syntax

text \<open>
  \<open>ndn.cxx/fields/name-component.{h,cc}\<close>: a name component is a blob with a canonical
  order and the numeric and marker naming conventions.  \<open>char\<close> is signed on the platforms
  the library supports, so \<open>std::lexicographical_compare\<close> over \<open>vector<char>\<close>
  compares bytes as signed values.
\<close>

section \<open>Components and their comparison\<close>

datatype component = Component (bytes: blob)

definition component_size :: "component \<Rightarrow> nat" where
  "component_size c = length (bytes c)"

fun mismatch :: "blob \<Rightarrow> blob \<Rightarrow> blob \<times> blob" where
  "mismatch (x # xs) (y # ys) = (if x = y then mismatch xs ys else (x # xs, y # ys))"
| "mismatch xs ys = (xs, ys)"

fun lexicographical_compare :: "blob \<Rightarrow> blob \<Rightarrow> bool" where
  "lexicographical_compare _ [] = False"
| "lexicographical_compare [] (_ # _) = True"
| "lexicographical_compare (x # xs) (y # ys) =
     (if sint x < sint y then True
      else if sint y < sint x then False
      else lexicographical_compare xs ys)"

definition component_compare :: "component \<Rightarrow> component \<Rightarrow> int" where
  "component_compare c d =
     (if component_size c < component_size d then -1
      else if component_size d < component_size c then 1
      else (case mismatch (bytes c) (bytes d) of
              ([], _) \<Rightarrow> 0
            | (xs, ys) \<Rightarrow> if lexicographical_compare xs ys then -1 else 1))"

section \<open>Construction and conversion\<close>

definition component_of_uri :: "string \<Rightarrow> component result" where
  "component_of_uri uri =
     (case fromEscaped uri of Inl _ \<Rightarrow> Inl ErrComponent | Inr bs \<Rightarrow> Inr (Component bs))"

definition component_of_blob :: "blob \<Rightarrow> component" where
  "component_of_blob buf = Component buf"

definition component_toBlob :: "component \<Rightarrow> blob" where
  "component_toBlob c = bytes c"

definition component_toUri :: "component \<Rightarrow> string" where
  "component_toUri c = toEscaped (bytes c)"

text \<open>The loop \<open>while (number > 0)\<close> shared by the two encoders: low byte first.\<close>

function number_bytes :: "uint64 \<Rightarrow> blob" where
  "number_bytes n = (if 0 < n then ucast (n AND 255) # number_bytes (drop_bit 8 n) else [])"
  by pat_completeness auto
termination
proof (relation "measure unat")
  show "wf (measure unat)" by simp
next
  fix n :: uint64
  assume "0 < n"
  then have "0 < unat n" by (simp add: word_less_nat_alt)
  then have "unat n div 256 < unat n" by simp
  then show "(drop_bit 8 n, n) \<in> measure unat"
    by (simp add: unat_drop_bit_div)
qed

declare number_bytes.simps [simp del]

definition fromNumber :: "uint64 \<Rightarrow> component" where
  "fromNumber number = Component (rev (number_bytes number))"

definition fromNumberWithMarker :: "uint64 \<Rightarrow> byte \<Rightarrow> component" where
  "fromNumberWithMarker number marker = Component (marker # rev (number_bytes number))"

text \<open>The accumulation loop \<open>ret <<= 8; ret |= *i\<close> of the two decoders.\<close>

definition bytes_number :: "blob \<Rightarrow> uint64" where
  "bytes_number bs = foldl (\<lambda>ret i. push_bit 8 ret OR ucast i) 0 bs"

definition toNumber :: "component \<Rightarrow> uint64" where
  "toNumber c = bytes_number (bytes c)"

definition toNumberWithMarker :: "component \<Rightarrow> byte \<Rightarrow> uint64 result" where
  "toNumberWithMarker c marker =
     (case bytes c of
        [] \<Rightarrow> Inl ErrComponent
      | b # bs \<Rightarrow> if b \<noteq> marker then Inl ErrComponent else Inr (bytes_number bs))"

definition toSeqNum :: "component \<Rightarrow> uint64 result" where
  "toSeqNum c = toNumberWithMarker c 0"

definition toControlNum :: "component \<Rightarrow> uint64 result" where
  "toControlNum c = toNumberWithMarker c 0xC1"

definition toBlkId :: "component \<Rightarrow> uint64 result" where
  "toBlkId c = toNumberWithMarker c 0xFB"

definition toVersion :: "component \<Rightarrow> uint64 result" where
  "toVersion c = toNumberWithMarker c 0xFD"

section \<open>The comparison is a linear order\<close>

text \<open>
  The interface every ordered container of the library relies on: a three-way comparison
  that returns 0 only on equal arguments, is anti-symmetric in its sign and transitive.
\<close>

locale three_way =
  fixes cmp :: "'a \<Rightarrow> 'a \<Rightarrow> int"
  assumes cmp_eq: "cmp x y = 0 \<longleftrightarrow> x = y"
    and cmp_flip: "cmp x y < 0 \<longleftrightarrow> 0 < cmp y x"
    and cmp_trans: "cmp x y < 0 \<Longrightarrow> cmp y z < 0 \<Longrightarrow> cmp x z < 0"
begin

lemma cmp_le_iff: "cmp x y \<le> 0 \<longleftrightarrow> cmp x y < 0 \<or> x = y"
  using cmp_eq [of x y] by auto

lemma cmp_linear: "cmp x y \<le> 0 \<or> cmp y x \<le> 0"
  using cmp_flip [of y x] by linarith

lemma cmp_le_trans: "cmp x y \<le> 0 \<Longrightarrow> cmp y z \<le> 0 \<Longrightarrow> cmp x z \<le> 0"
  unfolding cmp_le_iff using cmp_trans by blast

lemma cmp_antisym: "cmp x y \<le> 0 \<Longrightarrow> cmp y x \<le> 0 \<Longrightarrow> x = y"
  using cmp_flip [of x y] cmp_flip [of y x] cmp_eq [of x y] by linarith

lemma cmp_less_le_not: "cmp x y < 0 \<longleftrightarrow> cmp x y \<le> 0 \<and> \<not> cmp y x \<le> 0"
  using cmp_flip [of x y] by linarith

lemma cmp_refl: "cmp x x = 0"
  by (simp add: cmp_eq)

end

text \<open>
  The same comparison as one recursion on two blobs of equal length: the sign of the
  first differing position.
\<close>

fun sdiff :: "blob \<Rightarrow> blob \<Rightarrow> int" where
  "sdiff (x # xs) (y # ys) =
     (if x = y then sdiff xs ys else if sint x < sint y then -1 else 1)"
| "sdiff _ _ = 0"

lemma mismatch_sdiff:
  "length xs = length ys \<Longrightarrow>
   (case mismatch xs ys of ([], _) \<Rightarrow> 0
    | (xs', ys') \<Rightarrow> if lexicographical_compare xs' ys' then -1 else 1) = sdiff xs ys"
proof (induction xs ys rule: mismatch.induct)
  case (1 x xs y ys)
  show ?case
  proof (cases "x = y")
    case False
    then have "sint x < sint y \<or> sint y < sint x" by (rule sint_neq_cases)
    with False show ?thesis by auto
  qed (use 1 in simp)
qed auto

lemma component_compare_sdiff:
  "component_compare (Component xs) (Component ys) =
     (if length xs < length ys then -1 else if length ys < length xs then 1 else sdiff xs ys)"
  using mismatch_sdiff [of xs ys]
  by (simp add: component_compare_def component_size_def)

lemma sdiff_eq: "length xs = length ys \<Longrightarrow> sdiff xs ys = 0 \<longleftrightarrow> xs = ys"
  by (induction xs ys rule: sdiff.induct) auto

lemma sdiff_flip: "length xs = length ys \<Longrightarrow> sdiff xs ys < 0 \<longleftrightarrow> 0 < sdiff ys xs"
proof (induction xs ys rule: sdiff.induct)
  case (1 x xs y ys)
  have "x \<noteq> y \<Longrightarrow> sint x < sint y \<or> sint y < sint x" by (rule sint_neq_cases)
  then show ?case using 1 by auto
qed auto

lemma sdiff_trans:
  "length xs = length ys \<Longrightarrow> length ys = length zs \<Longrightarrow> sdiff xs ys < 0 \<Longrightarrow> sdiff ys zs < 0
   \<Longrightarrow> sdiff xs zs < 0"
proof (induction xs ys arbitrary: zs rule: sdiff.induct)
  case (1 x xs y ys)
  then obtain z zs' where "zs = z # zs'" by (cases zs) auto
  with 1 show ?case by (auto split: if_splits)
qed auto

interpretation comp_cmp: three_way component_compare
proof
  fix c d e :: component
  obtain xs ys zs where c: "c = Component xs" and d: "d = Component ys" and e: "e = Component zs"
    by (metis component.exhaust)
  show "(component_compare c d = 0) = (c = d)"
    using sdiff_eq [of xs ys] by (auto simp: c d component_compare_sdiff)
  show "(component_compare c d < 0) = (0 < component_compare d c)"
    using sdiff_flip [of xs ys] by (auto simp: c d component_compare_sdiff)
  assume "component_compare c d < 0" and "component_compare d e < 0"
  then show "component_compare c e < 0"
    using sdiff_trans [of xs ys zs]
    by (auto simp: c d e component_compare_sdiff split: if_splits)
qed

definition component_le :: "component \<Rightarrow> component \<Rightarrow> bool" where
  "component_le c d \<longleftrightarrow> component_compare c d \<le> 0"

definition component_lt :: "component \<Rightarrow> component \<Rightarrow> bool" where
  "component_lt c d \<longleftrightarrow> component_compare c d < 0"

instantiation component :: linorder
begin

definition less_eq_component :: "component \<Rightarrow> component \<Rightarrow> bool" where
  "less_eq_component = component_le"

definition less_component :: "component \<Rightarrow> component \<Rightarrow> bool" where
  "less_component = component_lt"

instance
proof
  fix x y z :: component
  show "(x < y) = (x \<le> y \<and> \<not> y \<le> x)"
    unfolding less_component_def component_lt_def less_eq_component_def component_le_def by (rule comp_cmp.cmp_less_le_not)
  show "x \<le> x"
    unfolding less_eq_component_def component_le_def by (simp add: comp_cmp.cmp_refl)
  show "x \<le> y \<Longrightarrow> y \<le> z \<Longrightarrow> x \<le> z"
    unfolding less_eq_component_def component_le_def by (rule comp_cmp.cmp_le_trans)
  show "x \<le> y \<Longrightarrow> y \<le> x \<Longrightarrow> x = y"
    unfolding less_eq_component_def component_le_def by (rule comp_cmp.cmp_antisym)
  show "x \<le> y \<or> y \<le> x"
    unfolding less_eq_component_def component_le_def by (rule comp_cmp.cmp_linear)
qed

end

section \<open>Numbers in components\<close>

text \<open>The value of a big-endian byte string, as a natural number.\<close>

definition be_value :: "blob \<Rightarrow> nat" where
  "be_value bs = foldl (\<lambda>v b. 256 * v + unat b) 0 bs"

lemma be_value_snoc: "be_value (bs @ [b]) = 256 * be_value bs + unat b"
  by (simp add: be_value_def)

lemma be_value_less: "be_value bs < 256 ^ length bs"
proof (induction bs rule: rev_induct)
  case (snoc b bs)
  then show ?case
    using unat_byte_less [of b] by (simp add: be_value_snoc)
qed (simp add: be_value_def)

lemma bytes_number_snoc:
  "bytes_number (bs @ [b]) = push_bit 8 (bytes_number bs) OR ucast b"
  by (simp add: bytes_number_def)

lemma unat_bytes_number:
  "length bs \<le> 8 \<Longrightarrow> unat (bytes_number bs) = be_value bs"
proof (induction bs rule: rev_induct)
  case Nil
  then show ?case by (simp add: bytes_number_def be_value_def)
next
  case (snoc b bs)
  then have IH: "unat (bytes_number bs) = be_value bs" and l: "length bs \<le> 7" by auto
  have "be_value bs < 256 ^ length bs" by (rule be_value_less)
  also have "\<dots> \<le> 256 ^ 7" using l by (intro power_increasing) auto
  finally have "be_value bs < 2 ^ 56" by simp
  then show ?case
    by (simp only: bytes_number_snoc unat_push_byte IH be_value_snoc)
qed

text \<open>The encoder computes the base-256 digits, least significant first, without leading zero.\<close>

lemma be_value_rev_number_bytes: "be_value (rev (number_bytes n)) = unat n"
proof (induction n rule: number_bytes.induct)
  case (1 n)
  show ?case
  proof (cases "0 < n")
    case True
    then show ?thesis
      using 1 by (simp add: number_bytes.simps [of n] be_value_snoc unat_drop_bit_div unat_low_byte)
  next
    case False
    then have "n = 0" using word_gt_0 by blast
    then show ?thesis by (simp add: number_bytes.simps be_value_def)
  qed
qed

lemma number_bytes_eq_Nil [simp]: "number_bytes n = [] \<longleftrightarrow> n = 0"
  by (subst number_bytes.simps) (simp add: word_gt_0)

lemma number_bytes_last: "n \<noteq> 0 \<Longrightarrow> last (number_bytes n) \<noteq> 0"
proof (induction n rule: number_bytes.induct)
  case (1 n)
  then have pos: "0 < n" by (simp add: word_gt_0)
  show ?case
  proof (cases "drop_bit 8 n = 0")
    case True
    then have "unat n div 256 = 0" using unat_drop_bit_div [of 8 n] by simp
    then have "unat (ucast (n AND 255) :: byte) = unat n" by (simp add: unat_low_byte)
    then have "(ucast (n AND 255) :: byte) \<noteq> 0"
      using 1(2) by (metis unat_0 unat_eq_zero)
    then show ?thesis using pos True
      by (simp add: number_bytes.simps [of n] number_bytes.simps [of 0])
  next
    case False
    then show ?thesis using 1 pos
      by (simp add: number_bytes.simps [of n])
  qed
qed

lemma number_bytes_length: "unat n < 256 ^ k \<Longrightarrow> length (number_bytes n) \<le> k"
proof (induction k arbitrary: n)
  case 0
  then have "n = 0" by (simp add: unat_eq_zero)
  then show ?case by simp
next
  case (Suc k)
  show ?case
  proof (cases "0 < n")
    case True
    have "unat (drop_bit 8 n) < 256 ^ k"
      using Suc.prems by (simp add: unat_drop_bit_div less_mult_imp_div_less mult.commute)
    then show ?thesis using Suc.IH True by (simp add: number_bytes.simps [of n])
  next
    case False
    then show ?thesis by (simp add: number_bytes.simps)
  qed
qed

corollary number_bytes_length_8: "length (number_bytes n) \<le> 8"
proof (rule number_bytes_length)
  show "unat n < 256 ^ 8" using unsigned_less [of n, where ?'a = nat] by simp
qed

lemma bytes_number_rev_number_bytes [simp]: "bytes_number (rev (number_bytes n)) = n"
proof (rule unsigned_word_eqI [where ?'a = nat])
  show "unat (bytes_number (rev (number_bytes n))) = unat n"
    using number_bytes_length_8 [of n]
    by (simp add: unat_bytes_number be_value_rev_number_bytes)
qed

text \<open>Blobs the encoder can produce: at most eight bytes, no leading zero byte.\<close>

definition minimal_number :: "blob \<Rightarrow> bool" where
  "minimal_number bs \<longleftrightarrow> length bs \<le> 8 \<and> (bs \<noteq> [] \<longrightarrow> hd bs \<noteq> 0)"

lemma be_value_pos: "bs \<noteq> [] \<Longrightarrow> hd bs \<noteq> 0 \<Longrightarrow> 0 < be_value bs"
proof (induction bs rule: rev_induct)
  case (snoc b bs)
  then show ?case
    by (cases bs) (auto simp: be_value_snoc be_value_def unat_gt_0)
qed simp

lemma be_value_inject:
  "(bs \<noteq> [] \<longrightarrow> hd bs \<noteq> 0) \<Longrightarrow> (cs \<noteq> [] \<longrightarrow> hd cs \<noteq> 0) \<Longrightarrow> be_value bs = be_value cs
   \<Longrightarrow> bs = cs"
proof (induction bs arbitrary: cs rule: rev_induct)
  case Nil
  then have "be_value cs = 0" by (simp add: be_value_def)
  then show ?case using Nil be_value_pos [of cs] by force
next
  case (snoc b bs)
  have "0 < be_value (bs @ [b])" using snoc.prems(1) by (intro be_value_pos) auto
  then have "cs \<noteq> []" using snoc.prems(3) by (auto simp: be_value_def)
  then obtain ds d where cs: "cs = ds @ [d]" by (metis rev_exhaust)
  have eq: "256 * be_value bs + unat b = 256 * be_value ds + unat d"
    using snoc.prems(3) by (simp add: cs be_value_snoc)
  have "(256 * be_value bs + unat b) mod 256 = unat b"
    and "(256 * be_value ds + unat d) mod 256 = unat d"
    using unat_byte_less [of b] unat_byte_less [of d] by simp_all
  with eq have "unat b = unat d" by simp
  then have "b = d" and "be_value bs = be_value ds"
    using eq by (auto intro: unsigned_word_eqI)
  moreover have "bs \<noteq> [] \<longrightarrow> hd bs \<noteq> 0" and "ds \<noteq> [] \<longrightarrow> hd ds \<noteq> 0"
    using snoc.prems(1,2) by (auto simp: cs)
  ultimately show ?case using snoc.IH [of ds] by (simp add: cs)
qed

lemma minimal_number_rev_number_bytes: "minimal_number (rev (number_bytes n))"
  using number_bytes_length_8 [of n] number_bytes_last [of n]
  by (auto simp: minimal_number_def hd_rev)

section \<open>Properties\<close>

text \<open>Reading back the network-ordered number written by \<open>fromNumber\<close> gives the
  number, for every 64-bit value.\<close>

theorem toNumber_fromNumber: "toNumber (fromNumber n) = n"
  by (simp add: toNumber_def fromNumber_def)

text \<open>The numeric encoding is canonical: a component is the encoding of the number
  it stands for exactly when it has at most eight bytes and no leading zero byte.\<close>

theorem fromNumber_toNumber_iff: "fromNumber (toNumber c) = c \<longleftrightarrow> minimal_number (bytes c)"
proof
  assume "fromNumber (toNumber c) = c"
  then have "bytes c = rev (number_bytes (toNumber c))"
    by (metis fromNumber_def component.sel)
  then show "minimal_number (bytes c)" by (simp add: minimal_number_rev_number_bytes)
next
  assume m: "minimal_number (bytes c)"
  have "be_value (rev (number_bytes (toNumber c))) = be_value (bytes c)"
    using m by (simp add: be_value_rev_number_bytes toNumber_def unat_bytes_number minimal_number_def)
  then have "rev (number_bytes (toNumber c)) = bytes c"
    using m minimal_number_rev_number_bytes [of "toNumber c"]
    by (intro be_value_inject) (auto simp: minimal_number_def)
  then show "fromNumber (toNumber c) = c" by (simp add: fromNumber_def)
qed

text \<open>A number written with a marker is read back with the same marker, and reading
  it with any other marker throws.\<close>

theorem toNumberWithMarker_fromNumberWithMarker:
  "toNumberWithMarker (fromNumberWithMarker n m) m' = (if m = m' then Inr n else Inl ErrComponent)"
  by (simp add: toNumberWithMarker_def fromNumberWithMarker_def)

text \<open>The URI form of a component parses back to the component, whatever its bytes.\<close>

theorem component_of_uri_toUri: "component_of_uri (component_toUri c) = Inr c"
  using fromEscaped_toEscaped_append [of "bytes c" "[]"]
  by (simp add: component_of_uri_def component_toUri_def)

lemma sdiff_lexord:
  "length xs = length ys \<Longrightarrow>
   sdiff xs ys < 0 \<longleftrightarrow> (map sint xs, map sint ys) \<in> lexord {(x, y). x < y}"
  by (induction xs ys rule: sdiff.induct) auto

text \<open>The canonical order of components: shorter components come first, components
  of equal length are ordered lexicographically by their bytes read as signed values.\<close>

theorem component_less_iff:
  "c < d \<longleftrightarrow> component_size c < component_size d \<or>
     (component_size c = component_size d \<and>
      (map sint (bytes c), map sint (bytes d)) \<in> lexord {(x, y). x < y})"
  using component_compare_sdiff [of "bytes c" "bytes d"] sdiff_lexord [of "bytes c" "bytes d"]
  by (auto simp: less_component_def component_lt_def component_size_def)

text \<open>The signed reading is visible on the wire: byte 0x80 sorts before byte 0x7F, against the
  canonical (unsigned) order that the comments of the class refer to.\<close>

lemma component_order_is_signed: "Component [0x80] < Component [0x7F]"
  by (simp add: less_component_def component_lt_def component_compare_def component_size_def)

end
