(* ===== verification/Exclude_Filter.thy ===== *)
theory Exclude_Filter
  imports Name_Component
begin

text \<open>
  \<open>ndn.cxx/fields/exclude.{h,cc}\<close>: the exclude filter of an Interest.  The field
  \<open>m_exclude\<close> is a \<open>std::map\<close> with \<open>std::greater\<close>, modelled as the list
  of its nodes in iteration order, the largest component first.  An iterator is the key of
  the node it points to (map iterators stay on their node when others are inserted or
  erased) and \<open>None\<close> is \<open>end ()\<close>.
\<close>

lemmas component_eval = less_component_def component_lt_def less_eq_component_def component_le_def component_compare_def component_size_def

section \<open>The ordered map\<close>

type_synonym exclude_map = "(component \<times> bool) list"

record exclude =
  m_exclude :: exclude_map

definition map_lower_bound :: "component \<Rightarrow> exclude_map \<Rightarrow> component option" where
  "map_lower_bound c m = (case dropWhile (\<lambda>e. c < fst e) m of [] \<Rightarrow> None | e # _ \<Rightarrow> Some (fst e))"

text \<open>\<open>std::map::insert\<close> keeps an existing node and reports whether it inserted.\<close>

definition map_insert :: "component \<Rightarrow> bool \<Rightarrow> exclude_map \<Rightarrow> exclude_map \<times> bool" where
  "map_insert c any m =
     (if map_lower_bound c m = Some c then (m, False)
      else (takeWhile (\<lambda>e. c < fst e) m @ (c, any) # dropWhile (\<lambda>e. c < fst e) m, True))"

text \<open>\<open>newFrom->second = true\<close>.\<close>

definition map_set_any :: "component \<Rightarrow> exclude_map \<Rightarrow> exclude_map" where
  "map_set_any c m = map (\<lambda>e. if fst e = c then (c, True) else e) m"

text \<open>\<open>++ iterator\<close>.\<close>

definition map_next :: "component \<Rightarrow> exclude_map \<Rightarrow> component option" where
  "map_next c m = (case dropWhile (\<lambda>e. fst e \<noteq> c) m of _ # e # _ \<Rightarrow> Some (fst e) | _ \<Rightarrow> None)"

text \<open>\<open>erase (first, last)\<close>: the nodes from \<open>first\<close> up to, not including, \<open>last\<close>.\<close>

definition map_erase :: "component option \<Rightarrow> component option \<Rightarrow> exclude_map \<Rightarrow> exclude_map" where
  "map_erase first until m =
     takeWhile (\<lambda>e. Some (fst e) \<noteq> first) m @
     dropWhile (\<lambda>e. Some (fst e) \<noteq> until) (dropWhile (\<lambda>e. Some (fst e) \<noteq> first) m)"

definition map_begin :: "exclude_map \<Rightarrow> component option" where
  "map_begin m = (case m of [] \<Rightarrow> None | e # _ \<Rightarrow> Some (fst e))"

section \<open>Operations\<close>

definition exclude_empty :: exclude where
  "exclude_empty = \<lparr> m_exclude = [] \<rparr>"

definition isExcluded :: "exclude \<Rightarrow> component \<Rightarrow> bool" where
  "isExcluded ex cmp =
     (case map_lower_bound cmp (m_exclude ex) of
        None \<Rightarrow> False
      | Some k \<Rightarrow> if map_of (m_exclude ex) k = Some True then True else k = cmp)"

definition excludeOne :: "exclude \<Rightarrow> component \<Rightarrow> exclude" where
  "excludeOne ex cmp =
     (if \<not> isExcluded ex cmp
      then ex\<lparr> m_exclude := fst (map_insert cmp False (m_exclude ex)) \<rparr>
      else ex)"

text \<open>
  The common start of \<open>excludeRange\<close> and \<open>excludeAfter\<close>: find or create the node that
  opens the range.  It returns the map and the iterator \<open>newFrom\<close>.
\<close>

definition open_range :: "component \<Rightarrow> exclude_map \<Rightarrow> exclude_map \<times> component option" where
  "open_range from m =
     (let newFrom = map_lower_bound from m in
      if newFrom = None \<or> map_of m (the newFrom) \<noteq> Some True
      then (case map_insert from True m of
              (m', inserted) \<Rightarrow> (if inserted then m' else map_set_any from m', Some from))
      else (m, newFrom))"

definition excludeRange :: "exclude \<Rightarrow> component \<Rightarrow> component \<Rightarrow> exclude result" where
  "excludeRange ex from to =
     (if from \<ge> to then Inl ErrExclude
      else
        let (m, newFrom) = open_range from (m_exclude ex);
            newTo = map_lower_bound to m;
            (m', newTo') =
              (if newTo = newFrom \<or> map_of m (the newTo) \<noteq> Some True
               then (let m'' = fst (map_insert to False m) in (m'', map_next to m''))
               else (m, newTo))
        in Inr (ex\<lparr> m_exclude := map_erase newTo' newFrom m' \<rparr>))"

definition excludeBefore :: "exclude \<Rightarrow> component \<Rightarrow> exclude result" where
  "excludeBefore ex to = excludeRange ex (Component []) to"

definition excludeAfter :: "exclude \<Rightarrow> component \<Rightarrow> exclude" where
  "excludeAfter ex from =
     (let (m, newFrom) = open_range from (m_exclude ex)
      in ex\<lparr> m_exclude := (if newFrom \<noteq> map_begin m then map_erase (map_begin m) newFrom m else m) \<rparr>)"

definition exclude_size :: "exclude \<Rightarrow> nat" where
  "exclude_size ex = length (m_exclude ex)"

definition exclude_print :: "exclude \<Rightarrow> string" where
  "exclude_print ex =
     concat (map (\<lambda>e. component_toUri (fst e) @ '' '' @ (if snd e then ''----> '' else []))
       (rev (m_exclude ex)))"

section \<open>The order invariant\<close>

definition descending :: "exclude_map \<Rightarrow> bool" where
  "descending m = sorted_wrt (\<lambda>a b. fst b < fst a) m"

lemma descending_Nil [simp]: "descending []"
  by (simp add: descending_def)

lemma descending_Cons [simp]:
  "descending (e # m) \<longleftrightarrow> (\<forall>x\<in>set m. fst x < fst e) \<and> descending m"
  by (simp add: descending_def)

lemma descending_append:
  "descending (m @ n) \<longleftrightarrow> descending m \<and> descending n \<and> (\<forall>x\<in>set m. \<forall>y\<in>set n. fst y < fst x)"
  by (simp add: descending_def sorted_wrt_append)

lemma descending_map_of: "descending m \<Longrightarrow> e \<in> set m \<Longrightarrow> map_of m (fst e) = Some (snd e)"
  by (induction m) (auto simp: less_le)

text \<open>The node that decides about \<open>c\<close>: the first one that is not above it.\<close>

definition governing :: "component \<Rightarrow> exclude_map \<Rightarrow> (component \<times> bool) option" where
  "governing c m = (case dropWhile (\<lambda>e. c < fst e) m of [] \<Rightarrow> None | e # _ \<Rightarrow> Some e)"

lemma governing_append:
  "(\<forall>e\<in>set h. c < fst e) \<Longrightarrow> governing c (h @ m) = governing c m"
  by (induction h) (auto simp: governing_def)

lemma governing_Cons [simp]:
  "governing c (e # m) = (if c < fst e then governing c m else Some e)"
  by (simp add: governing_def)

lemma governing_Nil [simp]: "governing c [] = None"
  by (simp add: governing_def)

lemma governing_le: "governing c m = Some e \<Longrightarrow> e \<in> set m \<and> fst e \<le> c"
  by (induction m) (auto split: if_splits)

lemma governing_in_front:
  "governing c m = Some e \<Longrightarrow> governing c (m @ n) = Some e"
  by (induction m) (auto split: if_splits)

lemma governing_None_append:
  "governing c m = None \<Longrightarrow> governing c (m @ n) = governing c n"
  by (induction m) (auto split: if_splits)

lemma map_lower_bound_governing: "map_lower_bound c m = map_option fst (governing c m)"
  by (induction m) (simp_all add: map_lower_bound_def governing_def)

lemma map_lower_bound_ne: "\<forall>x\<in>set m. fst x \<noteq> c \<Longrightarrow> map_lower_bound c m \<noteq> Some c"
  by (induction m) (auto simp: map_lower_bound_governing)

lemma governing_all_le:
  "\<forall>e\<in>set m. fst e \<le> c \<Longrightarrow> governing c m = (case m of [] \<Rightarrow> None | e # _ \<Rightarrow> Some e)"
  by (cases m) (simp_all add: leD)

lemma isExcluded_governing:
  assumes "descending m"
  shows "isExcluded \<lparr> m_exclude = m \<rparr> c \<longleftrightarrow>
    (case governing c m of None \<Rightarrow> False | Some e \<Rightarrow> snd e \<or> fst e = c)"
  using assms governing_le [of c m] descending_map_of [OF assms]
  by (auto simp: isExcluded_def map_lower_bound_governing split: option.split)

text \<open>Every map splits at a component; the nodes not above it are its tail.\<close>

lemma split_at:
  assumes "descending m"
  obtains h t where "m = h @ t" "\<forall>e\<in>set h. c < fst e" "\<forall>e\<in>set t. fst e \<le> c"
    "descending h" "descending t"
proof
  let ?h = "takeWhile (\<lambda>e. c < fst e) m" and ?t = "dropWhile (\<lambda>e. c < fst e) m"
  show m: "m = ?h @ ?t" by simp
  show "\<forall>e\<in>set ?h. c < fst e" by (auto dest: set_takeWhileD)
  show d: "descending ?h" "descending ?t"
    using assms m by (metis descending_append)+
  show "\<forall>e\<in>set ?t. fst e \<le> c"
  proof (cases ?t)
    case Nil
    show ?thesis unfolding Nil by simp
  next
    case (Cons e t)
    then have "\<not> c < fst e" using dropWhile_eq_Cons_conv by metis
    moreover have "\<forall>x\<in>set t. fst x < fst e" using d(2) unfolding Cons by simp
    ultimately show ?thesis unfolding Cons by auto
  qed
qed

section \<open>Opening a range\<close>

text \<open>What \<open>open_range\<close> makes of the nodes that are not above \<open>from\<close>.\<close>

definition open_tail :: "component \<Rightarrow> exclude_map \<Rightarrow> exclude_map" where
  "open_tail from t =
     (case t of
        [] \<Rightarrow> [(from, True)]
      | e # t' \<Rightarrow> if snd e then t else if fst e = from then (from, True) # t' else (from, True) # t)"

lemma takeWhile_above: "\<forall>e\<in>set h. c < fst e \<Longrightarrow> \<forall>e\<in>set t. fst e \<le> c \<Longrightarrow>
    takeWhile (\<lambda>e. c < fst e) (h @ t) = h \<and> dropWhile (\<lambda>e. c < fst e) (h @ t) = (t :: exclude_map)"
  by (cases t) (auto simp: takeWhile_append2 dropWhile_append2)

lemma map_insert_split:
  assumes "\<forall>e\<in>set h. c < fst e" and "\<forall>e\<in>set t. fst e \<le> c"
  shows "map_insert c any (h @ t) =
    (if map_lower_bound c t = Some c then (h @ t, False) else (h @ (c, any) # t, True))"
  using assms takeWhile_above [OF assms]
  by (simp add: map_insert_def map_lower_bound_governing governing_append)

lemma open_range_split:
  assumes d: "descending (h @ t)" and h: "\<forall>e\<in>set h. from < fst e" and t: "\<forall>e\<in>set t. fst e \<le> from"
  shows "open_range from (h @ t) = (h @ open_tail from t, Some (fst (hd (open_tail from t))))"
proof (cases t)
  case Nil
  then show ?thesis using map_insert_split [OF h t] h
    by (simp add: open_range_def open_tail_def map_lower_bound_governing governing_append
        governing_append [of _ _ "[]", simplified])
next
  case (Cons e t')
  have lb: "map_lower_bound from (h @ t) = Some (fst e)"
    using h t Cons by (cases e) (auto simp: map_lower_bound_governing governing_append)
  have mo: "map_of (h @ t) (fst e) = Some (snd e)"
    using d Cons by (intro descending_map_of) auto
  have set_any: "map_set_any from (h @ e # t') = h @ (from, True) # t'" if "fst e = from"
    using that h d Cons
    by (auto simp: map_set_any_def descending_append intro!: map_idI)
  have ins: "map_insert from True (h @ t) =
      (if fst e = from then (h @ t, False) else (h @ (from, True) # t, True))"
    using map_insert_split [OF h t, of True] t Cons
    by (cases e) (auto simp: map_lower_bound_governing dest: leD)
  show ?thesis
    using lb mo ins Cons set_any by (cases "snd e"; cases "fst e = from") (simp_all add: open_range_def open_tail_def)
qed

lemma open_tail_ne [simp]: "open_tail from t \<noteq> []"
  by (simp add: open_tail_def split: list.split)

lemma open_tail_hd:
  "\<forall>e\<in>set t. fst e \<le> from \<Longrightarrow> snd (hd (open_tail from t)) \<and> fst (hd (open_tail from t)) \<le> from"
  by (auto simp: open_tail_def split: list.split)

lemma open_tail_le: "\<forall>e\<in>set t. fst e \<le> from \<Longrightarrow> \<forall>e\<in>set (open_tail from t). fst e \<le> from"
  by (auto simp: open_tail_def split: list.splits if_splits)

lemma descending_open_tail:
  "descending t \<Longrightarrow> \<forall>e\<in>set t. fst e \<le> from \<Longrightarrow> descending (open_tail from t)"
  by (cases t) (simp_all add: open_tail_def, metis le_less less_trans)

lemma governing_open_tail_above:
  "\<forall>e\<in>set t. fst e \<le> from \<Longrightarrow> from \<le> c \<Longrightarrow> governing c (open_tail from t) = Some (hd (open_tail from t))"
  using open_tail_hd [of t "from"] by (cases "open_tail from t") (auto simp: not_less)

lemma excl_open_tail_below:
  assumes "descending t" "\<forall>e\<in>set t. fst e \<le> from" "c < from"
  shows "isExcluded \<lparr> m_exclude = open_tail from t \<rparr> c = isExcluded \<lparr> m_exclude = t \<rparr> c"
proof -
  note d = descending_open_tail [OF assms(1,2)]
  show ?thesis
    unfolding isExcluded_governing [OF d] isExcluded_governing [OF assms(1)]
    using assms by (auto simp: open_tail_def split: list.splits)
qed

section \<open>Erasing between two nodes\<close>

lemma descending_keys_ne:
  "descending (a @ b) \<Longrightarrow> e \<in> set b \<Longrightarrow> \<forall>x\<in>set a. fst x \<noteq> fst e"
  unfolding descending_append by (metis less_irrefl)

lemma key_split:
  "\<forall>x\<in>set a. fst x \<noteq> k \<Longrightarrow> c \<noteq> [] \<Longrightarrow> fst (hd c) = k \<Longrightarrow>
    takeWhile (\<lambda>e. fst e \<noteq> k) (a @ c) = a \<and> dropWhile (\<lambda>e. fst e \<noteq> k) (a @ c) = c"
  by (induction a) (cases c; simp)+

lemma map_erase_split:
  assumes d: "descending (a @ b @ c)" and c: "c \<noteq> []"
  shows "map_erase (Some (fst (hd (b @ c)))) (Some (fst (hd c))) (a @ b @ c) = a @ c"
proof -
  have 1: "\<forall>x\<in>set a. fst x \<noteq> fst (hd (b @ c))"
    by (rule descending_keys_ne [OF d], rule hd_in_set) (use c in simp)
  have 2: "\<forall>x\<in>set b. fst x \<noteq> fst (hd c)"
    using d c by (intro descending_keys_ne [of b c]) (auto simp: descending_append)
  show ?thesis
    using key_split [OF 1, of "b @ c"] key_split [OF 2 c] c by (simp add: map_erase_def)
qed

lemma map_next_split:
  assumes "descending (a @ (k, v) # b)" and "b \<noteq> []"
  shows "map_next k (a @ (k, v) # b) = Some (fst (hd b))"
proof -
  have "\<forall>x\<in>set a. fst x \<noteq> k"
    using descending_keys_ne [OF assms(1), of "(k, v)"] by simp
  then show ?thesis using assms(2) by (cases b) (simp_all add: map_next_def dropWhile_append2)
qed

section \<open>The result of the range operations\<close>

definition close_range :: "component \<Rightarrow> exclude_map \<Rightarrow> exclude_map" where
  "close_range to mid =
     (case mid of [] \<Rightarrow> [(to, False)] | e # _ \<Rightarrow> if snd e then [] else [(to, False)])"

lemma excludeRange_split:
  assumes d: "descending (h @ mid @ t)" and h: "\<forall>e\<in>set h. to < fst e"
    and m: "\<forall>e\<in>set mid. from < fst e \<and> fst e \<le> to" and t: "\<forall>e\<in>set t. fst e \<le> from"
    and lt: "from < to"
  shows "excludeRange \<lparr> m_exclude = h @ mid @ t \<rparr> from to =
    Inr \<lparr> m_exclude = h @ close_range to mid @ open_tail from t \<rparr>"
proof -
  let ?F = "open_tail from t"
  define f where "f = fst (hd ?F)"
  have ff: "f \<le> from" using open_tail_hd [OF t] by (simp add: f_def)
  have F: "\<forall>e\<in>set ?F. fst e \<le> from" by (rule open_tail_le [OF t])
  have "\<forall>x\<in>set h. \<forall>y\<in>set ?F. fst y < fst x" "\<forall>x\<in>set mid. \<forall>y\<in>set ?F. fst y < fst x"
    using h m F lt by (meson le_less_trans less_trans)+
  then have dF: "descending (h @ mid @ ?F)"
    using d descending_open_tail [OF _ t] by (simp add: descending_append ball_Un)
  have "\<forall>e\<in>set (h @ mid). from < fst e" using h m lt by (auto dest: less_trans)
  then have opn: "open_range from (h @ mid @ t) = (h @ mid @ ?F, Some f)"
    using open_range_split [of "h @ mid" t "from"] d t by (simp add: f_def)
  have tail: "\<forall>e\<in>set (mid @ ?F). fst e \<le> to" using m F lt by auto
  have er: "map_erase (Some (fst (hd (b @ ?F)))) (Some f) (a @ b @ ?F) = a @ ?F"
    if "descending (a @ b @ ?F)" for a b
    using map_erase_split [OF that] by (simp add: f_def)
  have dto: "descending (h @ (to, False) # mid @ ?F)" if "\<forall>e\<in>set (mid @ ?F). fst e \<noteq> to"
    using dF tail h that by (auto simp: descending_append less_le)
  show ?thesis
  proof (cases mid)
    case Nil
    have lb: "map_lower_bound to (h @ ?F) = Some f"
      using h F lt by (cases ?F) (auto simp: map_lower_bound_governing governing_append f_def)
    have "map_lower_bound to ?F \<noteq> Some to"
      using F lt by (auto simp: map_lower_bound_governing dest!: governing_le)
    then have ins: "map_insert to False (h @ ?F) = (h @ (to, False) # ?F, True)"
      using map_insert_split [OF h, of ?F False] tail Nil by simp
    have "\<forall>e\<in>set (mid @ ?F). fst e \<noteq> to" using F lt Nil by (metis append_Nil leD)
    then have d': "descending (h @ (to, False) # ?F)" using dto Nil by simp
    show ?thesis
      using opn lb ins lt map_next_split [OF d'] er [of "h @ [(to, False)]" "[]"] d' Nil
      by (simp add: excludeRange_def close_range_def f_def)
  next
    case (Cons e mid')
    have e: "fst e \<noteq> f" "fst e \<le> to" using m ff Cons by auto
    have lb: "map_lower_bound to (h @ mid @ ?F) = Some (fst e)"
      using h e Cons by (cases e) (auto simp: map_lower_bound_governing governing_append)
    have mo: "map_of (h @ mid @ ?F) (fst e) = Some (snd e)"
      using Cons by (intro descending_map_of [OF dF]) simp
    consider (any) "snd e" | (eq) "\<not> snd e" "fst e = to" | (lt) "\<not> snd e" "fst e < to"
      using e by fastforce
    then show ?thesis
    proof cases
      case any
      then show ?thesis using opn lb mo e er [OF dF] lt Cons
        by (simp add: excludeRange_def close_range_def)
    next
      case eq
      then have ee: "e = (to, False)" by (cases e) simp
      have ins: "map_insert to False (h @ mid @ ?F) = (h @ mid @ ?F, False)"
        using map_insert_split [OF h tail, of False] Cons ee
        by (simp add: map_lower_bound_governing)
      have d': "descending (h @ (to, False) # mid' @ ?F)" using dF Cons ee by simp
      show ?thesis
        using opn lb mo e ins lt map_next_split [OF d'] er [of "h @ [(to, False)]" mid'] d' Cons ee
        by (simp add: excludeRange_def close_range_def)
    next
      case lt
      have "\<forall>x\<in>set (mid @ ?F). fst x \<le> fst e" using dF Cons by (auto simp: descending_append less_imp_le)
      then have ne: "\<forall>x\<in>set (mid @ ?F). fst x \<noteq> to" using lt(2) by (metis leD)
      have "map_lower_bound to (mid @ ?F) \<noteq> Some to" by (rule map_lower_bound_ne [OF ne])
      then have ins: "map_insert to False (h @ mid @ ?F) = (h @ (to, False) # mid @ ?F, True)"
        using map_insert_split [OF h tail, of False] by simp
      show ?thesis
        using opn lb mo e ins \<open>from < to\<close> lt(1) map_next_split [OF dto [OF ne]]
          er [of "h @ [(to, False)]" mid] dto [OF ne] Cons
        by (simp add: excludeRange_def close_range_def)
    qed
  qed
qed

lemma excludeAfter_split:
  assumes d: "descending (h @ t)" and h: "\<forall>e\<in>set h. from < fst e" and t: "\<forall>e\<in>set t. fst e \<le> from"
  shows "excludeAfter \<lparr> m_exclude = h @ t \<rparr> from = \<lparr> m_exclude = open_tail from t \<rparr>"
proof -
  let ?F = "open_tail from t"
  have "\<forall>x\<in>set h. \<forall>y\<in>set ?F. fst y < fst x"
    using h open_tail_le [OF t] by (meson le_less_trans)
  then have dF: "descending (h @ ?F)"
    using d descending_open_tail [OF _ t] by (simp add: descending_append)
  have b: "map_begin (h @ ?F) = Some (fst (hd (h @ ?F)))"
    by (cases "h @ ?F") (auto simp: map_begin_def)
  show ?thesis
  proof (cases h)
    case Nil
    then show ?thesis using open_range_split [OF d h t] b by (simp add: excludeAfter_def)
  next
    case (Cons e h')
    have "fst e \<noteq> fst (hd ?F)" using h open_tail_hd [OF t] Cons by auto
    then show ?thesis
      using open_range_split [OF d h t] b map_erase_split [of "[]" h ?F] dF Cons
      by (simp add: excludeAfter_def)
  qed
qed

lemma excludeOne_split:
  assumes d: "descending (h @ t)" and h: "\<forall>e\<in>set h. c < fst e" and t: "\<forall>e\<in>set t. fst e \<le> c"
    and n: "\<not> isExcluded \<lparr> m_exclude = h @ t \<rparr> c"
  shows "excludeOne \<lparr> m_exclude = h @ t \<rparr> c = \<lparr> m_exclude = h @ (c, False) # t \<rparr>"
    and "\<forall>e\<in>set t. fst e < c"
proof -
  have "map_lower_bound c t \<noteq> Some c"
    using n unfolding isExcluded_governing [OF d]
    by (auto simp: map_lower_bound_governing governing_append [OF h])
  then show "excludeOne \<lparr> m_exclude = h @ t \<rparr> c = \<lparr> m_exclude = h @ (c, False) # t \<rparr>"
    using map_insert_split [OF h t] n by (simp add: excludeOne_def)
  have "descending t" using d by (simp add: descending_append)
  then show "\<forall>e\<in>set t. fst e < c"
    using \<open>map_lower_bound c t \<noteq> Some c\<close> t
    by (cases t) (auto simp: map_lower_bound_governing dest: leD intro: less_le_trans simp: less_le)
qed

section \<open>What the operations exclude\<close>

text \<open>
  The components that \<open>excludeRange\<close> un-excludes: when one ANY node governs both ends of
  the new range, the node inserted for \<open>to\<close> ends the old, longer range there.
\<close>

definition reopened :: "exclude \<Rightarrow> component \<Rightarrow> component \<Rightarrow> component \<Rightarrow> bool" where
  "reopened ex from to c \<longleftrightarrow>
     (\<exists>k. governing from (m_exclude ex) = Some (k, True)
        \<and> governing to (m_exclude ex) = Some (k, True)
        \<and> governing c (m_exclude ex) = Some (k, True)) \<and> to < c"

lemma exclude_eq: "m_exclude ex = m \<Longrightarrow> ex = \<lparr> m_exclude = m \<rparr>"
  by simp

lemma split_range:
  assumes "descending m" and "from < to"
  obtains h mid t where "m = h @ mid @ t" "\<forall>e\<in>set h. to < fst e"
    "\<forall>e\<in>set mid. from < fst e \<and> fst e \<le> to" "\<forall>e\<in>set t. fst e \<le> from"
    "descending h" "descending mid" "descending t"
proof -
  obtain h r where r: "m = h @ r" "\<forall>e\<in>set h. to < fst e" "\<forall>e\<in>set r. fst e \<le> to"
      "descending h" "descending r"
    using split_at [OF assms(1)] by blast
  obtain mid t where "r = mid @ t" "\<forall>e\<in>set mid. from < fst e" "\<forall>e\<in>set t. fst e \<le> from"
      "descending mid" "descending t"
    using split_at [OF r(5)] by blast
  with r show ?thesis by (intro that [of h mid t]) auto
qed

lemma descending_close_range:
  assumes "descending (h @ mid @ t)" "\<forall>e\<in>set h. to < fst e"
    "\<forall>e\<in>set mid. from < fst e \<and> fst e \<le> to" "\<forall>e\<in>set t. fst e \<le> from" "from < to"
  shows "descending (h @ close_range to mid @ open_tail from t)"
proof -
  have "\<forall>e\<in>set (open_tail from t). fst e < to"
    using open_tail_le [OF assms(4)] assms(5) by (meson le_less_trans)
  moreover have "\<forall>x\<in>set h. \<forall>y\<in>set (open_tail from t). fst y < fst x"
    using calculation assms(2) by (meson less_trans)
  ultimately show ?thesis
    using assms descending_open_tail [OF _ assms(4)]
    by (auto simp: descending_append close_range_def split: list.splits)
qed

lemma excludeRange_descending:
  assumes "descending (m_exclude ex)" and "excludeRange ex from to = Inr ex'"
  shows "descending (m_exclude ex')"
proof -
  have lt: "from < to" using assms(2) by (auto simp: excludeRange_def not_le split: if_splits)
  from assms(1) lt obtain h mid t where s: "m_exclude ex = h @ mid @ t" "\<forall>e\<in>set h. to < fst e"
      "\<forall>e\<in>set mid. from < fst e \<and> fst e \<le> to" "\<forall>e\<in>set t. fst e \<le> from"
    by (rule split_range)
  have "ex' = \<lparr> m_exclude = h @ close_range to mid @ open_tail from t \<rparr>"
    using excludeRange_split [of h mid t to "from"] assms s lt exclude_eq [OF s(1)] by simp
  then show ?thesis using descending_close_range [of h mid t] assms s lt by simp
qed

lemma excludeAfter_descending:
  assumes "descending (m_exclude ex)"
  shows "descending (m_exclude (excludeAfter ex from))"
proof -
  from assms obtain h t where s: "m_exclude ex = h @ t" "\<forall>e\<in>set h. from < fst e"
      "\<forall>e\<in>set t. fst e \<le> from" "descending h" "descending t"
    by (rule split_at)
  show ?thesis unfolding exclude_eq [OF s(1)]
    using excludeAfter_split [of h t "from"] assms s descending_open_tail [OF s(5,3)] by simp
qed

lemma excludeOne_descending:
  assumes "descending (m_exclude ex)"
  shows "descending (m_exclude (excludeOne ex c))"
proof (cases "isExcluded ex c")
  case False
  from assms obtain h t where s: "m_exclude ex = h @ t" "\<forall>e\<in>set h. c < fst e"
      "\<forall>e\<in>set t. fst e \<le> c"
    by (rule split_at)
  note ex = exclude_eq [OF s(1)]
  note o = excludeOne_split [OF assms [unfolded s(1)] s(2,3) False [unfolded ex]]
  show ?thesis unfolding ex o(1) using o(2) s assms by (auto simp: descending_append)
qed (use assms in \<open>simp add: excludeOne_def\<close>)

text \<open>The cases of \<open>excludeRange\<close>: below the range, inside it, above it.\<close>

lemma range_spec:
  assumes dm: "descending (h @ mid @ t)" and h: "\<forall>e\<in>set h. to < fst e"
    and m: "\<forall>e\<in>set mid. from < fst e \<and> fst e \<le> to" and t: "\<forall>e\<in>set t. fst e \<le> from"
    and lt: "from < to"
  shows "isExcluded \<lparr> m_exclude = h @ close_range to mid @ open_tail from t \<rparr> c \<longleftrightarrow>
    from \<le> c \<and> c \<le> to \<or>
    isExcluded \<lparr> m_exclude = h @ mid @ t \<rparr> c \<and> \<not> reopened \<lparr> m_exclude = h @ mid @ t \<rparr> from to c"
proof -
  let ?F = "open_tail from t"
  note d' = descending_close_range [OF dm h m t lt]
  have dt: "descending t" and dmid: "descending mid" using dm by (auto simp: descending_append)
  have lo: "governing x (h @ y) = governing x y" if "x \<le> to" for x y
    using h that by (intro governing_append) (meson le_less_trans)
  have mlo: "governing x (mid @ y) = governing x y" if "x \<le> from" for x y
    using m that by (intro governing_append) (meson le_less_trans)
  have F: "governing x ?F = Some (hd ?F)" if "from \<le> x" for x
    using governing_open_tail_above [OF t that] .
  have hF: "snd (hd ?F)" using open_tail_hd [OF t] by simp
  consider (lo) "c < from" | (mid) "from \<le> c" "c \<le> to" | (up) "to < c" by fastforce
  then show ?thesis
  proof cases
    case lo
    have "\<forall>e\<in>set (close_range to mid). c < fst e"
      using lo lt by (auto simp: close_range_def split: list.splits if_splits)
    then have "governing c (h @ close_range to mid @ ?F) = governing c ?F"
      using lo lt by (simp add: \<open>\<And>y x. x \<le> to \<Longrightarrow> governing x (h @ y) = governing x y\<close> governing_append)
    moreover have "governing c (h @ mid @ t) = governing c t"
      using lo lt mlo [of c] assms by (simp add: \<open>\<And>y x. x \<le> to \<Longrightarrow> governing x (h @ y) = governing x y\<close>)
    moreover note excl_open_tail_below [OF dt t lo]
    ultimately show ?thesis
      using lo lt unfolding isExcluded_governing [OF d'] isExcluded_governing [OF dm]
        isExcluded_governing [OF dt] isExcluded_governing [OF descending_open_tail [OF dt t]]
      by (auto simp: reopened_def)
  next
    case mid
    have "governing c (close_range to mid @ ?F) = Some (hd ?F) \<or> c = to"
      using F [OF mid(1)] mid(2) by (auto simp: close_range_def split: list.splits)
    then show ?thesis
      using mid lo [OF mid(2)] hF F [OF mid(1)] unfolding isExcluded_governing [OF d']
      by (auto simp: close_range_def split: list.splits)
  next
    case up
    have all: "\<forall>e\<in>set (mid @ t). fst e \<le> to" using m t lt by auto
    have g: "governing x (mid @ t) = (case mid @ t of [] \<Rightarrow> None | e # _ \<Rightarrow> Some e)" if "to \<le> x" for x
      using all that by (intro governing_all_le) (meson order_trans)
    show ?thesis
    proof (cases "governing c h")
      case (Some e)
      then have "governing c (h @ y) = Some e" for y by (rule governing_in_front)
      moreover have "to < fst e" using Some h governing_le by blast
      then have "governing to (h @ mid @ t) \<noteq> Some e" using governing_le leD by metis
      ultimately show ?thesis
        using up unfolding isExcluded_governing [OF d'] isExcluded_governing [OF dm]
        by (auto simp: reopened_def)
    next
      case None
      then have gc: "governing c (h @ y) = governing c y" for y by (rule governing_None_append)
      have G: "governing c (h @ mid @ t) = (case mid @ t of [] \<Rightarrow> None | e # _ \<Rightarrow> Some e)"
        "governing to (h @ mid @ t) = (case mid @ t of [] \<Rightarrow> None | e # _ \<Rightarrow> Some e)"
        "governing from (h @ mid @ t) = (case t of [] \<Rightarrow> None | e # _ \<Rightarrow> Some e)"
        using gc g up lo mlo governing_all_le [OF t] lt by simp_all
      have C: "governing c (h @ close_range to mid @ ?F) = Some (hd (close_range to mid @ ?F))"
        unfolding gc using F [of c] up lt by (auto simp: close_range_def split: list.split)
      show ?thesis
        unfolding isExcluded_governing [OF d'] isExcluded_governing [OF dm] reopened_def
          exclude.select_convs G C
        using up lt m t hF by (cases mid; cases t) (auto simp: close_range_def)
    qed
  qed
qed

text \<open>The filters that a client can build.\<close>

inductive built_exclude :: "exclude \<Rightarrow> bool" where
  built_empty: "built_exclude exclude_empty"
| built_one: "built_exclude ex \<Longrightarrow> built_exclude (excludeOne ex c)"
| built_range: "built_exclude ex \<Longrightarrow> excludeRange ex from to = Inr ex' \<Longrightarrow> built_exclude ex'"
| built_before: "built_exclude ex \<Longrightarrow> excludeBefore ex to = Inr ex' \<Longrightarrow> built_exclude ex'"
| built_after: "built_exclude ex \<Longrightarrow> built_exclude (excludeAfter ex from)"

text \<open>Every filter built by the public operations keeps its nodes strictly
  descending, the order that \<open>lower_bound\<close> searches in.\<close>

theorem built_exclude_descending: "built_exclude ex \<Longrightarrow> descending (m_exclude ex)"
  by (induction rule: built_exclude.induct)
    (auto simp: exclude_empty_def excludeBefore_def
      intro: excludeOne_descending excludeAfter_descending excludeRange_descending)

theorem built_exclude_descending_witness:
  "descending (m_exclude (excludeAfter (excludeOne exclude_empty (Component [1])) (Component [2])))"
  by (intro built_exclude_descending built_after built_one built_empty)

text \<open>Property C37.  \<open>excludeOne\<close> adds exactly the given component to the excluded set.\<close>

theorem excludeOne_semantics:
  assumes "descending (m_exclude ex)"
  shows "isExcluded (excludeOne ex c) d \<longleftrightarrow> d = c \<or> isExcluded ex d"
proof (cases "isExcluded ex c")
  case False
  from assms obtain h t where s: "m_exclude ex = h @ t" "\<forall>e\<in>set h. c < fst e"
      "\<forall>e\<in>set t. fst e \<le> c"
    by (rule split_at)
  note ex = exclude_eq [OF s(1)]
  note o = excludeOne_split [OF assms [unfolded s(1)] s(2,3) False [unfolded ex]]
  have d: "descending (h @ (c, False) # t)"
    using excludeOne_descending [OF assms, of c] o(1) ex by simp
  have n: "case governing c t of None \<Rightarrow> True | Some e \<Rightarrow> \<not> snd e \<and> fst e \<noteq> c"
    using False [unfolded ex isExcluded_governing [OF assms [unfolded s(1)]]] governing_append [OF s(2)]
    by (auto split: option.splits)
  have up: "governing d t = governing c t" if "c \<le> d"
    using that s(3) by (subst (1 2) governing_all_le) (auto intro: order_trans)
  show ?thesis
    unfolding ex o(1) isExcluded_governing [OF d] isExcluded_governing [OF assms [unfolded s(1)]]
  proof (cases "d \<le> c")
    case True
    then have "\<forall>e\<in>set h. d < fst e" using s(2) by (meson le_less_trans)
    then show "(case governing d (h @ (c, False) # t) of None \<Rightarrow> False | Some e \<Rightarrow> snd e \<or> fst e = d) =
        (d = c \<or> (case governing d (h @ t) of None \<Rightarrow> False | Some e \<Rightarrow> snd e \<or> fst e = d))"
      using True by (auto simp: governing_append)
  next
    case F: False
    then show "(case governing d (h @ (c, False) # t) of None \<Rightarrow> False | Some e \<Rightarrow> snd e \<or> fst e = d) =
        (d = c \<or> (case governing d (h @ t) of None \<Rightarrow> False | Some e \<Rightarrow> snd e \<or> fst e = d))"
      using n up o(2) governing_le [of d t] s(3)
      by (cases "governing d h")
        (auto simp: governing_in_front governing_None_append split: option.splits)
  qed
qed (auto simp: excludeOne_def)

theorem excludeOne_semantics_witness:
  "isExcluded (excludeOne \<lparr> m_exclude = [(Component [3], True), (Component [1], False)] \<rparr> (Component [2])) (Component [2])"
  using excludeOne_semantics [of "\<lparr> m_exclude = [(Component [3], True), (Component [1], False)] \<rparr>"]
  by (simp add: component_eval)

text \<open>\<open>excludeAfter\<close> adds exactly the components from \<open>from\<close> upwards.\<close>

theorem excludeAfter_semantics:
  assumes "descending (m_exclude ex)"
  shows "isExcluded (excludeAfter ex from) d \<longleftrightarrow> from \<le> d \<or> isExcluded ex d"
proof -
  from assms obtain h t where s: "m_exclude ex = h @ t" "\<forall>e\<in>set h. from < fst e"
      "\<forall>e\<in>set t. fst e \<le> from" "descending h" "descending t"
    by (rule split_at)
  note ex = exclude_eq [OF s(1)]
  note a = excludeAfter_split [OF assms [unfolded s(1)] s(2,3)]
  show ?thesis
  proof (cases "from \<le> d")
    case True
    then show ?thesis unfolding ex a isExcluded_governing [OF descending_open_tail [OF s(5,3)]]
      using governing_open_tail_above [OF s(3) True] open_tail_hd [OF s(3)] by simp
  next
    case False
    then have "\<forall>e\<in>set h. d < fst e" using s(2) by (meson less_trans not_le)
    then show ?thesis
      using False excl_open_tail_below [OF s(5,3), of d] assms s(1,5) unfolding ex a
      by (simp add: isExcluded_governing governing_append)
  qed
qed

theorem excludeAfter_semantics_witness:
  "isExcluded (excludeAfter \<lparr> m_exclude = [(Component [3], False), (Component [1], False)] \<rparr> (Component [2])) (Component [9])"
  using excludeAfter_semantics [of "\<lparr> m_exclude = [(Component [3], False), (Component [1], False)] \<rparr>"]
  by (simp add: component_eval)

text \<open>Property C38.  \<open>excludeRange\<close> succeeds on every proper range and then excludes exactly
  the components of the range and those excluded before, less the ones behind \<open>to\<close> that
  it un-excludes when a single ANY node already covers both ends.\<close>

theorem excludeRange_semantics:
  assumes d: "descending (m_exclude ex)" and lt: "from < to"
  shows "\<exists>ex'. excludeRange ex from to = Inr ex' \<and>
    (\<forall>c. isExcluded ex' c \<longleftrightarrow>
       from \<le> c \<and> c \<le> to \<or> isExcluded ex c \<and> \<not> reopened ex from to c)"
proof -
  from d lt obtain h mid t where s: "m_exclude ex = h @ mid @ t" "\<forall>e\<in>set h. to < fst e"
      "\<forall>e\<in>set mid. from < fst e \<and> fst e \<le> to" "\<forall>e\<in>set t. fst e \<le> from"
      "descending h" "descending mid" "descending t"
    by (rule split_range)
  note ex = exclude_eq [OF s(1)]
  note dm = d [unfolded s(1)]
  show ?thesis
    unfolding ex excludeRange_split [OF dm s(2,3,4) lt]
    using range_spec [OF dm s(2,3,4) lt] by simp
qed

theorem excludeRange_semantics_witness:
  "\<exists>ex'. excludeRange \<lparr> m_exclude = [(Component [3], False)] \<rparr> (Component [2]) (Component [4]) = Inr ex' \<and>
     isExcluded ex' (Component [3])"
proof -
  have "descending (m_exclude \<lparr> m_exclude = [(Component [3], False)] \<rparr>)" "Component [2] < Component [4]"
    "Component [2] \<le> Component [3]" "Component [3] \<le> Component [4]"
    by (simp_all add: component_eval)
  then show ?thesis using excludeRange_semantics by metis
qed

text \<open>
  The un-excluding case is real: after \<open>excludeAfter (1)\<close> the component 9 is excluded, and
  \<open>excludeRange (2, 3)\<close>, whose range lies inside the excluded one, makes it acceptable.
\<close>

lemma excludeRange_reopens:
  "isExcluded (excludeAfter exclude_empty (Component [1])) (Component [9])"
  "\<exists>ex'. excludeRange (excludeAfter exclude_empty (Component [1])) (Component [2]) (Component [3]) = Inr ex' \<and>
     \<not> isExcluded ex' (Component [9])"
  by (simp_all add: exclude_empty_def excludeAfter_def excludeRange_def open_range_def isExcluded_def
      map_lower_bound_def map_insert_def map_begin_def map_next_def map_erase_def Let_def component_eval)

lemma excludeRange_invalid: "to \<le> from \<Longrightarrow> excludeRange ex from to = Inl ErrExclude"
  by (simp add: excludeRange_def)

end
