(* ===== verification/Ndn_Name.thy ===== *)
theory Ndn_Name
  imports Name_Component
begin

text \<open>
  \<open>ndn.cxx/fields/name.{h,cc}\<close>: a name is a vector of components.  \<open>size_t\<close> arguments
  are 64-bit words and \<open>int\<close> indices 32-bit words, so the wrap-around of the index
  arithmetic is the one of the code.  The clock read by \<open>appendVersion\<close> is a parameter.
\<close>

section \<open>Names and the append family\<close>

datatype name = Name (comps: "component list")

definition name_size :: "name \<Rightarrow> nat" where
  "name_size n = length (comps n)"

definition npos :: uint64 where
  "npos = -1"

definition nversion :: uint64 where
  "nversion = -1"

definition append_component :: "name \<Rightarrow> component \<Rightarrow> name" where
  "append_component n c = (if component_size c \<noteq> 0 then Name (comps n @ [c]) else n)"

text \<open>\<open>appendBySwap\<close> also empties its argument, which is returned second.\<close>

definition appendBySwap :: "name \<Rightarrow> component \<Rightarrow> name \<times> component" where
  "appendBySwap n c =
     (if component_size c \<noteq> 0 then (Name (comps n @ [c]), Component []) else (n, c))"

definition append_range :: "name \<Rightarrow> component list \<Rightarrow> name" where
  "append_range n cs = foldl append_component n cs"

definition append_name :: "name \<Rightarrow> name \<Rightarrow> name" where
  "append_name n m = append_range n (comps m)"

definition append_string :: "name \<Rightarrow> string \<Rightarrow> name result" where
  "append_string n compStr =
     bindE (component_of_uri compStr) (\<lambda>c. Inr (fst (appendBySwap n c)))"

definition append_blob :: "name \<Rightarrow> blob \<Rightarrow> name" where
  "append_blob n buf = fst (appendBySwap n (component_of_blob buf))"

definition appendNumber :: "name \<Rightarrow> uint64 \<Rightarrow> name" where
  "appendNumber n number = fst (appendBySwap n (fromNumber number))"

definition appendNumberWithMarker :: "name \<Rightarrow> uint64 \<Rightarrow> byte \<Rightarrow> name" where
  "appendNumberWithMarker n number marker =
     fst (appendBySwap n (fromNumberWithMarker number marker))"

definition appendSeqNum :: "name \<Rightarrow> uint64 \<Rightarrow> name" where
  "appendSeqNum n seqno = appendNumberWithMarker n seqno 0x00"

definition appendControlNum :: "name \<Rightarrow> uint64 \<Rightarrow> name" where
  "appendControlNum n control = appendNumberWithMarker n control 0xC1"

definition appendBlkId :: "name \<Rightarrow> uint64 \<Rightarrow> name" where
  "appendBlkId n blkid = appendNumberWithMarker n blkid 0xFB"

definition appendVersion :: "uint64 \<Rightarrow> uint64 \<Rightarrow> name \<Rightarrow> uint64 \<Rightarrow> name" where
  "appendVersion now_seconds now_fraction n version =
     (if version \<noteq> nversion then appendNumberWithMarker n version 0xFD
      else appendNumberWithMarker n
        (push_bit 12 now_seconds OR (0xFFF AND (now_fraction div 244))) 0xFD)"

definition name_plus :: "name \<Rightarrow> name \<Rightarrow> name" where
  "name_plus n m = append_name (append_name (Name []) n) m"

section \<open>URIs\<close>

definition to_lower :: "char \<Rightarrow> char" where
  "to_lower c = (let k = of_char c :: nat in if 65 \<le> k \<and> k \<le> 90 then char_of (k + 32) else c)"

definition iequals :: "string \<Rightarrow> string \<Rightarrow> bool" where
  "iequals s t \<longleftrightarrow> map to_lower s = map to_lower t"

text \<open>The component loop at the end of the URI constructor.\<close>

function parse_components :: "name \<Rightarrow> string \<Rightarrow> name result" where
  "parse_components n s =
     (let i = dropWhile (\<lambda>c. c = CHR ''/'') s in
      if i = [] then Inr n
      else bindE (component_of_uri (takeWhile (\<lambda>c. c \<noteq> CHR ''/'') i))
        (\<lambda>c. parse_components (append_component n c) (dropWhile (\<lambda>c. c \<noteq> CHR ''/'') i)))"
  by pat_completeness auto
termination
proof (relation "measure (\<lambda>(n, s). length s)", goal_cases)
  case (2 n s i c)
  from 2(2) obtain a as where i: "i = a # as" by (cases i) auto
  have a: "a \<noteq> CHR ''/''"
    using 2(1) i by (simp add: dropWhile_eq_Cons_conv eq_commute [of "a # as"])
  have "length (dropWhile (\<lambda>c. c \<noteq> CHR ''/'') i) \<le> length as"
    using a by (simp add: i length_dropWhile_le)
  also have "\<dots> < length i" by (simp add: i)
  also have "\<dots> \<le> length s" using 2(1) by (simp add: length_dropWhile_le)
  finally show ?case by simp
qed simp

declare parse_components.simps [simp del]

definition name_of_uri :: "string \<Rightarrow> name result" where
  "name_of_uri uri =
     (let schema = takeWhile (\<lambda>c. c \<noteq> CHR ''/'') uri;
          i = dropWhile (\<lambda>c. c \<noteq> CHR ''/'') uri
      in if i = [] then Inl ErrName
         else if schema \<noteq> [] \<and> last schema \<noteq> CHR '':'' then Inl ErrName
         else if schema \<noteq> [] \<and> \<not> iequals schema ''ndn:'' then Inl ErrName
         else
           (let j = (case tl i of
                       c # rest \<Rightarrow> if c = CHR ''/'' then dropWhile (\<lambda>c. c \<noteq> CHR ''/'') rest else i
                     | [] \<Rightarrow> i)
            in if j = [] then Inl ErrName else parse_components (Name []) j))"

definition name_toUri :: "name \<Rightarrow> string" where
  "name_toUri n = concat (map (\<lambda>c. CHR ''/'' # component_toUri c) (comps n)) @
     (if name_size n = 0 then ''/'' else [])"

section \<open>Component access and sub-names\<close>

definition name_get :: "name \<Rightarrow> 32 word \<Rightarrow> component result" where
  "name_get n index =
     (let index' = (if sint index < 0
                    then ucast (of_nat (name_size n) - scast (- index) :: uint64)
                    else index)
      in if name_size n \<le> unat index' then Inl ErrName else Inr (comps n ! unat index'))"

fun sub_name_loop :: "name \<Rightarrow> name \<Rightarrow> nat list \<Rightarrow> name result" where
  "sub_name_loop n retval [] = Inr retval"
| "sub_name_loop n retval (i # is) =
     bindE (name_get n (of_nat i)) (\<lambda>c. sub_name_loop n (append_component retval c) is)"

definition getSubName :: "name \<Rightarrow> uint64 \<Rightarrow> uint64 \<Rightarrow> name result" where
  "getSubName n pos len =
     (let len' = (if len = npos then of_nat (name_size n) - pos else len)
      in if of_nat (name_size n) < pos + len' then Inl ErrName
         else sub_name_loop n (Name []) [unat pos ..< unat (pos + len')])"

definition getPrefix :: "name \<Rightarrow> uint64 \<Rightarrow> uint64 \<Rightarrow> name result" where
  "getPrefix n len skip = getSubName n skip len"

definition getPostfix :: "name \<Rightarrow> uint64 \<Rightarrow> uint64 \<Rightarrow> name result" where
  "getPostfix n len skip = getSubName n (of_nat (name_size n) - len - skip) len"

section \<open>Comparison\<close>

fun compare_components :: "component list \<Rightarrow> component list \<Rightarrow> int" where
  "compare_components (c # cs) (d # ds) =
     (let res = component_compare c d in if res = 0 then compare_components cs ds else res)"
| "compare_components [] [] = 0"
| "compare_components [] (_ # _) = -1"
| "compare_components (_ # _) [] = 1"

definition name_compare :: "name \<Rightarrow> name \<Rightarrow> int" where
  "name_compare n m = compare_components (comps n) (comps m)"

lemma compare_components_eq: "compare_components cs ds = 0 \<longleftrightarrow> cs = ds"
  by (induction cs ds rule: compare_components.induct)
     (auto simp: Let_def comp_cmp.cmp_eq)

lemma compare_components_flip: "compare_components cs ds < 0 \<longleftrightarrow> 0 < compare_components ds cs"
proof (induction cs ds rule: compare_components.induct)
  case (1 c cs d ds)
  then show ?case
    using comp_cmp.cmp_flip [of c d] comp_cmp.cmp_eq [of c d] comp_cmp.cmp_eq [of d c]
    by (auto simp: Let_def)
qed auto

lemma compare_components_trans:
  "compare_components cs ds < 0 \<Longrightarrow> compare_components ds es < 0 \<Longrightarrow> compare_components cs es < 0"
proof (induction cs ds arbitrary: es rule: compare_components.induct)
  case (1 c cs d ds)
  then obtain e es' where es: "es = e # es'" by (cases es) auto
  show ?case
    using 1 comp_cmp.cmp_trans [of c d e]
    by (auto simp: es Let_def comp_cmp.cmp_eq comp_cmp.cmp_refl split: if_splits)
next
  case (3 d ds)
  then show ?case by (cases es) auto
qed auto

interpretation name_cmp: three_way name_compare
proof
  fix n m k :: name
  show "(name_compare n m = 0) = (n = m)"
    by (cases n; cases m) (simp add: name_compare_def compare_components_eq)
  show "(name_compare n m < 0) = (0 < name_compare m n)"
    by (simp add: name_compare_def compare_components_flip)
  show "name_compare n m < 0 \<Longrightarrow> name_compare m k < 0 \<Longrightarrow> name_compare n k < 0"
    unfolding name_compare_def by (rule compare_components_trans)
qed

definition name_le :: "name \<Rightarrow> name \<Rightarrow> bool" where
  "name_le n m \<longleftrightarrow> name_compare n m \<le> 0"

definition name_lt :: "name \<Rightarrow> name \<Rightarrow> bool" where
  "name_lt n m \<longleftrightarrow> name_compare n m < 0"

instantiation name :: linorder
begin

definition less_eq_name :: "name \<Rightarrow> name \<Rightarrow> bool" where
  "less_eq_name = name_le"

definition less_name :: "name \<Rightarrow> name \<Rightarrow> bool" where
  "less_name = name_lt"

instance
proof
  fix x y z :: name
  show "(x < y) = (x \<le> y \<and> \<not> y \<le> x)"
    unfolding less_name_def name_lt_def less_eq_name_def name_le_def by (rule name_cmp.cmp_less_le_not)
  show "x \<le> x"
    unfolding less_eq_name_def name_le_def by (simp add: name_cmp.cmp_refl)
  show "x \<le> y \<Longrightarrow> y \<le> z \<Longrightarrow> x \<le> z"
    unfolding less_eq_name_def name_le_def by (rule name_cmp.cmp_le_trans)
  show "x \<le> y \<Longrightarrow> y \<le> x \<Longrightarrow> x = y"
    unfolding less_eq_name_def name_le_def by (rule name_cmp.cmp_antisym)
  show "x \<le> y \<or> y \<le> x"
    unfolding less_eq_name_def name_le_def by (rule name_cmp.cmp_linear)
qed

end

section \<open>No empty components\<close>

definition name_wf :: "name \<Rightarrow> bool" where
  "name_wf n \<longleftrightarrow> (\<forall>c \<in> set (comps n). bytes c \<noteq> [])"

lemma component_size_0 [simp]: "component_size c = 0 \<longleftrightarrow> bytes c = []"
  by (simp add: component_size_def)

lemma name_wf_empty [simp]: "name_wf (Name [])"
  by (simp add: name_wf_def)

lemma name_wf_append_component [simp]: "name_wf n \<Longrightarrow> name_wf (append_component n c)"
  by (auto simp: name_wf_def append_component_def)

lemma name_wf_appendBySwap [simp]: "name_wf n \<Longrightarrow> name_wf (fst (appendBySwap n c))"
  by (auto simp: name_wf_def appendBySwap_def)

lemma name_wf_append_range [simp]: "name_wf n \<Longrightarrow> name_wf (append_range n cs)"
  unfolding append_range_def by (induction cs arbitrary: n) simp_all

lemma name_wf_append_name [simp]: "name_wf n \<Longrightarrow> name_wf (append_name n m)"
  by (simp add: append_name_def)

lemma parse_components_Nil [simp]: "parse_components n [] = Inr n"
  by (simp add: parse_components.simps)

lemma parse_components_slash [simp]:
  "parse_components n (CHR ''/'' # s) = parse_components n s"
  by (simp add: parse_components.simps [of n "CHR ''/'' # s"] parse_components.simps [of n s])

lemma parse_components_comp:
  assumes "t \<noteq> []" "CHR ''/'' \<notin> set t" "s = [] \<or> hd s = CHR ''/''"
  shows "parse_components n (t @ s) =
    bindE (component_of_uri t) (\<lambda>c. parse_components (append_component n c) s)"
proof -
  obtain a as where t: "t = a # as" and a: "a \<noteq> CHR ''/''"
    using assms(1,2) by (cases t) auto
  have tk: "takeWhile (\<lambda>c. c \<noteq> CHR ''/'') (t @ s) = t"
    and dr: "dropWhile (\<lambda>c. c \<noteq> CHR ''/'') (t @ s) = s"
    using assms(2,3) by (cases s; force simp: takeWhile_append dropWhile_append)+
  show ?thesis
    using a tk dr by (subst parse_components.simps) (simp add: t Let_def)
qed

lemma name_wf_parse_components:
  "name_wf n \<Longrightarrow> parse_components n s = Inr m \<Longrightarrow> name_wf m"
proof (induction n s rule: parse_components.induct)
  case (1 n s)
  let ?i = "dropWhile (\<lambda>c. c = CHR ''/'') s"
  show ?case
  proof (cases "?i = []")
    case True
    with 1(2,3) show ?thesis by (simp add: parse_components.simps [of n s])
  next
    case False
    have "bindE (component_of_uri (takeWhile (\<lambda>c. c \<noteq> CHR ''/'') ?i))
        (\<lambda>c. parse_components (append_component n c) (dropWhile (\<lambda>c. c \<noteq> CHR ''/'') ?i)) = Inr m"
      using 1(3) False by (simp only: parse_components.simps [of n s] Let_def if_False)
    then obtain c where c: "component_of_uri (takeWhile (\<lambda>c. c \<noteq> CHR ''/'') ?i) = Inr c"
      and r: "parse_components (append_component n c) (dropWhile (\<lambda>c. c \<noteq> CHR ''/'') ?i) = Inr m"
      by (auto simp: ndn_simps)
    show ?thesis
      by (rule 1(1) [OF refl False c _ r]) (simp add: 1(2))
  qed
qed

lemma name_wf_of_uri: "name_of_uri s = Inr n \<Longrightarrow> name_wf n"
  by (auto simp: name_of_uri_def Let_def split: if_splits dest: name_wf_parse_components [rotated])

lemma name_wf_sub_name_loop: "name_wf r \<Longrightarrow> sub_name_loop n r is = Inr m \<Longrightarrow> name_wf m"
proof (induction "is" arbitrary: r)
  case (Cons i "is")
  then obtain c where "sub_name_loop n (append_component r c) is = Inr m"
    by (auto simp: ndn_simps)
  then show ?case using Cons.IH [of "append_component r c"] Cons.prems(1) by simp
qed simp

lemma name_wf_getSubName: "getSubName n pos len = Inr m \<Longrightarrow> name_wf m"
  by (auto simp: getSubName_def Let_def split: if_splits intro: name_wf_sub_name_loop [rotated])

text \<open>
  The names a client can build with the public interface.  \<open>assign\<close> is a write through the non-const
  \<open>get\<close>, \<open>operator[]\<close> or an iterator, of a component that is not empty.
\<close>

inductive built_name :: "name \<Rightarrow> bool" where
  empty: "built_name (Name [])"
| of_uri: "name_of_uri s = Inr n \<Longrightarrow> built_name n"
| of_range: "built_name (append_range (Name []) cs)"
| comp: "built_name n \<Longrightarrow> built_name (append_component n c)"
| swap: "built_name n \<Longrightarrow> built_name (fst (appendBySwap n c))"
| range: "built_name n \<Longrightarrow> built_name (append_range n cs)"
| name: "built_name n \<Longrightarrow> built_name m \<Longrightarrow> built_name (append_name n m)"
| str: "built_name n \<Longrightarrow> append_string n s = Inr m \<Longrightarrow> built_name m"
| blob: "built_name n \<Longrightarrow> built_name (append_blob n b)"
| number: "built_name n \<Longrightarrow> built_name (appendNumber n k)"
| marker: "built_name n \<Longrightarrow> built_name (appendNumberWithMarker n k b)"
| version: "built_name n \<Longrightarrow> built_name (appendVersion t f n k)"
| sub: "built_name n \<Longrightarrow> getSubName n pos len = Inr m \<Longrightarrow> built_name m"
| plus: "built_name n \<Longrightarrow> built_name m \<Longrightarrow> built_name (name_plus n m)"
| assign: "built_name n \<Longrightarrow> i < name_size n \<Longrightarrow> component_size c \<noteq> 0 \<Longrightarrow> built_name (Name ((comps n)[i := c]))"

lemma zero_appends_nothing: "appendNumber n 0 = n" "append_blob n [] = n"
proof -
  have "number_bytes 0 = []" by (subst number_bytes.simps) simp
  then show "appendNumber n 0 = n" by (simp add: appendNumber_def fromNumber_def appendBySwap_def component_size_def)
qed (simp add: append_blob_def component_of_blob_def appendBySwap_def component_size_def)

lemma name_wf_assign: "name_wf n \<Longrightarrow> component_size c \<noteq> 0 \<Longrightarrow> name_wf (Name ((comps n)[i := c]))"
  by (auto simp: name_wf_def component_size_def dest!: set_update_subset_insert [THEN subsetD])

text \<open>Property C40. A name has no empty component: URI parsing, every append, sub-names and concatenation
  never create one, whatever their arguments, and so the only way to an empty component is a client that writes
  one through the non-const accessors.  In particular, an append of the number 0 or of an empty blob adds nothing.\<close>

theorem built_name_wf: "built_name n \<Longrightarrow> name_wf n \<and> appendNumber n 0 = n \<and> append_blob n [] = n"
proof -
  assume "built_name n"
  then have "name_wf n"
    by (induction rule: built_name.induct)
     (auto simp: append_string_def append_blob_def appendNumber_def appendNumberWithMarker_def
        appendVersion_def name_plus_def ndn_simps name_wf_of_uri name_wf_getSubName name_wf_assign)
  then show ?thesis by (simp add: zero_appends_nothing)
qed

theorem built_name_wf_witness:
  "name_wf (appendSeqNum (append_blob (Name []) [1, 2]) 0) \<and>
    appendNumber (appendSeqNum (append_blob (Name []) [1, 2]) 0) 0 = appendSeqNum (append_blob (Name []) [1, 2]) 0"
proof -
  have "built_name (appendSeqNum (append_blob (Name []) [1, 2]) 0)"
    unfolding appendSeqNum_def by (rule built_name.marker, rule built_name.blob, rule built_name.empty)
  from built_name_wf [OF this] show ?thesis by blast
qed

section \<open>The URI round trip\<close>

lemma hex_from_4_bit_not_slash: "unat d < 16 \<Longrightarrow> hex_from_4_bit d \<noteq> CHR ''/''"
  using hex_digit_decodes [of d] by (auto simp: hex_to_4_bit_def)

lemma slash_in_escape_byte: "CHR ''/'' \<in> set (escape_byte b) \<longleftrightarrow> b = 0x2F"
proof -
  have "char_of_byte b = CHR ''/'' \<longleftrightarrow> b = byte_of_char (CHR ''/'')"
    by (metis byte_of_char_of_byte char_of_byte_of_char)
  moreover have "byte_of_char (CHR ''/'') = 0x2F" by (simp add: byte_of_char_def)
  moreover have "\<not> must_escape 0x2F" by (simp add: must_escape_iff)
  ultimately show ?thesis
    using hex_from_4_bit_not_slash [of "b AND 15"] hex_from_4_bit_not_slash [of "drop_bit 4 b AND 15"]
      nibble_less [of b] nibble_less [of "drop_bit 4 b"]
    by (auto simp: escape_byte_def)
qed

lemma slash_in_toEscaped: "CHR ''/'' \<in> set (toEscaped bs) \<longleftrightarrow> 0x2F \<in> set bs"
  by (induction bs) (auto simp: slash_in_escape_byte)

lemma toEscaped_eq_Nil [simp]: "toEscaped bs = [] \<longleftrightarrow> bs = []"
  by (cases bs) (simp_all add: escape_byte_def)

definition no_slash :: "name \<Rightarrow> bool" where
  "no_slash n \<longleftrightarrow> (\<forall>c \<in> set (comps n). 0x2F \<notin> set (bytes c))"

definition slash_uris :: "component list \<Rightarrow> string" where
  "slash_uris cs = concat (map (\<lambda>c. CHR ''/'' # component_toUri c) cs)"

lemma parse_components_slash_uris:
  assumes "\<forall>c \<in> set cs. bytes c \<noteq> [] \<and> 0x2F \<notin> set (bytes c)"
  shows "parse_components n (slash_uris cs) = Inr (Name (comps n @ cs))"
  using assms
proof (induction cs arbitrary: n)
  case Nil
  then show ?case by (cases n) (simp add: slash_uris_def)
next
  case (Cons c cs)
  have "parse_components n (component_toUri c @ slash_uris cs) =
      bindE (component_of_uri (component_toUri c))
        (\<lambda>c. parse_components (append_component n c) (slash_uris cs))"
  proof (rule parse_components_comp)
    show "slash_uris cs = [] \<or> hd (slash_uris cs) = CHR ''/''"
      by (cases cs) (simp_all add: slash_uris_def)
  qed (use Cons.prems in \<open>simp_all add: component_toUri_def slash_in_toEscaped\<close>)
  also have "\<dots> = parse_components (append_component n c) (slash_uris cs)"
    using fromEscaped_toEscaped_append [of "bytes c" "[]"]
    by (simp add: component_of_uri_def component_toUri_def)
  finally show ?case
    using Cons by (simp add: append_component_def slash_uris_def)
qed

lemma name_uri_back:
  assumes "name_wf n" and "no_slash n"
  shows "name_of_uri (name_toUri n) = Inr n"
proof (cases "comps n")
  case Nil
  then show ?thesis
    by (cases n) (simp add: name_of_uri_def name_toUri_def name_size_def)
next
  case (Cons c cs)
  have u: "name_toUri n = CHR ''/'' # component_toUri c @ slash_uris cs"
    by (simp add: name_toUri_def Cons slash_uris_def name_size_def)
  have c: "component_toUri c \<noteq> []" "hd (component_toUri c) \<noteq> CHR ''/''"
    using assms slash_in_toEscaped [of "bytes c"]
    by (auto simp: name_wf_def no_slash_def Cons component_toUri_def)
       (metis list.set_sel(1) toEscaped_eq_Nil)
  then obtain a as where a: "component_toUri c = a # as" "a \<noteq> CHR ''/''"
    by (cases "component_toUri c") auto
  have "name_of_uri (name_toUri n) = parse_components (Name []) (name_toUri n)"
    by (simp add: name_of_uri_def u a)
  also have "\<dots> = parse_components (Name []) (slash_uris (comps n))"
    by (simp add: u Cons slash_uris_def)
  also have "\<dots> = Inr n"
    using assms by (cases n) (simp add: parse_components_slash_uris name_wf_def no_slash_def)
  finally show ?thesis .
qed

text \<open>Property C39. The URI of a name parses back to the same name, provided no component is empty
  and no component contains the byte of a slash (which \<open>toEscaped\<close> leaves as it is).\<close>

theorem name_of_uri_toUri:
  assumes "name_wf n" and "no_slash n"
  shows "name_of_uri (name_toUri n) = Inr n"
  using assms by (rule name_uri_back)

theorem name_of_uri_toUri_witness:
  "name_of_uri (name_toUri (Name [Component [0x61, 0x25], Component [0, 0xFF]])) =
     Inr (Name [Component [0x61, 0x25], Component [0, 0xFF]])"
  by (rule name_of_uri_toUri) (simp_all add: name_wf_def no_slash_def)

text \<open>Without the second condition the round trip fails: the slash is not escaped.\<close>

lemma slash_not_escaped:
  "name_of_uri (name_toUri (Name [Component [0x61, 0x2F, 0x62]])) =
     Inr (Name [Component [0x61], Component [0x62]])"
proof -
  have c: "char_of_byte 0x61 = CHR ''a''" "char_of_byte 0x62 = CHR ''b''" "char_of_byte 0x2F = CHR ''/''"
    using char_of_byte_of_char [of "CHR ''a''"] char_of_byte_of_char [of "CHR ''b''"]
      char_of_byte_of_char [of "CHR ''/''"]
    by (simp_all add: byte_of_char_def)
  have e: "toEscaped [0x61, 0x2F, 0x62] = ''a/b''" "toEscaped [0x61] = ''a''" "toEscaped [0x62] = ''b''"
    by (simp_all add: escape_byte_def must_escape_iff c)
  have "slash_uris [Component [0x61], Component [0x62]] = ''/a/b''"
    by (simp add: slash_uris_def component_toUri_def e del: toEscaped.simps)
  then have "parse_components (Name []) ''/a/b'' = Inr (Name [Component [0x61], Component [0x62]])"
    using parse_components_slash_uris [of "[Component [0x61], Component [0x62]]" "Name []"] by simp
  then show ?thesis
    by (simp add: name_toUri_def name_of_uri_def component_toUri_def e name_size_def del: toEscaped.simps)
qed

section \<open>Access\<close>

lemma sint_nonneg_unat:
  assumes "0 \<le> sint (i :: uint32)"
  shows "sint i = int (unat i)"
proof -
  have "sint i < 2 ^ 31" using sint_less [of i] by simp
  then have "take_bit 32 (sint i) = sint i"
    using assms by (intro take_bit_int_eq_self) auto
  then show ?thesis using uint_sint [of i] by simp
qed

text \<open>\<open>Name::get\<close> on names of fewer than \<open>2 ^ 31\<close> components: an index counts from
  the front when it is non-negative and from the back when it is negative, and any index out
  of range throws.\<close>

theorem name_get_spec:
  assumes "name_size n < 2 ^ 31"
  shows "name_get n i =
    (let k = (if 0 \<le> sint i then sint i else int (name_size n) + sint i)
     in if 0 \<le> k \<and> k < int (name_size n) then Inr (comps n ! nat k) else Inl ErrName)"
proof (cases "0 \<le> sint i")
  case True
  then show ?thesis
    using sint_nonneg_unat [OF True]
    by (simp add: name_get_def Let_def) (metis linorder_not_le nat_less_iff uint_ge_0 nat_uint_eq zless_nat_eq_int_zless)
next
  case False
  have r: "- (2 ^ 31) \<le> sint i" using sint_greater_eq [of i] by simp
  have "unat (of_nat (name_size n) + i) = (if 0 \<le> int (name_size n) + sint i
      then nat (int (name_size n) + sint i) else nat (2 ^ 32 + int (name_size n) + sint i))"
    using False assms by (intro unat_size_plus_negative) auto
  then show ?thesis
    using False assms r
    by (auto simp: name_get_def ucast_size_minus Let_def split: if_splits)
qed

lemma name_get_of_nat:
  assumes "name_size n < 2 ^ 31" and "i < name_size n"
  shows "name_get n (of_nat i) = Inr (comps n ! i)"
proof -
  have u: "unat (of_nat i :: uint32) = i" using assms by (simp add: unat_of_nat)
  have "sint (of_nat i :: uint32) = int i"
    using assms by (simp add: signed_of_nat signed_take_bit_int_eq_self)
  then show ?thesis using assms u by (simp add: name_get_def)
qed

theorem name_get_spec_witness:
  "name_get (Name [Component [1], Component [2]]) (-1) = Inr (Component [2])"
  using name_get_spec [of "Name [Component [1], Component [2]]" "-1"]
  by (simp add: name_size_def)

lemma sub_name_loop_collects:
  assumes "name_wf n" "name_size n < 2 ^ 31" "\<forall>i \<in> set is. i < name_size n"
  shows "sub_name_loop n r is = Inr (Name (comps r @ map ((!) (comps n)) is))"
  using assms(3)
proof (induction "is" arbitrary: r)
  case Nil
  then show ?case by (cases r) simp
next
  case (Cons i "is")
  then have i: "i < name_size n" by simp
  then have "bytes (comps n ! i) \<noteq> []"
    using assms(1) by (simp add: name_wf_def name_size_def)
  then show ?case
    using Cons i assms(2) by (simp add: name_get_of_nat append_component_def)
qed

text \<open>The range check of \<open>getSubName\<close> is done in 64-bit arithmetic; inside the range it is exact.\<close>

lemma getSubName_in_range:
  assumes "name_wf n" "name_size n < 2 ^ 31" "unat pos + unat len \<le> name_size n"
  shows "getSubName n pos len = Inr (Name (take (unat len) (drop (unat pos) (comps n))))"
proof -
  have "unat len < 2 ^ 31" using assms by simp
  then have "len \<noteq> npos" by (auto simp: npos_def unsigned_minus_1_eq_mask mask_eq_exp_minus_1)
  moreover have pl: "unat (pos + len) = unat pos + unat len"
    using assms by (simp add: unat_word_ariths)
  moreover have "unat (of_nat (name_size n) :: uint64) = name_size n"
    using assms by (simp add: unat_of_nat)
  ultimately show ?thesis
    using assms sub_name_loop_collects [of n "[unat pos..<unat pos + unat len]" "Name []"]
    by (simp add: getSubName_def word_less_nat_alt map_nth_upt name_size_def)
qed

text \<open>\<open>getSubName\<close> on a range that lies inside the name returns exactly the
  components of that range, and a range that ends behind the name (without wrap-around) throws.\<close>

theorem getSubName_spec:
  assumes "name_wf n" "name_size n < 2 ^ 31" "unat pos + unat len < 2 ^ 64" "len \<noteq> npos"
  shows "getSubName n pos len =
    (if unat pos + unat len \<le> name_size n
     then Inr (Name (take (unat len) (drop (unat pos) (comps n)))) else Inl ErrName)"
proof (cases "unat pos + unat len \<le> name_size n")
  case True
  then show ?thesis using assms getSubName_in_range by simp
next
  case False
  have "unat (pos + len) = unat pos + unat len"
    using assms by (simp add: unat_word_ariths)
  moreover have "unat (of_nat (name_size n) :: uint64) = name_size n"
    using assms by (simp add: unat_of_nat)
  ultimately show ?thesis
    using False assms by (simp add: getSubName_def word_less_nat_alt)
qed

theorem getSubName_spec_witness:
  "getSubName (Name [Component [1], Component [2], Component [3]]) 1 2 =
     Inr (Name [Component [2], Component [3]])"
  using getSubName_spec [of "Name [Component [1], Component [2], Component [3]]" 1 2]
  by (simp add: name_wf_def name_size_def npos_def)

text \<open>Splitting a name into a prefix and the complementary postfix loses nothing.\<close>

theorem prefix_postfix_split:
  assumes "name_wf n" "name_size n < 2 ^ 31" "unat k \<le> name_size n"
  shows "\<exists>p q. getPrefix n k 0 = Inr p \<and> getPostfix n (of_nat (name_size n) - k) 0 = Inr q \<and>
    name_plus p q = n"
proof -
  have s: "unat (of_nat (name_size n) :: uint64) = name_size n"
    using assms by (simp add: unat_of_nat)
  have d: "unat (of_nat (name_size n) - k) = name_size n - unat k"
    using assms s by (simp add: unat_sub word_le_nat_alt)
  have app: "append_range m cs = Name (comps m @ cs)" if "\<forall>c \<in> set cs. bytes c \<noteq> []" for m cs
    using that unfolding append_range_def
    by (induction cs arbitrary: m) (simp_all add: append_component_def)
  have wf: "\<forall>c \<in> set (take (unat k) (comps n)). bytes c \<noteq> []"
    "\<forall>c \<in> set (drop (unat k) (comps n)). bytes c \<noteq> []"
    using assms(1) by (auto simp: name_wf_def dest: in_set_takeD in_set_dropD)
  have "getPrefix n k 0 = Inr (Name (take (unat k) (comps n)))"
    using getSubName_in_range [of n 0 k] assms by (simp add: getPrefix_def)
  moreover have "getPostfix n (of_nat (name_size n) - k) 0 = Inr (Name (drop (unat k) (comps n)))"
    using getSubName_in_range [of n k "of_nat (name_size n) - k"] assms d
    by (simp add: getPostfix_def name_size_def)
  ultimately show ?thesis
    using wf by (cases n) (simp add: name_plus_def append_name_def app)
qed

theorem prefix_postfix_split_witness:
  "\<exists>p q. getPrefix (Name [Component [1], Component [2]]) 1 0 = Inr p \<and>
     getPostfix (Name [Component [1], Component [2]]) (of_nat (name_size (Name [Component [1], Component [2]])) - 1) 0
       = Inr q \<and> name_plus p q = Name [Component [1], Component [2]]"
  by (rule prefix_postfix_split) (simp_all add: name_wf_def name_size_def)

text \<open>
  Outside the range the 64-bit arithmetic of the two callers wraps around and the check is
  passed: a postfix longer than the name is the empty name, not an exception, and so is a
  sub-name that starts behind the end and runs to the end of the name.
\<close>

lemma getPostfix_too_long:
  assumes "name_size n < 2 ^ 31" "name_size n < unat len" "len \<noteq> npos"
  shows "getPostfix n len 0 = Inr (Name [])"
proof -
  let ?s = "of_nat (name_size n) :: uint64"
  have s: "unat ?s = name_size n" using assms by (simp add: unat_of_nat)
  have "unat (?s - len) = 2 ^ 64 + unat ?s - unat len"
    using assms s by (simp add: unat_sub_if_size size_word.rep_eq)
  moreover have "unat len < 2 ^ 64" using unsigned_less [of len, where ?'a = nat] by simp
  ultimately have "name_size n \<le> unat (?s - len)" using s by linarith
  then show ?thesis
    using assms s by (simp add: getPostfix_def getSubName_def)
qed

lemma getSubName_from_behind:
  assumes "name_size n < 2 ^ 31" "name_size n \<le> unat pos"
  shows "getSubName n pos npos = Inr (Name [])"
  using assms by (simp add: getSubName_def unat_of_nat)

end
