(* ===== verification/Ndn_Packets.thy ===== *)
theory Ndn_Packets
  imports Exclude_Filter Ndn_Name
begin

text \<open>
  The packet classes: \<open>fields/key-locator\<close>, \<open>fields/signature-sha256-with-rsa.h\<close>,
  \<open>fields/content\<close>, \<open>fields/signed-blob.h\<close>, \<open>interest\<close> and \<open>data\<close>.
  A time is the number of microseconds since the epoch (\<open>None\<close> is \<open>not_a_date_time\<close>), an
  interval a number of microseconds.
\<close>

section \<open>Key locator\<close>

datatype key_locator_type = NOTSET | KEY | CERTIFICATE | KEYNAME

text \<open>The type tag together with the object that \<open>m_data\<close> points to.\<close>

datatype key_locator =
    LocNotSet
  | LocKey blob
  | LocCertificate blob
  | LocKeyName name

fun getType :: "key_locator \<Rightarrow> key_locator_type" where
  "getType LocNotSet = NOTSET"
| "getType (LocKey _) = KEY"
| "getType (LocCertificate _) = CERTIFICATE"
| "getType (LocKeyName _) = KEYNAME"

definition new_locator :: "key_locator_type \<Rightarrow> key_locator" where
  "new_locator t =
     (case t of
        NOTSET \<Rightarrow> LocNotSet
      | KEY \<Rightarrow> LocKey []
      | CERTIFICATE \<Rightarrow> LocCertificate []
      | KEYNAME \<Rightarrow> LocKeyName (Name []))"

definition setType :: "key_locator \<Rightarrow> key_locator_type \<Rightarrow> key_locator" where
  "setType l t = (if getType l = t then l else new_locator t)"

fun getKey :: "key_locator \<Rightarrow> blob result" where
  "getKey (LocKey k) = Inr k"
| "getKey _ = Inl ErrKeyLocator"

definition setKey :: "key_locator \<Rightarrow> blob \<Rightarrow> key_locator result" where
  "setKey l k = (if getType l \<noteq> KEY then Inl ErrKeyLocator else Inr (LocKey k))"

fun getCertificate :: "key_locator \<Rightarrow> blob result" where
  "getCertificate (LocCertificate c) = Inr c"
| "getCertificate _ = Inl ErrKeyLocator"

definition setCertificate :: "key_locator \<Rightarrow> blob \<Rightarrow> key_locator result" where
  "setCertificate l c = (if getType l \<noteq> CERTIFICATE then Inl ErrKeyLocator else Inr (LocCertificate c))"

fun getKeyName :: "key_locator \<Rightarrow> name result" where
  "getKeyName (LocKeyName n) = Inr n"
| "getKeyName _ = Inl ErrKeyLocator"

definition setKeyName :: "key_locator \<Rightarrow> name \<Rightarrow> key_locator result" where
  "setKeyName l n = (if getType l \<noteq> KEYNAME then Inl ErrKeyLocator else Inr (LocKeyName n))"

text \<open>The copy constructor and \<open>operator=\<close>: a new object of the same type and value.\<close>

definition copy_locator :: "key_locator \<Rightarrow> key_locator result" where
  "copy_locator l =
     (case getType l of
        NOTSET \<Rightarrow> Inr LocNotSet
      | KEY \<Rightarrow> bindE (getKey l) (\<lambda>k. Inr (LocKey k))
      | CERTIFICATE \<Rightarrow> bindE (getCertificate l) (\<lambda>c. Inr (LocCertificate c))
      | KEYNAME \<Rightarrow> bindE (getKeyName l) (\<lambda>n. Inr (LocKeyName n)))"

section \<open>Signature, content and signed blob\<close>

record sha256_with_rsa =
  m_signatureBits :: blob
  m_publisherKeyDigest :: blob
  m_keyLocator :: key_locator

definition new_signature :: sha256_with_rsa where
  "new_signature = \<lparr> m_signatureBits = [], m_publisherKeyDigest = [], m_keyLocator = LocNotSet \<rparr>"

datatype content_type = DATA | ENCR | GONE | CONTENT_KEY | LINK | NACK

text \<open>The default constructor leaves \<open>m_type\<close> without a value: \<open>None\<close>.\<close>

record content =
  m_timestamp :: "int option"
  m_type :: "content_type option"
  m_freshness :: int
  m_finalBlockId :: component
  m_content :: blob

definition maxFreshness :: int where
  "maxFreshness = 2147000000"

definition empty_content :: content where
  "empty_content =
     \<lparr> m_timestamp = None, m_type = None, m_freshness = 0, m_finalBlockId = Component [], m_content = [] \<rparr>"

definition make_content :: "blob \<Rightarrow> int \<Rightarrow> content_type \<Rightarrow> int \<Rightarrow> component \<Rightarrow> content" where
  "make_content buf timestamp type freshness finalBlock =
     \<lparr> m_timestamp = Some timestamp, m_type = Some type, m_freshness = freshness,
       m_finalBlockId = finalBlock, m_content = buf \<rparr>"

text \<open>\<open>setTimeStamp\<close>: an empty time is replaced by the current one, \<open>now\<close>.\<close>

definition setTimeStamp :: "int \<Rightarrow> int option \<Rightarrow> content \<Rightarrow> content" where
  "setTimeStamp now timestamp c =
     (if timestamp \<noteq> None then c\<lparr> m_timestamp := timestamp \<rparr> else c\<lparr> m_timestamp := Some now \<rparr>)"

text \<open>A blob with the offsets of its signed portion; \<open>size_t\<close> arithmetic wraps.\<close>

record signed_blob =
  sb_bytes :: blob
  sb_signedBegin :: uint64
  sb_signedEnd :: uint64

definition setSignedPortion :: "uint64 \<Rightarrow> uint64 \<Rightarrow> signed_blob \<Rightarrow> signed_blob" where
  "setSignedPortion offset sz b = b\<lparr> sb_signedBegin := offset, sb_signedEnd := offset + sz \<rparr>"

definition signed_size :: "signed_blob \<Rightarrow> uint64" where
  "signed_size b = sb_signedEnd b - sb_signedBegin b"

definition signed_bytes :: "signed_blob \<Rightarrow> blob" where
  "signed_bytes b = take (unat (signed_size b)) (drop (unat (sb_signedBegin b)) (sb_bytes b))"

section \<open>Interest\<close>

record interest =
  i_name :: name
  i_maxSuffixComponents :: uint32
  i_minSuffixComponents :: uint32
  i_answerOriginKind :: uint32
  i_interestLifetime :: int
  i_scope :: byte
  i_childSelector :: byte
  i_publisherPublicKeyDigest :: blob
  i_exclude :: exclude

definition ncomps :: uint32 where "ncomps = -1"
definition AOK_DEFAULT :: uint32 where "AOK_DEFAULT = 3"
definition CHILD_DEFAULT :: byte where "CHILD_DEFAULT = 2"
definition NO_SCOPE :: byte where "NO_SCOPE = 255"

text \<open>
  \<open>time::Seconds (double)\<close> for a whole number of seconds whose microseconds fit an \<open>int\<close>, as in
  the constructors, which pass -1: \<open>std::modf\<close>
  returns the fraction, which is cut to 0 seconds, and the whole part is scaled to microseconds.
\<close>

definition seconds_of_double :: "int \<Rightarrow> int" where
  "seconds_of_double secs = secs * 1000000"

definition new_interest :: "name \<Rightarrow> interest" where
  "new_interest n =
     \<lparr> i_name = n, i_maxSuffixComponents = ncomps, i_minSuffixComponents = ncomps,
       i_answerOriginKind = AOK_DEFAULT, i_interestLifetime = seconds_of_double (-1), i_scope = NO_SCOPE,
       i_childSelector = CHILD_DEFAULT, i_publisherPublicKeyDigest = [], i_exclude = exclude_empty \<rparr>"

text \<open>The copy constructor does not copy the exclude filter.\<close>

definition copy_interest :: "interest \<Rightarrow> interest" where
  "copy_interest other =
     \<lparr> i_name = i_name other, i_maxSuffixComponents = i_maxSuffixComponents other,
       i_minSuffixComponents = i_minSuffixComponents other, i_answerOriginKind = i_answerOriginKind other,
       i_interestLifetime = i_interestLifetime other, i_scope = i_scope other,
       i_childSelector = i_childSelector other,
       i_publisherPublicKeyDigest = i_publisherPublicKeyDigest other, i_exclude = exclude_empty \<rparr>"

definition interest_eq :: "interest \<Rightarrow> interest \<Rightarrow> bool" where
  "interest_eq a b \<longleftrightarrow>
     name_compare (i_name a) (i_name b) = 0 \<and>
     i_maxSuffixComponents a = i_maxSuffixComponents b \<and>
     i_minSuffixComponents a = i_minSuffixComponents b \<and>
     i_answerOriginKind a = i_answerOriginKind b \<and>
     i_interestLifetime a = i_interestLifetime b \<and>
     i_scope a = i_scope b \<and>
     i_childSelector a = i_childSelector b"

definition setName :: "name \<Rightarrow> interest \<Rightarrow> interest" where
  "setName n i = i\<lparr> i_name := n \<rparr>"

definition setScope :: "byte \<Rightarrow> interest \<Rightarrow> interest" where
  "setScope s i = i\<lparr> i_scope := s \<rparr>"

definition setInterestLifetime :: "int \<Rightarrow> interest \<Rightarrow> interest" where
  "setInterestLifetime t i = i\<lparr> i_interestLifetime := t \<rparr>"

definition setMaxSuffixComponents :: "uint32 \<Rightarrow> interest \<Rightarrow> interest" where
  "setMaxSuffixComponents n i = i\<lparr> i_maxSuffixComponents := n \<rparr>"

definition setMinSuffixComponents :: "uint32 \<Rightarrow> interest \<Rightarrow> interest" where
  "setMinSuffixComponents n i = i\<lparr> i_minSuffixComponents := n \<rparr>"

definition setAnswerOriginKind :: "uint32 \<Rightarrow> interest \<Rightarrow> interest" where
  "setAnswerOriginKind k i = i\<lparr> i_answerOriginKind := k \<rparr>"

definition setChildSelector :: "byte \<Rightarrow> interest \<Rightarrow> interest" where
  "setChildSelector c i = i\<lparr> i_childSelector := c \<rparr>"

definition setPublisherPublicKeyDigest :: "blob \<Rightarrow> interest \<Rightarrow> interest" where
  "setPublisherPublicKeyDigest d i = i\<lparr> i_publisherPublicKeyDigest := d \<rparr>"

definition setExclude :: "exclude \<Rightarrow> interest \<Rightarrow> interest" where
  "setExclude e i = i\<lparr> i_exclude := e \<rparr>"

section \<open>Data\<close>

text \<open>The signature is absent (a null pointer) or a \<open>Sha256WithRsa\<close>, the only class the library has.\<close>

record ndn_data =
  d_name :: name
  d_signature :: "sha256_with_rsa option"
  d_content :: content
  d_wire :: "signed_blob option"

definition new_data :: ndn_data where
  "new_data = \<lparr> d_name = Name [], d_signature = None, d_content = empty_content, d_wire = None \<rparr>"

section \<open>Key locator laws\<close>

lemma copy_locator_same: "copy_locator l = Inr l"
  by (cases l) (simp_all add: copy_locator_def)

lemma getType_new [simp]: "getType (new_locator t) = t"
  by (cases t) (simp_all add: new_locator_def)

text \<open>Key locators: after \<open>setType\<close> exactly the accessors of that type succeed, a
  value written through a setter is read back by the matching getter, and every access under
  another type throws.\<close>

theorem key_locator_access:
  "getType (setType l t) = t \<and>
   ((\<exists>b. getKey l = Inr b) \<longleftrightarrow> getType l = KEY) \<and>
   ((\<exists>b. getCertificate l = Inr b) \<longleftrightarrow> getType l = CERTIFICATE) \<and>
   ((\<exists>n. getKeyName l = Inr n) \<longleftrightarrow> getType l = KEYNAME) \<and>
   bindE (setKey (setType l KEY) k) getKey = Inr k \<and>
   bindE (setCertificate (setType l CERTIFICATE) k) getCertificate = Inr k \<and>
   bindE (setKeyName (setType l KEYNAME) n) getKeyName = Inr n \<and>
   (setKey l k = Inl ErrKeyLocator \<longleftrightarrow> getType l \<noteq> KEY) \<and>
   copy_locator l = Inr l"
  by (cases l)
    (simp_all add: copy_locator_same setType_def new_locator_def setKey_def setCertificate_def setKeyName_def
      split: key_locator_type.splits)

text \<open>
  \<open>operator==\<close> does not look at the exclude filter or the publisher digest, so a copy always
  compares equal even when its exclude filter was lost.
\<close>

lemma copy_interest_eq: "interest_eq (copy_interest i) i"
  by (simp add: interest_eq_def copy_interest_def name_cmp.cmp_eq)

lemma copy_interest_loses_exclude:
  "\<exists>i. copy_interest i \<noteq> i \<and> interest_eq (copy_interest i) i"
  by (rule exI [of _ "setExclude \<lparr> m_exclude = [(Component [1], True)] \<rparr> (new_interest (Name []))"])
    (simp add: copy_interest_def setExclude_def new_interest_def exclude_empty_def interest_eq_def name_cmp.cmp_eq)

end
