(* ===== verification/Name_Trie.thy ===== *)
theory Name_Trie
  imports Ndn_Prelude "HOL-Library.Sublist"
begin

text \<open>
  \<open>ndn.cxx/trie/trie.h\<close>: the name trie behind the library's tables.  A node keeps its
  bucket counters, its children and its payload; \<open>None\<close> is \<open>empty_payload\<close>.  The
  key of a node labels the edge to it.  A pointer to a node is the path from the root to it
  (parents are the shorter paths) and the null pointer is \<open>None\<close>.  The children are
  kept in one of the iteration orders that the hash set allows: the newest first.  The
  theorems are about lookup, reachability and the set of visited nodes, which do not depend
  on that choice.  Counters are natural numbers: the bucket count exceeds \<open>2 ^ 63\<close> only
  after as many children.
\<close>

datatype ('k, 'p) trie =
  Trie (initialBucketSize: nat) (bucketIncrement: nat) (bucketSize: nat)
    (children: "('k \<times> ('k, 'p) trie) list") (payload: "'p option")

type_synonym ('k, 'p) child_set = "('k \<times> ('k, 'p) trie) list"

section \<open>Construction and node access\<close>

definition new_trie :: "nat \<Rightarrow> nat \<Rightarrow> ('k, 'p) trie" where
  "new_trie bucket inc = Trie bucket inc bucket [] None"

primrec set_payload :: "'p option \<Rightarrow> ('k, 'p) trie \<Rightarrow> ('k, 'p) trie" where
  "set_payload p (Trie i inc b cs _) = Trie i inc b cs p"

primrec with_children :: "('k, 'p) child_set \<Rightarrow> ('k, 'p) trie \<Rightarrow> ('k, 'p) trie" where
  "with_children cs (Trie i inc b _ p) = Trie i inc b cs p"

definition set_child :: "'k \<Rightarrow> ('k, 'p) trie \<Rightarrow> ('k, 'p) child_set \<Rightarrow> ('k, 'p) child_set" where
  "set_child k c cs = map (\<lambda>e. if fst e = k then (k, c) else e) cs"

definition trie_clear :: "('k, 'p) trie \<Rightarrow> ('k, 'p) trie" where
  "trie_clear t = with_children [] t"

fun node_at :: "('k, 'p) trie \<Rightarrow> 'k list \<Rightarrow> ('k, 'p) trie option" where
  "node_at t [] = Some t"
| "node_at t (k # ks) =
     (case map_of (children t) k of None \<Rightarrow> None | Some c \<Rightarrow> node_at c ks)"

text \<open>A change made through a node pointer.\<close>

fun update_at :: "'k list \<Rightarrow> (('k, 'p) trie \<Rightarrow> ('k, 'p) trie) \<Rightarrow> ('k, 'p) trie \<Rightarrow> ('k, 'p) trie" where
  "update_at [] f t = f t"
| "update_at (k # ks) f t =
     (case map_of (children t) k of
        None \<Rightarrow> t
      | Some c \<Rightarrow> with_children (set_child k (update_at ks f c) (children t)) t)"

definition trie_lookup :: "('k, 'p) trie \<Rightarrow> 'k list \<Rightarrow> 'p option" where
  "trie_lookup t key = Option.bind (node_at t key) payload"

section \<open>Insertion\<close>

text \<open>The growth of the bucket array before a new child is linked.\<close>

primrec grow_buckets :: "('k, 'p) trie \<Rightarrow> ('k, 'p) trie" where
  "grow_buckets (Trie i inc b cs p) =
     (if length cs \<ge> b then Trie i (inc * 2) (b + inc) cs p else Trie i inc b cs p)"

text \<open>
  The loop of \<open>insert\<close>.  New nodes take \<open>initialBucketSize_\<close> and the current
  \<open>bucketIncrement_\<close> of the trie that \<open>insert\<close> is called on: \<open>root\<close> says whether
  the loop is at that node, whose growth changes the increment for the nodes created after.
\<close>

fun insert_loop ::
  "bool \<Rightarrow> nat \<Rightarrow> nat \<Rightarrow> 'k list \<Rightarrow> 'p option \<Rightarrow> ('k, 'p) trie \<Rightarrow> ('k, 'p) trie \<times> bool" where
  "insert_loop root i inc [] p t =
     (if payload t = None then (set_payload p t, True) else (t, False))"
| "insert_loop root i inc (k # ks) p t =
     (case map_of (children t) k of
        None \<Rightarrow>
          let t' = grow_buckets t;
              inc' = (if root then bucketIncrement t' else inc);
              (c, ok) = insert_loop False i inc' ks p (new_trie i inc)
          in (with_children ((k, c) # children t') t', ok)
      | Some c \<Rightarrow>
          let (c', ok) = insert_loop False i inc ks p c
          in (with_children (set_child k c' (children t)) t, ok))"

definition trie_insert ::
  "'k list \<Rightarrow> 'p option \<Rightarrow> ('k, 'p) trie \<Rightarrow> ('k, 'p) trie \<times> 'k list \<times> bool" where
  "trie_insert key p t =
     (case insert_loop True (initialBucketSize t) (bucketIncrement t) key p t of
        (t', ok) \<Rightarrow> (t', key, ok))"

section \<open>Erasing and pruning\<close>

definition erase_child :: "'k \<Rightarrow> ('k, 'p) trie \<Rightarrow> ('k, 'p) trie" where
  "erase_child k t = with_children (filter (\<lambda>e. fst e \<noteq> k) (children t)) t"

definition dead :: "('k, 'p) trie \<Rightarrow> bool" where
  "dead t \<longleftrightarrow> payload t = None \<and> children t = []"

function trie_prune :: "'k list \<Rightarrow> ('k, 'p) trie \<Rightarrow> ('k, 'p) trie \<times> 'k list" where
  "trie_prune path t =
     (case node_at t path of
        None \<Rightarrow> (t, path)
      | Some n \<Rightarrow>
          if dead n then
            (if path = [] then (t, path)
             else trie_prune (butlast path) (update_at (butlast path) (erase_child (last path)) t))
          else (t, path))"
  by pat_completeness auto
termination by (relation "measure (\<lambda>(path, t). length path)") auto

declare trie_prune.simps [simp del]

definition prune_node :: "'k list \<Rightarrow> ('k, 'p) trie \<Rightarrow> ('k, 'p) trie" where
  "prune_node path t =
     (case node_at t path of
        None \<Rightarrow> t
      | Some n \<Rightarrow>
          if dead n \<and> path \<noteq> [] then update_at (butlast path) (erase_child (last path)) t else t)"

definition trie_erase :: "'k list \<Rightarrow> ('k, 'p) trie \<Rightarrow> ('k, 'p) trie \<times> 'k list" where
  "trie_erase path t = trie_prune path (update_at path (set_payload None) t)"

section \<open>Searching\<close>

fun find_loop ::
  "('p \<Rightarrow> bool) \<Rightarrow> 'k list \<Rightarrow> 'k list option \<Rightarrow> 'k list \<Rightarrow> ('k, 'p) trie \<Rightarrow> 'k list option \<times> bool \<times> 'k list"
where
  "find_loop pred here foundNode [] t = (foundNode, True, here)"
| "find_loop pred here foundNode (k # ks) t =
     (case map_of (children t) k of
        None \<Rightarrow> (foundNode, False, here)
      | Some c \<Rightarrow>
          find_loop pred (here @ [k])
            (case payload c of
               None \<Rightarrow> foundNode
             | Some p \<Rightarrow> if pred p then Some (here @ [k]) else foundNode) ks c)"

text \<open>\<open>find (key)\<close> and \<open>find_if (key, pred)\<close>; the latter does not apply \<open>pred\<close> to the root.\<close>

definition trie_find_if ::
  "'k list \<Rightarrow> ('p \<Rightarrow> bool) \<Rightarrow> ('k, 'p) trie \<Rightarrow> 'k list option \<times> bool \<times> 'k list" where
  "trie_find_if key pred t =
     find_loop pred [] (if payload t \<noteq> None then Some [] else None) key t"

definition trie_find :: "'k list \<Rightarrow> ('k, 'p) trie \<Rightarrow> 'k list option \<times> bool \<times> 'k list" where
  "trie_find key t = find_loop (\<lambda>_. True) [] (if payload t \<noteq> None then Some [] else None) key t"

text \<open>\<open>find_if (pred)\<close> and \<open>find ()\<close>: any payload below a node.\<close>

fun find_any_if :: "('p \<Rightarrow> bool) \<Rightarrow> ('k, 'p) trie \<Rightarrow> 'k list option"
  and find_any_in :: "('p \<Rightarrow> bool) \<Rightarrow> ('k, 'p) child_set \<Rightarrow> 'k list option"
where
  "find_any_if pred (Trie i inc b cs p) =
     (if (case p of None \<Rightarrow> False | Some x \<Rightarrow> pred x) then Some [] else find_any_in pred cs)"
| "find_any_in pred [] = None"
| "find_any_in pred ((k, c) # cs) =
     (case find_any_if pred c of Some path \<Rightarrow> Some (k # path) | None \<Rightarrow> find_any_in pred cs)"

definition find_any :: "('k, 'p) trie \<Rightarrow> 'k list option" where
  "find_any t = find_any_if (\<lambda>_. True) t"

section \<open>Iteration\<close>

definition next_key :: "'k \<Rightarrow> ('k, 'p) child_set \<Rightarrow> 'k option" where
  "next_key k cs = (case dropWhile (\<lambda>e. fst e \<noteq> k) cs of _ # e # _ \<Rightarrow> Some (fst e) | _ \<Rightarrow> None)"

text \<open>The children of a node, read through its pointer.\<close>

definition children_at :: "('k, 'p) trie \<Rightarrow> 'k list \<Rightarrow> ('k, 'p) child_set" where
  "children_at t path = (case node_at t path of None \<Rightarrow> [] | Some n \<Rightarrow> children n)"

function goUp :: "('k, 'p) trie \<Rightarrow> 'k list \<Rightarrow> 'k list option" where
  "goUp t path =
     (if path = [] then None
      else
        (case next_key (last path) (children_at t (butlast path)) of
           Some k \<Rightarrow> Some (butlast path @ [k])
         | None \<Rightarrow> goUp t (butlast path)))"
  by pat_completeness auto
termination by (relation "measure (\<lambda>(t, path). length path)") auto

declare goUp.simps [simp del]

text \<open>The recursive iterator's \<open>operator++\<close>; \<open>None\<close> is the end.\<close>

definition trie_next :: "('k, 'p) trie \<Rightarrow> 'k list \<Rightarrow> 'k list option" where
  "trie_next t path =
     (case children_at t path of e # _ \<Rightarrow> Some (path @ [fst e]) | [] \<Rightarrow> goUp t path)"

text \<open>The point iterator: the constructor from a node and \<open>operator++\<close> along the siblings.\<close>

definition point_begin :: "('k, 'p) trie \<Rightarrow> 'k list \<Rightarrow> 'k list option" where
  "point_begin t path = (case children_at t path of e # _ \<Rightarrow> Some (path @ [fst e]) | [] \<Rightarrow> None)"

definition point_next :: "('k, 'p) trie \<Rightarrow> 'k list \<Rightarrow> 'k list option" where
  "point_next t path =
     (if path = [] then None
      else map_option (\<lambda>k. butlast path @ [k]) (next_key (last path) (children_at t (butlast path))))"

text \<open>
  \<open>clear_if\<close>: the loop over the recursive iterator, with the nodes still to visit bounded
  by \<open>fuel\<close>.  After an erase the iterator stands on the node where pruning stopped, and the
  \<open>++\<close> that follows moves on from there.
\<close>

fun clear_if_loop ::
  "nat \<Rightarrow> (('k, 'p) trie \<Rightarrow> bool) \<Rightarrow> 'k list option \<Rightarrow> ('k, 'p) trie \<Rightarrow> ('k, 'p) trie option" where
  "clear_if_loop fuel cond None t = Some t"
| "clear_if_loop 0 cond (Some path) t = None"
| "clear_if_loop (Suc fuel) cond (Some path) t =
     (case node_at t path of
        None \<Rightarrow> None
      | Some n \<Rightarrow>
          let (t', path') = (if cond n then trie_erase path t else (t, path))
          in clear_if_loop fuel cond (trie_next t' path') t')"

definition clear_if :: "nat \<Rightarrow> (('k, 'p) trie \<Rightarrow> bool) \<Rightarrow> ('k, 'p) trie \<Rightarrow> ('k, 'p) trie option" where
  "clear_if fuel cond t = clear_if_loop fuel cond (Some []) t"

section \<open>The well-formed tries\<close>

text \<open>
  Invariant of every node: no two children share a key, the bucket array is at least as
  long as the child list (with a positive increment), and no child is dead.
\<close>

fun trie_wf :: "('k, 'p) trie \<Rightarrow> bool" where
  "trie_wf (Trie i inc b cs p) \<longleftrightarrow>
     distinct (map fst cs) \<and> 0 < inc \<and> length cs \<le> b \<and>
     (\<forall>e\<in>set cs. \<not> dead (snd e) \<and> trie_wf (snd e))"

lemma with_children_simps [simp]:
  "children (with_children cs t) = cs"
  "payload (with_children cs t) = payload t"
  "initialBucketSize (with_children cs t) = initialBucketSize t"
  "bucketIncrement (with_children cs t) = bucketIncrement t"
  "bucketSize (with_children cs t) = bucketSize t"
  "with_children (children t) t = t"
  by (cases t; simp)+

lemma set_payload_simps [simp]:
  "children (set_payload p t) = children t"
  "payload (set_payload p t) = p"
  "bucketIncrement (set_payload p t) = bucketIncrement t"
  "bucketSize (set_payload p t) = bucketSize t"
  by (cases t; simp)+

lemma grow_buckets_simps [simp]:
  "children (grow_buckets t) = children t"
  "payload (grow_buckets t) = payload t"
  by (cases t; simp)+

lemma new_trie_simps [simp]:
  "children (new_trie i inc) = []"
  "payload (new_trie i inc) = None"
  "bucketIncrement (new_trie i inc) = inc"
  by (simp_all add: new_trie_def)

lemma map_fst_set_child [simp]: "map fst (set_child k c cs) = map fst cs"
  by (auto simp: set_child_def)

lemma length_set_child [simp]: "length (set_child k c cs) = length cs"
  by (simp add: set_child_def)

lemma map_of_set_child:
  "map_of (set_child k c cs) k' =
    (if k' = k then map_option (\<lambda>_. c) (map_of cs k) else map_of cs k')"
  by (induction cs) (auto simp: set_child_def)

lemma set_set_child: "e \<in> set (set_child k c cs) \<Longrightarrow> e = (k, c) \<or> e \<in> set cs"
  by (auto simp: set_child_def)

lemma map_of_erase_child: "map_of (filter (\<lambda>e. fst e \<noteq> k) cs) k' = (if k' = k then None else map_of cs k')"
  by (induction cs) auto

lemma trie_wf_iff:
  "trie_wf t \<longleftrightarrow>
    distinct (map fst (children t)) \<and> 0 < bucketIncrement t \<and> length (children t) \<le> bucketSize t \<and>
    (\<forall>e\<in>set (children t). \<not> dead (snd e) \<and> trie_wf (snd e))"
  by (cases t) simp

lemma trie_wf_child: "trie_wf t \<Longrightarrow> map_of (children t) k = Some c \<Longrightarrow> trie_wf c \<and> \<not> dead c"
  by (auto simp: trie_wf_iff [of t] dest!: map_of_SomeD)

lemma trie_wf_set_child:
  assumes "trie_wf t" and "trie_wf c" and "\<not> dead c"
  shows "trie_wf (with_children (set_child k c (children t)) t)"
  using assms by (auto simp: trie_wf_iff [of t] trie_wf_iff [of "with_children _ t"] dest!: set_set_child)

lemma trie_wf_set_payload [simp]: "trie_wf (set_payload p t) = trie_wf t"
  by (cases t) simp

lemma trie_wf_new_trie: "0 < inc \<Longrightarrow> trie_wf (new_trie i inc)"
  by (simp add: new_trie_def)

lemma trie_wf_grow: "trie_wf t \<Longrightarrow> trie_wf (grow_buckets t)"
  by (cases t) auto

lemma grow_buckets_room: "trie_wf t \<Longrightarrow> length (children t) < bucketSize (grow_buckets t)"
  by (cases t) auto

lemma trie_wf_add_child:
  assumes "trie_wf t" and "trie_wf c" and "\<not> dead c" and "map_of (children t) k = None"
    and "length (children t) < bucketSize t"
  shows "trie_wf (with_children ((k, c) # children t) t)"
  using assms by (auto simp: trie_wf_iff [of t] trie_wf_iff [of "with_children _ t"] map_of_eq_None_iff)

section \<open>Insertion refines map update\<close>

lemma insert_loop_wf:
  "trie_wf t \<Longrightarrow> 0 < inc \<Longrightarrow>
    trie_wf (fst (insert_loop root i inc key (Some x) t)) \<and> \<not> dead (fst (insert_loop root i inc key (Some x) t))"
proof (induction key arbitrary: root inc t)
  case Nil
  then show ?case by (auto simp: dead_def)
next
  case (Cons k ks)
  show ?case
  proof (cases "map_of (children t) k")
    case None
    let ?t = "grow_buckets t"
    let ?inc = "if root then bucketIncrement ?t else inc"
    let ?c = "fst (insert_loop False i ?inc ks (Some x) (new_trie i inc))"
    have "0 < ?inc" using Cons.prems trie_wf_grow [OF Cons.prems(1)] trie_wf_iff [of ?t] by simp
    then have "trie_wf ?c" "\<not> dead ?c"
      using Cons.IH [OF trie_wf_new_trie [OF Cons.prems(2)]] by blast+
    then have "trie_wf (with_children ((k, ?c) # children ?t) ?t)"
      using None grow_buckets_room [OF Cons.prems(1)]
      by (intro trie_wf_add_child trie_wf_grow Cons.prems) simp_all
    then show ?thesis using None by (simp add: Let_def case_prod_beta dead_def)
  next
    case (Some c)
    let ?c = "fst (insert_loop False i inc ks (Some x) c)"
    have "trie_wf ?c" "\<not> dead ?c"
      using Cons.IH Cons.prems trie_wf_child [OF Cons.prems(1) Some] by blast+
    then have "trie_wf (with_children (set_child k ?c (children t)) t)"
      by (intro trie_wf_set_child Cons.prems)
    moreover have "children t \<noteq> []" using Some by auto
    ultimately show ?thesis using Some by (simp add: Let_def case_prod_beta dead_def set_child_def)
  qed
qed

lemma lookup_Nil [simp]: "trie_lookup t [] = payload t"
  by (simp add: trie_lookup_def)

lemma lookup_Cons:
  "trie_lookup t (k # ks) = (case map_of (children t) k of None \<Rightarrow> None | Some c \<Rightarrow> trie_lookup c ks)"
  by (auto simp: trie_lookup_def split: option.splits)

lemma lookup_new_trie: "trie_lookup (new_trie i inc) key = None"
  by (cases key) (simp_all add: lookup_Cons)

lemma insert_loop_lookup:
  "trie_lookup (fst (insert_loop root i inc key p t)) key' =
     (if key' = key \<and> trie_lookup t key = None then p else trie_lookup t key')"
proof (induction key arbitrary: root inc t key')
  case Nil
  then show ?case by (cases key') (auto simp: lookup_Cons)
next
  case (Cons k ks)
  then show ?case
    by (cases key')
      (auto simp: lookup_Cons Let_def case_prod_beta map_of_set_child lookup_new_trie split: option.splits)
qed

lemma insert_loop_inserted:
  "snd (insert_loop root i inc key p t) \<longleftrightarrow> trie_lookup t key = None"
  by (induction key arbitrary: root inc t)
    (auto simp: lookup_Cons lookup_new_trie Let_def case_prod_beta split: option.splits)

lemma trie_clear_lookup: "trie_lookup (trie_clear t) key = (if key = [] then payload t else None)"
  by (cases key) (simp_all add: trie_clear_def lookup_Cons)

lemma trie_wf_clear: "trie_wf t \<Longrightarrow> trie_wf (trie_clear t)"
  by (cases t) (simp add: trie_clear_def)

section \<open>Erasing refines map deletion\<close>

text \<open>The structural reference for the upward walk of \<open>prune\<close>.\<close>

fun prune_rec :: "'k list \<Rightarrow> ('k, 'p) trie \<Rightarrow> ('k, 'p) trie" where
  "prune_rec [] t = t"
| "prune_rec (k # ks) t =
     (case map_of (children t) k of
        None \<Rightarrow> t
      | Some c \<Rightarrow>
          let c' = prune_rec ks c
          in if dead c' then erase_child k t else with_children (set_child k c' (children t)) t)"

fun trie_distinct :: "('k, 'p) trie \<Rightarrow> bool" where
  "trie_distinct (Trie i inc b cs p) \<longleftrightarrow>
     distinct (map fst cs) \<and> (\<forall>e\<in>set cs. trie_distinct (snd e))"

lemma trie_distinct_iff:
  "trie_distinct t \<longleftrightarrow>
    distinct (map fst (children t)) \<and> (\<forall>e\<in>set (children t). trie_distinct (snd e))"
  by (cases t) simp

lemma trie_wf_distinct: "trie_wf t \<Longrightarrow> trie_distinct t"
  by (induction t rule: trie_distinct.induct) auto

lemma trie_distinct_set_payload [simp]: "trie_distinct (set_payload p t) = trie_distinct t"
  by (cases t) simp

lemma trie_distinct_child: "trie_distinct t \<Longrightarrow> map_of (children t) k = Some c \<Longrightarrow> trie_distinct c"
  by (auto simp: trie_distinct_iff [of t] dest!: map_of_SomeD)

lemma trie_distinct_set_child:
  "trie_distinct t \<Longrightarrow> trie_distinct c \<Longrightarrow> trie_distinct (with_children (set_child k c (children t)) t)"
  by (auto simp: trie_distinct_iff [of t] trie_distinct_iff [of "with_children _ t"] dest!: set_set_child)

lemma trie_distinct_erase_child: "trie_distinct t \<Longrightarrow> trie_distinct (erase_child k t)"
  by (cases t) (auto simp: erase_child_def distinct_map_filter)

lemma trie_distinct_update:
  "trie_distinct t \<Longrightarrow> (\<And>n. trie_distinct n \<Longrightarrow> trie_distinct (f n)) \<Longrightarrow> trie_distinct (update_at path f t)"
  by (induction path arbitrary: t)
    (auto split: option.splits intro!: trie_distinct_set_child dest: trie_distinct_child)

lemma set_child_same: "distinct (map fst cs) \<Longrightarrow> map_of cs k = Some c \<Longrightarrow> set_child k c cs = cs"
  unfolding set_child_def by (rule map_idI) (auto dest!: map_of_SomeD dest: eq_key_imp_eq_value)

lemma set_child_set_child [simp]: "set_child k c (set_child k c' cs) = set_child k c cs"
  by (auto simp: set_child_def)

lemma with_children_twice [simp]: "with_children cs (with_children cs' t) = with_children cs t"
  by (cases t) simp

lemma prune_rec_alive:
  "trie_distinct t \<Longrightarrow> node_at t path = Some n \<Longrightarrow> \<not> dead n \<Longrightarrow> prune_rec path t = t"
proof (induction path arbitrary: t)
  case (Cons k ks)
  then obtain c where c: "map_of (children t) k = Some c" "node_at c ks = Some n"
    by (auto split: option.splits)
  have "prune_rec ks c = c"
    by (rule Cons.IH [OF trie_distinct_child [OF Cons.prems(1) c(1)] c(2) Cons.prems(3)])
  moreover have "\<not> dead c" using c Cons.prems(3) by (cases ks) (auto simp: dead_def split: option.splits)
  moreover have "distinct (map fst (children t))" using Cons.prems(1) trie_distinct_iff [of t] by simp
  ultimately show ?case using c by (simp add: set_child_same)
qed simp

lemma erase_child_set_child [simp]:
  "erase_child k (with_children (set_child k c (children t)) t) = erase_child k t"
  by (cases t) (auto simp: erase_child_def set_child_def filter_map comp_def intro!: map_idI)

lemma prune_rec_dead:
  "node_at t (p @ [k]) = Some n \<Longrightarrow> dead n \<Longrightarrow>
    prune_rec (p @ [k]) t = prune_rec p (update_at p (erase_child k) t)"
proof (induction p arbitrary: t)
  case (Cons j p)
  then show ?case
    by (auto split: option.splits simp: map_of_set_child Let_def)
qed (auto split: option.splits)

lemma node_at_update_self: "node_at t path = Some n \<Longrightarrow> node_at (update_at path f t) path = Some (f n)"
  by (induction path arbitrary: t) (auto simp: map_of_set_child split: option.splits)

lemma node_at_append: "node_at t (p @ q) = Option.bind (node_at t p) (\<lambda>n. node_at n q)"
  by (induction p arbitrary: t) (auto split: option.splits)

lemma trie_prune_eq_rec:
  "trie_distinct t \<Longrightarrow> node_at t path \<noteq> None \<Longrightarrow> fst (trie_prune path t) = prune_rec path t"
proof (induction path arbitrary: t rule: rev_induct)
  case Nil
  then show ?case by (simp add: trie_prune.simps)
next
  case (snoc k p)
  then obtain n where n: "node_at t (p @ [k]) = Some n" by blast
  then obtain m where m: "node_at t p = Some m" by (auto simp: node_at_append split: bind_splits)
  show ?case
  proof (cases "dead n")
    case True
    let ?t = "update_at p (erase_child k) t"
    have "fst (trie_prune (p @ [k]) t) = fst (trie_prune p ?t)"
      using n True by (simp add: trie_prune.simps [of "p @ [k]"])
    also have "\<dots> = prune_rec p ?t"
      using snoc m by (intro snoc.IH trie_distinct_update trie_distinct_erase_child) (auto simp: node_at_update_self)
    also have "\<dots> = prune_rec (p @ [k]) t" using prune_rec_dead [OF n True] by simp
    finally show ?thesis .
  next
    case False
    then show ?thesis
      using n prune_rec_alive [OF snoc.prems(1) n False] by (simp add: trie_prune.simps [of "p @ [k]"])
  qed
qed

lemma dead_lookup: "dead c \<Longrightarrow> trie_lookup c key = None"
  by (cases key) (auto simp: dead_def lookup_Cons)

lemma prune_rec_lookup: "trie_lookup (prune_rec path t) key = trie_lookup t key"
proof (induction path arbitrary: t key)
  case (Cons k ks)
  show ?case
  proof (cases "map_of (children t) k")
    case (Some c)
    have "trie_lookup c ks' = None" if "dead (prune_rec ks c)" for ks'
      using Cons.IH [of c ks'] dead_lookup [OF that] by simp
    then show ?thesis using Some Cons.IH
      by (cases key) (auto simp: lookup_Cons Let_def erase_child_def map_of_erase_child map_of_set_child)
  qed simp
qed simp

lemma trie_lookup_update_payload:
  "trie_lookup (update_at path (set_payload p) t) key =
    (if key = path \<and> node_at t path \<noteq> None then p else trie_lookup t key)"
proof (induction path arbitrary: t key)
  case Nil
  then show ?case by (cases key) (auto simp: lookup_Cons)
next
  case (Cons k ks)
  then show ?case
    by (cases key) (auto simp: lookup_Cons map_of_set_child split: option.splits)
qed

text \<open>Erasing through the pointer equals removing the payload and every node that dies.\<close>

fun erase_rec :: "'k list \<Rightarrow> ('k, 'p) trie \<Rightarrow> ('k, 'p) trie" where
  "erase_rec [] t = set_payload None t"
| "erase_rec (k # ks) t =
     (case map_of (children t) k of
        None \<Rightarrow> t
      | Some c \<Rightarrow>
          let c' = erase_rec ks c
          in if dead c' then erase_child k t else with_children (set_child k c' (children t)) t)"

lemma erase_rec_prune: "erase_rec path t = prune_rec path (update_at path (set_payload None) t)"
  by (induction path arbitrary: t) (auto simp: Let_def map_of_set_child split: option.splits)

lemma trie_wf_erase_child: "trie_wf t \<Longrightarrow> trie_wf (erase_child k t)"
  by (cases t) (auto simp: erase_child_def distinct_map_filter intro: le_trans [OF length_filter_le])

lemma erase_rec_wf: "trie_wf t \<Longrightarrow> trie_wf (erase_rec path t)"
  by (induction path arbitrary: t)
    (auto simp: Let_def split: option.splits
      intro!: trie_wf_set_child trie_wf_erase_child dest: trie_wf_child)

lemma trie_erase_eq_rec:
  assumes "trie_distinct t" and "node_at t path = Some n"
  shows "fst (trie_erase path t) = erase_rec path t"
  unfolding trie_erase_def erase_rec_prune
  using assms by (intro trie_prune_eq_rec trie_distinct_update)
    (auto simp: node_at_update_self)

lemma trie_erase_lookup:
  assumes "trie_distinct t" and "node_at t path = Some n"
  shows "trie_lookup (fst (trie_erase path t)) key = (if key = path then None else trie_lookup t key)"
  using assms unfolding trie_erase_eq_rec [OF assms] erase_rec_prune
  by (simp add: prune_rec_lookup trie_lookup_update_payload)

section \<open>Longest prefix match\<close>

text \<open>A path whose node holds a payload that satisfies the predicate.\<close>

definition hit :: "('p \<Rightarrow> bool) \<Rightarrow> ('k, 'p) trie \<Rightarrow> 'k list \<Rightarrow> bool" where
  "hit pred t path = (case trie_lookup t path of None \<Rightarrow> False | Some p \<Rightarrow> pred p)"

lemma hit_Cons:
  "hit pred t (k # ks) = (case map_of (children t) k of None \<Rightarrow> False | Some c \<Rightarrow> hit pred c ks)"
  by (auto simp: hit_def lookup_Cons split: option.splits)

lemma hit_Nil: "hit pred t [] = (case payload t of None \<Rightarrow> False | Some p \<Rightarrow> pred p)"
  by (simp add: hit_def)

lemma prefixes_Nil_tl: "prefixes xs = [] # tl (prefixes xs)"
  by (cases xs) simp_all

definition has_node :: "('k, 'p) trie \<Rightarrow> 'k list \<Rightarrow> bool" where
  "has_node t path = (node_at t path \<noteq> None)"

lemma has_node_Cons: "has_node t (k # ks) = (case map_of (children t) k of None \<Rightarrow> False | Some c \<Rightarrow> has_node c ks)"
  by (simp add: has_node_def split: option.splits)

lemma has_node_Nil [simp]: "has_node t []"
  by (simp add: has_node_def)

lemma find_loop_spec:
  "find_loop pred here found key t =
    (let hits = filter (hit pred t) (tl (prefixes key))
     in (if hits = [] then found else Some (here @ last hits),
         has_node t key,
         here @ last (filter (has_node t) (prefixes key))))"
proof (induction key arbitrary: here found t)
  case (Cons k ks)
  show ?case
  proof (cases "map_of (children t) k")
    case None
    then show ?thesis by (simp add: filter_map comp_def hit_Cons has_node_def)
  next
    case (Some c)
    have f: "filter (hit pred t) (map ((#) k) xs) = map ((#) k) (filter (hit pred c) xs)"
      "filter (has_node t) (map ((#) k) xs) = map ((#) k) (filter (has_node c) xs)" for xs
      using Some by (auto simp: filter_map comp_def hit_Cons has_node_Cons)
    have n: "filter (has_node c) (prefixes ks) \<noteq> []"
      by (subst prefixes_Nil_tl) (simp add: has_node_def)
    have h: "filter (hit pred c) (prefixes ks) =
        (if hit pred c [] then [] # filter (hit pred c) (tl (prefixes ks)) else filter (hit pred c) (tl (prefixes ks)))"
      by (subst prefixes_Nil_tl) simp
    show ?thesis
      using Some n Cons.IH [of "here @ [k]" _ c]
      by (auto simp: f h Let_def last_map hit_Nil has_node_Cons split: option.splits)
  qed
qed (simp add: has_node_def)

lemma filter_prefixes_longest:
  assumes "filter P (prefixes key) \<noteq> []"
  shows "prefix (last (filter P (prefixes key))) key \<and> P (last (filter P (prefixes key))) \<and>
    (\<forall>q. prefix q key \<longrightarrow> P q \<longrightarrow> prefix q (last (filter P (prefixes key))))"
  using assms
proof (induction key arbitrary: P)
  case (Cons k ks)
  have f: "filter P (prefixes (k # ks)) =
      (if P [] then [[]] else []) @ map ((#) k) (filter (\<lambda>q. P (k # q)) (prefixes ks))"
    by (simp add: filter_map comp_def)
  show ?case
  proof (cases "filter (\<lambda>q. P (k # q)) (prefixes ks) = []")
    case True
    then have "\<forall>q. prefix q ks \<longrightarrow> \<not> P (k # q)" by (simp add: filter_empty_conv)
    then show ?thesis using Cons.prems unfolding f True
      by (auto simp: prefix_Cons split: if_splits)
  next
    case False
    then show ?thesis using Cons.IH [OF False] unfolding f
      by (auto simp: last_map prefix_Cons)
  qed
qed (auto split: if_splits)

text \<open>The node found by \<open>find (key)\<close> in closed form.\<close>

lemma trie_find_found:
  "fst (trie_find key t) =
    (let hits = filter (hit (\<lambda>_. True) t) (prefixes key) in if hits = [] then None else Some (last hits))"
  by (subst prefixes_Nil_tl)
    (simp add: trie_find_def find_loop_spec Let_def hit_Nil split: option.splits)

lemma trie_find_parts:
  assumes "trie_find key t = (f, r, l)"
  shows "r \<longleftrightarrow> has_node t key" and "has_node t key \<Longrightarrow> l = key"
    and "f = Some n \<Longrightarrow> trie_lookup t n \<noteq> None \<and> prefix n key"
    and "f = None \<Longrightarrow> prefix q key \<Longrightarrow> trie_lookup t q = None"
proof -
  have rl: "r = has_node t key" "l = last (filter (has_node t) (prefixes key))"
    using assms by (auto simp: trie_find_def find_loop_spec Let_def)
  show "r \<longleftrightarrow> has_node t key" by (rule rl)
  have ne: "filter (has_node t) (prefixes key) \<noteq> []" by (subst prefixes_Nil_tl) simp
  show "l = key" if "has_node t key"
    using that filter_prefixes_longest [OF ne] rl(2) by (auto intro: prefix_order.antisym)
  let ?h = "filter (hit (\<lambda>_. True) t) (prefixes key)"
  have f: "f = (if ?h = [] then None else Some (last ?h))"
    using trie_find_found [of key t] assms by (simp add: Let_def)
  have h: "hit (\<lambda>_. True) t q \<longleftrightarrow> trie_lookup t q \<noteq> None" for q
    by (simp add: hit_def split: option.split)
  show "trie_lookup t n \<noteq> None \<and> prefix n key" if "f = Some n"
    using that f filter_prefixes_longest [of "hit (\<lambda>_. True) t" key] h by (auto split: if_splits)
  show "trie_lookup t q = None" if "f = None" "prefix q key"
    using that f h by (auto simp: filter_empty_conv split: if_splits)
qed

section \<open>Any payload below a node\<close>

lemma find_any_sound:
  "find_any_if pred t = Some path \<Longrightarrow> trie_distinct t \<Longrightarrow> hit pred t path"
  "find_any_in pred cs = Some path \<Longrightarrow> \<forall>e\<in>set cs. trie_distinct (snd e) \<Longrightarrow>
    \<exists>k ks c. path = k # ks \<and> (k, c) \<in> set cs \<and> hit pred c ks"
proof (induction pred t and pred cs arbitrary: path and path rule: find_any_if_find_any_in.induct)
  case (1 pred i inc b cs p)
  show ?case
  proof (cases "case p of None \<Rightarrow> False | Some x \<Rightarrow> pred x")
    case True
    then show ?thesis using 1 by (auto simp: hit_Nil split: option.splits)
  next
    case False
    then obtain k ks c where "path = k # ks" "(k, c) \<in> set cs" "hit pred c ks"
      using 1 by auto
    then show ?thesis using 1(3) by (simp add: hit_Cons)
  qed
next
  case (3 pred k c cs)
  then show ?case by (fastforce split: option.splits)
qed simp

lemma find_any_complete:
  "find_any_if pred t = None \<Longrightarrow> \<not> hit pred t path"
  "find_any_in pred cs = None \<Longrightarrow> (k, c) \<in> set cs \<Longrightarrow> \<not> hit pred c path"
proof (induction pred t and pred cs arbitrary: path and k c path rule: find_any_if_find_any_in.induct)
  case (1 pred i inc b cs p)
  then show ?case
    by (cases path) (auto simp: hit_Nil hit_Cons split: option.splits if_splits dest!: map_of_SomeD)
qed (auto split: option.splits)

lemma find_any_alive: "trie_wf t \<Longrightarrow> \<not> dead t \<Longrightarrow> find_any t \<noteq> None"
proof (induction t)
  case (Trie i inc b cs p)
  show ?case
  proof (cases p)
    case None
    then obtain k c cs' where cs: "cs = (k, c) # cs'"
      using Trie.prems(2) by (cases cs) (auto simp: dead_def)
    then have "find_any c \<noteq> None"
      using Trie.IH [of "(k, c)" c] Trie.prems(1) by auto
    then show ?thesis using cs None by (auto simp: find_any_def split: option.splits)
  qed (simp add: find_any_def)
qed

section \<open>The recursive iterator\<close>

fun preorder :: "('k, 'p) trie \<Rightarrow> 'k list list"
  and preorder_in :: "('k, 'p) child_set \<Rightarrow> 'k list list"
where
  "preorder (Trie i inc b cs p) = [] # preorder_in cs"
| "preorder_in [] = []"
| "preorder_in ((k, c) # cs) = map ((#) k) (preorder c) @ preorder_in cs"

lemma next_key_split:
  "distinct (map fst (a @ (k, c) # b)) \<Longrightarrow>
    next_key k (a @ (k, c) # b) = (case b of [] \<Rightarrow> None | e # _ \<Rightarrow> Some (fst e))"
  by (induction a) (auto simp: next_key_def split: list.split)

lemma children_at_Nil [simp]: "children_at t [] = children t"
  by (simp add: children_at_def)

lemma children_at_Cons:
  "map_of (children t) k = Some c \<Longrightarrow> children_at t (k # p) = children_at c p"
  by (simp add: children_at_def)

lemma goUp_Nil [simp]: "goUp t [] = None"
  by (simp add: goUp.simps)

lemma goUp_Cons:
  assumes "map_of (children t) k = Some c"
  shows "goUp t (k # p) =
    (case goUp c p of Some q \<Rightarrow> Some (k # q) | None \<Rightarrow> map_option (\<lambda>j. [j]) (next_key k (children t)))"
proof (induction p rule: rev_induct)
  case Nil
  then show ?case by (subst goUp.simps) (simp split: option.splits)
next
  case (snoc j p)
  then show ?case
    by (subst (1 2) goUp.simps) (auto simp: children_at_Cons [OF assms] split: option.splits)
qed

lemma trie_next_Cons:
  assumes "map_of (children t) k = Some c"
  shows "trie_next t (k # p) =
    (case trie_next c p of Some q \<Rightarrow> Some (k # q) | None \<Rightarrow> map_option (\<lambda>j. [j]) (next_key k (children t)))"
  by (simp add: trie_next_def children_at_Cons [OF assms] goUp_Cons [OF assms] split: list.split)

lemma preorder_ne [simp]: "preorder t \<noteq> []"
  by (cases t) simp

lemma hd_preorder [simp]: "hd (preorder t) = []"
  by (cases t) simp

lemma preorder_in_ne: "preorder_in cs = [] \<longleftrightarrow> cs = []"
  by (cases cs) auto

lemma hd_preorder_in: "cs \<noteq> [] \<Longrightarrow> hd (preorder_in cs) = [fst (hd cs)]"
  by (cases cs) (auto simp: hd_append hd_map)

text \<open>Following \<open>++\<close> through the blocks of the children, one block after the other.\<close>

lemma preorder_in_chain:
  assumes "children t = a @ b" and "distinct (map fst (children t))"
    and "\<And>k c. (k, c) \<in> set b \<Longrightarrow>
      successively (\<lambda>x y. trie_next c x = Some y) (preorder c) \<and> trie_next c (last (preorder c)) = None"
  shows "successively (\<lambda>x y. trie_next t x = Some y) (preorder_in b) \<and>
    (b \<noteq> [] \<longrightarrow> trie_next t (last (preorder_in b)) = None)"
  using assms
proof (induction b arbitrary: a)
  case (Cons e b)
  obtain k c where e: "e = (k, c)" by (cases e)
  have m: "map_of (children t) k = Some c"
    using Cons.prems(1,2) e by (intro map_of_is_SomeI) auto
  have nk: "next_key k (children t) = (case b of [] \<Rightarrow> None | e # _ \<Rightarrow> Some (fst e))"
    using next_key_split [of a k c b] Cons.prems(1,2) e by simp
  note c = Cons.prems(3) [of k c, unfolded e, simplified]
  have block: "successively (\<lambda>x y. trie_next t x = Some y) (map ((#) k) (preorder c))"
    unfolding successively_map using c
    by (auto elim!: successively_mono simp: trie_next_Cons [OF m])
  have last: "trie_next t (last (map ((#) k) (preorder c))) =
      (case b of [] \<Rightarrow> None | e # _ \<Rightarrow> Some [fst e])"
    using c by (simp add: last_map trie_next_Cons [OF m] nk split: list.split)
  have rest: "successively (\<lambda>x y. trie_next t x = Some y) (preorder_in b) \<and>
      (b \<noteq> [] \<longrightarrow> trie_next t (last (preorder_in b)) = None)"
    using Cons.prems by (intro Cons.IH [of "a @ [e]"]) auto
  have "b \<noteq> [] \<Longrightarrow> trie_next t (last (map ((#) k) (preorder c))) = Some (hd (preorder_in b))"
    using last by (simp add: hd_preorder_in split: list.splits)
  then show ?case
    using block rest last by (cases b) (auto simp: e successively_append_iff preorder_in_ne)
qed simp

lemma preorder_chain:
  "trie_distinct t \<Longrightarrow>
    successively (\<lambda>x y. trie_next t x = Some y) (preorder t) \<and> trie_next t (last (preorder t)) = None"
proof (induction t)
  case (Trie i inc b cs p)
  let ?t = "Trie i inc b cs p"
  have "successively (\<lambda>x y. trie_next ?t x = Some y) (preorder_in cs) \<and>
      (cs \<noteq> [] \<longrightarrow> trie_next ?t (last (preorder_in cs)) = None)"
    using Trie by (intro preorder_in_chain [of _ "[]"]) force+
  moreover have "trie_next ?t [] = (if cs = [] then None else Some (hd (preorder_in cs)))"
    by (cases cs) (auto simp: trie_next_def hd_append hd_map)
  ultimately show ?case by (cases cs) (auto simp: successively_Cons preorder_in_ne)
qed

lemma preorder_in_nodes:
  assumes "\<And>k c. (k, c) \<in> set cs \<Longrightarrow> distinct (preorder c) \<and> set (preorder c) = {p. has_node c p}"
    and "distinct (map fst cs)"
  shows "distinct (preorder_in cs) \<and>
    set (preorder_in cs) = {path. \<exists>k p c. path = k # p \<and> map_of cs k = Some c \<and> has_node c p}"
  using assms
proof (induction cs)
  case (Cons e cs)
  obtain k c where e: "e = (k, c)" by (cases e)
  have c: "distinct (preorder c)" "set (preorder c) = {p. has_node c p}"
    using Cons.prems(1) [of k c] by (simp_all add: e)
  have k: "map_of cs k = None" using Cons.prems(2) e by (simp add: map_of_eq_None_iff)
  have IH: "distinct (preorder_in cs)"
    "set (preorder_in cs) = {path. \<exists>k p c. path = k # p \<and> map_of cs k = Some c \<and> has_node c p}"
    using Cons.IH Cons.prems by force+
  show ?case using k by (auto simp: e c IH distinct_map split: if_splits) (metis option.distinct(1))
qed simp

lemma preorder_nodes:
  "trie_distinct t \<Longrightarrow> distinct (preorder t) \<and> set (preorder t) = {path. has_node t path}"
proof (induction t)
  case (Trie i inc b cs p)
  have "distinct (preorder_in cs) \<and>
      set (preorder_in cs) = {path. \<exists>k p c. path = k # p \<and> map_of cs k = Some c \<and> has_node c p}"
    using Trie by (intro preorder_in_nodes) force+
  moreover have "has_node (Trie i inc b cs p) path \<longleftrightarrow>
      path = [] \<or> (\<exists>k q c. path = k # q \<and> map_of cs k = Some c \<and> has_node c q)" for path
    by (cases path) (auto simp: has_node_Cons split: option.splits)
  ultimately show ?case by auto
qed

section \<open>Correctness\<close>

text \<open>Property C10.  \<open>insert\<close> refines map update: it keeps the invariant of the trie
  (distinct keys, no dead node, bucket load), stores the payload exactly when the key had
  none, and changes no other entry; the returned flag tells which.\<close>

theorem trie_insert_refines:
  assumes "trie_wf t" and "trie_insert key (Some x) t = (t', node, ok)"
  shows "trie_wf t' \<and> node = key \<and> (ok \<longleftrightarrow> trie_lookup t key = None) \<and>
    trie_lookup t' = (if ok then (trie_lookup t)(key \<mapsto> x) else trie_lookup t)"
proof -
  let ?r = "insert_loop True (initialBucketSize t) (bucketIncrement t) key (Some x) t"
  have r: "t' = fst ?r" "node = key" "ok = snd ?r"
    using assms(2) by (auto simp: trie_insert_def split: prod.splits)
  have "0 < bucketIncrement t" using assms(1) trie_wf_iff [of t] by simp
  then show ?thesis
    using insert_loop_wf [OF assms(1)] r
    by (auto simp: fun_eq_iff insert_loop_lookup insert_loop_inserted)
qed

theorem trie_insert_refines_witness:
  "\<exists>t' node. trie_insert ''ab'' (Some (7::nat)) (new_trie 1 1) = (t', node, True) \<and> trie_wf t'
     \<and> trie_lookup t' ''ab'' = Some 7"
proof -
  obtain t' node ok where r: "trie_insert ''ab'' (Some (7::nat)) (new_trie 1 1) = (t', node, ok)"
    by (metis prod_cases3)
  show ?thesis
    using trie_insert_refines [OF _ r] r by (auto simp: trie_wf_new_trie lookup_new_trie)
qed

text \<open>Property C9.  Erasing an existing node by its pointer refines map deletion: exactly
  that entry disappears, and the upward pruning leaves no dead node behind.\<close>

theorem trie_erase_refines:
  assumes "trie_wf t" and "has_node t path"
  shows "trie_wf (fst (trie_erase path t)) \<and>
    trie_lookup (fst (trie_erase path t)) = (trie_lookup t)(path := None)"
proof -
  obtain n where n: "node_at t path = Some n" using assms(2) by (auto simp: has_node_def)
  note d = trie_wf_distinct [OF assms(1)]
  show ?thesis
    using erase_rec_wf [OF assms(1)] trie_erase_eq_rec [OF d n] trie_erase_lookup [OF d n]
    by (auto simp: fun_eq_iff)
qed

theorem trie_erase_refines_witness:
  "trie_wf (fst (trie_erase ''a'' (Trie 1 1 1 [(CHR ''a'', Trie 1 1 1 [] (Some (5::nat)))] None)))"
  using trie_erase_refines [of "Trie 1 1 1 [(CHR ''a'', Trie 1 1 1 [] (Some (5::nat)))] None" "''a''"]
  by (simp add: has_node_def dead_def)

text \<open>Property C36.  \<open>find (key)\<close> is the longest prefix match: the found node is the longest
  prefix of the key that holds a payload (null when there is none), the last node is the
  longest prefix that exists, and \<open>reachLast\<close> says whether that is the whole key.\<close>

theorem trie_find_longest:
  "trie_find key t = (found, reachLast, lastNode) \<Longrightarrow>
    (reachLast \<longleftrightarrow> has_node t key) \<and>
    prefix lastNode key \<and> has_node t lastNode \<and>
    (\<forall>q. prefix q key \<and> has_node t q \<longrightarrow> prefix q lastNode) \<and>
    (case found of
       None \<Rightarrow> \<forall>q. prefix q key \<longrightarrow> trie_lookup t q = None
     | Some f \<Rightarrow> prefix f key \<and> trie_lookup t f \<noteq> None \<and>
         (\<forall>q. prefix q key \<and> trie_lookup t q \<noteq> None \<longrightarrow> prefix q f))"
proof -
  assume a: "trie_find key t = (found, reachLast, lastNode)"
  have l: "lastNode = last (filter (has_node t) (prefixes key))" "reachLast = has_node t key"
    using a by (auto simp: trie_find_def find_loop_spec Let_def)
  have ne: "filter (has_node t) (prefixes key) \<noteq> []" by (subst prefixes_Nil_tl) simp
  let ?h = "filter (hit (\<lambda>_. True) t) (prefixes key)"
  have f: "found = (if ?h = [] then None else Some (last ?h))"
    using trie_find_found [of key t] a by (simp add: Let_def)
  have h: "hit (\<lambda>_. True) t q \<longleftrightarrow> trie_lookup t q \<noteq> None" for q
    by (simp add: hit_def split: option.split)
  show ?thesis
    using filter_prefixes_longest [OF ne] filter_prefixes_longest [of "hit (\<lambda>_. True) t" key] l f h
    by (auto simp: filter_empty_conv)
qed

theorem trie_find_longest_witness:
  "prefix ''a'' ''ab'' \<and>
   trie_lookup (Trie 1 1 1 [(CHR ''a'', Trie 1 1 1 [] (Some (5::nat)))] None) ''a'' \<noteq> None"
proof -
  have "trie_find ''ab'' (Trie 1 1 1 [(CHR ''a'', Trie 1 1 1 [] (Some (5::nat)))] None) =
      (Some ''a'', False, ''a'')"
    by (simp add: trie_find_def)
  from trie_find_longest [OF this] show ?thesis by simp
qed

text \<open>The recursive iterator started at the root visits every node of the trie
  exactly once, in pre-order, and then reaches the end.\<close>

theorem trie_iteration:
  "trie_wf t \<Longrightarrow>
    hd (preorder t) = [] \<and> distinct (preorder t) \<and> set (preorder t) = {path. has_node t path} \<and>
    successively (\<lambda>x y. trie_next t x = Some y) (preorder t) \<and> trie_next t (last (preorder t)) = None"
  using preorder_chain preorder_nodes trie_wf_distinct by auto

theorem trie_iteration_witness:
  "trie_next (Trie 1 1 1 [(CHR ''a'', Trie 1 1 1 [] (Some (5::nat)))] None) ''a'' = None"
  using trie_iteration [of "Trie 1 1 1 [(CHR ''a'', Trie 1 1 1 [] (Some (5::nat)))] None"]
  by (simp add: dead_def)

end
