(* ===== verification/Trie_Policy.thy ===== *)
theory Trie_Policy
  imports Name_Trie "HOL-Library.Multiset"
begin

text \<open>
  \<open>ndn.cxx/trie/trie-with-policy.h\<close> and \<open>ndn.cxx/trie/policies/*.h\<close>: a trie whose
  payload nodes are tracked by a replacement policy.  A policy keeps the nodes (paths) in
  an intrusive list or multiset; when it is full, its \<open>insert\<close> calls back into
  \<open>trie_with_policy::erase\<close> to evict the first node.  The contract between the two is the
  locale \<open>replacement_policy\<close>; each policy of the library is an interpretation of it.
\<close>

record ('s, 'k, 'p) table =
  tab_trie :: "('k, 'p) trie"
  tab_policy :: 's

text \<open>\<open>trie_with_policy::erase (iterator)\<close>: first the policy, then the node.\<close>

definition table_erase_node ::
  "('k list \<Rightarrow> 's \<Rightarrow> 's) \<Rightarrow> 'k list option \<Rightarrow> ('s, 'k, 'p) table \<Rightarrow> ('s, 'k, 'p) table" where
  "table_erase_node perase node tab =
     (case node of
        None \<Rightarrow> tab
      | Some n \<Rightarrow> tab\<lparr> tab_policy := perase n (tab_policy tab), tab_trie := fst (trie_erase n (tab_trie tab)) \<rparr>)"

section \<open>Policies over an intrusive list\<close>

record 'k list_policy =
  l_items :: "'k list list"
  l_max_size :: nat

definition list_policy_init :: "'k list_policy" where
  "list_policy_init = \<lparr> l_items = [], l_max_size = 100 \<rparr>"

definition list_erase :: "'k list \<Rightarrow> 'k list_policy \<Rightarrow> 'k list_policy" where
  "list_erase item s = s\<lparr> l_items := filter (\<lambda>x. x \<noteq> item) (l_items s) \<rparr>"

definition list_clear :: "'k list_policy \<Rightarrow> 'k list_policy" where
  "list_clear s = s\<lparr> l_items := [] \<rparr>"

definition list_set_max_size :: "nat \<Rightarrow> 'k list_policy \<Rightarrow> 'k list_policy" where
  "list_set_max_size n s = s\<lparr> l_max_size := n \<rparr>"

definition list_push_back :: "'k list \<Rightarrow> 'k list_policy \<Rightarrow> 'k list_policy" where
  "list_push_back item s = s\<lparr> l_items := l_items s @ [item] \<rparr>"

definition list_full :: "'k list_policy \<Rightarrow> bool" where
  "list_full s \<longleftrightarrow> l_max_size s \<noteq> 0 \<and> length (l_items s) \<ge> l_max_size s"

text \<open>The eviction of \<open>begin ()\<close> through the base, and the insertion at the end: LRU and FIFO.\<close>

definition evicting_insert ::
  "'k list \<Rightarrow> ('k list_policy, 'k, 'p) table \<Rightarrow> ('k list_policy, 'k, 'p) table \<times> bool" where
  "evicting_insert item tab =
     (let tab' = (if list_full (tab_policy tab)
                  then table_erase_node list_erase (Some (hd (l_items (tab_policy tab)))) tab
                  else tab)
      in (tab'\<lparr> tab_policy := list_push_back item (tab_policy tab') \<rparr>, True))"

definition lru_insert ::
  "'k list \<Rightarrow> ('k list_policy, 'k, 'p) table \<Rightarrow> ('k list_policy, 'k, 'p) table \<times> bool" where
  "lru_insert = evicting_insert"

text \<open>\<open>splice (end (), *this, item)\<close>.\<close>

definition lru_update :: "'k list \<Rightarrow> 'k list_policy \<Rightarrow> 'k list_policy" where
  "lru_update item s = s\<lparr> l_items := filter (\<lambda>x. x \<noteq> item) (l_items s) @ [item] \<rparr>"

definition lru_lookup :: "'k list \<Rightarrow> 'k list_policy \<Rightarrow> 'k list_policy" where
  "lru_lookup item s = s\<lparr> l_items := filter (\<lambda>x. x \<noteq> item) (l_items s) @ [item] \<rparr>"

definition fifo_insert ::
  "'k list \<Rightarrow> ('k list_policy, 'k, 'p) table \<Rightarrow> ('k list_policy, 'k, 'p) table \<times> bool" where
  "fifo_insert = evicting_insert"

definition fifo_update :: "'k list \<Rightarrow> 'k list_policy \<Rightarrow> 'k list_policy" where
  "fifo_update item s = s"

definition fifo_lookup :: "'k list \<Rightarrow> 'k list_policy \<Rightarrow> 'k list_policy" where
  "fifo_lookup item s = s"

definition persistent_insert ::
  "'k list \<Rightarrow> ('k list_policy, 'k, 'p) table \<Rightarrow> ('k list_policy, 'k, 'p) table \<times> bool" where
  "persistent_insert item tab =
     (if list_full (tab_policy tab) then (tab, False)
      else (tab\<lparr> tab_policy := list_push_back item (tab_policy tab) \<rparr>, True))"

definition persistent_update :: "'k list \<Rightarrow> 'k list_policy \<Rightarrow> 'k list_policy" where
  "persistent_update item s = s"

definition persistent_lookup :: "'k list \<Rightarrow> 'k list_policy \<Rightarrow> 'k list_policy" where
  "persistent_lookup item s = s"

text \<open>The counting policy has no \<open>max_size_\<close>: its container is its whole state.\<close>

definition counting_insert ::
  "'k list \<Rightarrow> ('k list list, 'k, 'p) table \<Rightarrow> ('k list list, 'k, 'p) table \<times> bool" where
  "counting_insert item tab = (tab\<lparr> tab_policy := tab_policy tab @ [item] \<rparr>, True)"

definition counting_update :: "'k list \<Rightarrow> 'k list list \<Rightarrow> 'k list list" where
  "counting_update item s = s"

definition counting_lookup :: "'k list \<Rightarrow> 'k list list \<Rightarrow> 'k list list" where
  "counting_lookup item s = s"

definition counting_erase :: "'k list \<Rightarrow> 'k list list \<Rightarrow> 'k list list" where
  "counting_erase item s = filter (\<lambda>x. x \<noteq> item) s"

definition counting_clear :: "'k list list \<Rightarrow> 'k list list" where
  "counting_clear s = []"

section \<open>Policies over an intrusive multiset\<close>

text \<open>
  A multiset ordered by a value kept in the hook of each node: the access frequency (LFU;
  a \<open>double\<close> that counts exactly up to \<open>2 ^ 53\<close>, here a natural number) or a random
  32-bit number.  \<open>insert\<close> puts an element behind the equal ones.
\<close>

record ('k, 'o) order_policy =
  o_items :: "('k list \<times> 'o) list"
  o_max_size :: nat

definition multiset_insert :: "'k list \<times> 'o::linorder \<Rightarrow> ('k list \<times> 'o) list \<Rightarrow> ('k list \<times> 'o) list" where
  "multiset_insert e xs =
     takeWhile (\<lambda>x. snd x \<le> snd e) xs @ e # dropWhile (\<lambda>x. snd x \<le> snd e) xs"

definition order_erase :: "'k list \<Rightarrow> ('k, 'o, 'z) order_policy_scheme \<Rightarrow> ('k, 'o, 'z) order_policy_scheme" where
  "order_erase item s = s\<lparr> o_items := filter (\<lambda>x. fst x \<noteq> item) (o_items s) \<rparr>"

definition order_clear :: "('k, 'o, 'z) order_policy_scheme \<Rightarrow> ('k, 'o, 'z) order_policy_scheme" where
  "order_clear s = s\<lparr> o_items := [] \<rparr>"

definition order_set_max_size :: "nat \<Rightarrow> ('k, 'o, 'z) order_policy_scheme \<Rightarrow> ('k, 'o, 'z) order_policy_scheme" where
  "order_set_max_size n s = s\<lparr> o_max_size := n \<rparr>"

definition order_full :: "('k, 'o, 'z) order_policy_scheme \<Rightarrow> bool" where
  "order_full s \<longleftrightarrow> o_max_size s \<noteq> 0 \<and> length (o_items s) \<ge> o_max_size s"

definition order_add :: "'k list \<times> 'o::linorder \<Rightarrow> ('k, 'o, 'z) order_policy_scheme \<Rightarrow> ('k, 'o, 'z) order_policy_scheme" where
  "order_add e s = s\<lparr> o_items := multiset_insert e (o_items s) \<rparr>"

text \<open>LFU: erase, add one to the frequency, insert again.\<close>

definition lfu_update :: "'k list \<Rightarrow> ('k, nat) order_policy \<Rightarrow> ('k, nat) order_policy" where
  "lfu_update item s =
     (case map_of (o_items s) item of
        None \<Rightarrow> s
      | Some f \<Rightarrow> order_add (item, f + 1) (order_erase item s))"

definition lfu_lookup :: "'k list \<Rightarrow> ('k, nat) order_policy \<Rightarrow> ('k, nat) order_policy" where
  "lfu_lookup item s =
     (case map_of (o_items s) item of
        None \<Rightarrow> s
      | Some f \<Rightarrow> order_add (item, f + 1) (order_erase item s))"

definition lfu_insert ::
  "'k list \<Rightarrow> (('k, nat) order_policy, 'k, 'p) table \<Rightarrow> (('k, nat) order_policy, 'k, 'p) table \<times> bool" where
  "lfu_insert item tab =
     (let tab' = (if order_full (tab_policy tab)
                  then table_erase_node order_erase (Some (fst (hd (o_items (tab_policy tab))))) tab
                  else tab)
      in (tab'\<lparr> tab_policy := order_add (item, 0) (tab_policy tab') \<rparr>, True))"

text \<open>The random policy: the values still to be drawn from \<open>u_rand\<close> are part of the state.\<close>

record 'k random_policy = "('k, uint32) order_policy" +
  u_rand :: "nat \<Rightarrow> uint32"

definition random_update :: "'k list \<Rightarrow> 'k random_policy \<Rightarrow> 'k random_policy" where
  "random_update item s = s"

definition random_lookup :: "'k list \<Rightarrow> 'k random_policy \<Rightarrow> 'k random_policy" where
  "random_lookup item s = s"

definition draw :: "'k random_policy \<Rightarrow> 'k random_policy" where
  "draw s = s\<lparr> u_rand := (\<lambda>n. u_rand s (Suc n)) \<rparr>"

definition random_insert ::
  "'k list \<Rightarrow> ('k random_policy, 'k, 'p) table \<Rightarrow> ('k random_policy, 'k, 'p) table \<times> bool" where
  "random_insert item tab =
     (let order = u_rand (tab_policy tab) 0;
          tab = tab\<lparr> tab_policy := draw (tab_policy tab) \<rparr>
      in if order_full (tab_policy tab) then
           (if order < snd (hd (o_items (tab_policy tab))) then (tab, False)
            else
              let tab' = table_erase_node order_erase (Some (fst (hd (o_items (tab_policy tab))))) tab
              in (tab'\<lparr> tab_policy := order_add (item, order) (tab_policy tab') \<rparr>, True))
         else (tab\<lparr> tab_policy := order_add (item, order) (tab_policy tab) \<rparr>, True))"

section \<open>The trie with a policy\<close>

text \<open>The operations take the policy's operations as arguments, as the class template does.\<close>

definition table_init :: "nat \<Rightarrow> nat \<Rightarrow> 's \<Rightarrow> ('s, 'k, 'p) table" where
  "table_init bucket inc pol = \<lparr> tab_trie = new_trie bucket inc, tab_policy = pol \<rparr>"

definition table_insert ::
  "('k list \<Rightarrow> ('s, 'k, 'p) table \<Rightarrow> ('s, 'k, 'p) table \<times> bool) \<Rightarrow> 'k list \<Rightarrow> 'p option \<Rightarrow>
   ('s, 'k, 'p) table \<Rightarrow> ('s, 'k, 'p) table \<times> 'k list option \<times> bool" where
  "table_insert pinsert key p tab =
     (case trie_insert key p (tab_trie tab) of
        (t, node, inserted) \<Rightarrow>
          let tab = tab\<lparr> tab_trie := t \<rparr> in
          if inserted then
            (case pinsert node tab of
               (tab', ok) \<Rightarrow>
                 if \<not> ok then (tab'\<lparr> tab_trie := fst (trie_erase node (tab_trie tab')) \<rparr>, None, False)
                 else (tab', Some node, True))
          else (tab, Some node, False))"

definition table_erase ::
  "('k list \<Rightarrow> 's \<Rightarrow> 's) \<Rightarrow> 'k list \<Rightarrow> ('s, 'k, 'p) table \<Rightarrow> ('s, 'k, 'p) table" where
  "table_erase perase key tab =
     (case trie_find key (tab_trie tab) of
        (foundItem, reachLast, lastItem) \<Rightarrow>
          if \<not> reachLast \<or> trie_lookup (tab_trie tab) lastItem = None then tab
          else table_erase_node perase (Some lastItem) tab)"

definition table_clear :: "('s \<Rightarrow> 's) \<Rightarrow> ('s, 'k, 'p) table \<Rightarrow> ('s, 'k, 'p) table" where
  "table_clear pclear tab = tab\<lparr> tab_policy := pclear (tab_policy tab), tab_trie := trie_clear (tab_trie tab) \<rparr>"

text \<open>
  The modifier works on the payload in place.  The result \<open>None\<close> stands for an iterator whose node is gone, which
  the code dereferences.
\<close>

definition table_modify ::
  "('k list \<Rightarrow> 's \<Rightarrow> 's) \<Rightarrow> 'k list option \<Rightarrow> ('p \<Rightarrow> 'p) \<Rightarrow> ('s, 'k, 'p) table \<Rightarrow>
   (('s, 'k, 'p) table \<times> bool) option" where
  "table_modify pupdate position f tab =
     (case position of
        None \<Rightarrow> Some (tab, False)
      | Some n \<Rightarrow>
          if \<not> has_node (tab_trie tab) n then None
          else (case trie_lookup (tab_trie tab) n of
             None \<Rightarrow> Some (tab, False)
           | Some p \<Rightarrow>
               Some (tab\<lparr> tab_trie := update_at n (set_payload (Some (f p))) (tab_trie tab),
                     tab_policy := pupdate n (tab_policy tab) \<rparr>, True)))"

definition find_exact :: "'k list \<Rightarrow> ('s, 'k, 'p) table \<Rightarrow> 'k list option" where
  "find_exact key tab =
     (case trie_find key (tab_trie tab) of
        (foundItem, reachLast, lastItem) \<Rightarrow>
          if \<not> reachLast \<or> trie_lookup (tab_trie tab) lastItem = None then None else Some lastItem)"

text \<open>\<open>policy_.lookup\<close> on the found item.\<close>

definition touch :: "('k list \<Rightarrow> 's \<Rightarrow> 's) \<Rightarrow> 'k list option \<Rightarrow> ('s, 'k, 'p) table \<Rightarrow> ('s, 'k, 'p) table" where
  "touch plookup item tab =
     (case item of None \<Rightarrow> tab | Some n \<Rightarrow> tab\<lparr> tab_policy := plookup n (tab_policy tab) \<rparr>)"

definition longest_prefix_match ::
  "('k list \<Rightarrow> 's \<Rightarrow> 's) \<Rightarrow> 'k list \<Rightarrow> ('s, 'k, 'p) table \<Rightarrow> ('s, 'k, 'p) table \<times> 'k list option" where
  "longest_prefix_match plookup key tab =
     (case trie_find key (tab_trie tab) of (foundItem, _, _) \<Rightarrow> (touch plookup foundItem tab, foundItem))"

definition longest_prefix_match_if ::
  "('k list \<Rightarrow> 's \<Rightarrow> 's) \<Rightarrow> 'k list \<Rightarrow> ('p \<Rightarrow> bool) \<Rightarrow> ('s, 'k, 'p) table \<Rightarrow> ('s, 'k, 'p) table \<times> 'k list option" where
  "longest_prefix_match_if plookup key pred tab =
     (case trie_find_if key pred (tab_trie tab) of (foundItem, _, _) \<Rightarrow> (touch plookup foundItem tab, foundItem))"

text \<open>
  \<open>deepest_prefix_match\<close>.  The result \<open>None\<close> stands for the call of \<open>policy_.lookup\<close> on
  a null pointer, which is undefined behaviour.
\<close>

definition deepest_prefix_match ::
  "('k list \<Rightarrow> 's \<Rightarrow> 's) \<Rightarrow> 'k list \<Rightarrow> ('s, 'k, 'p) table \<Rightarrow> (('s, 'k, 'p) table \<times> 'k list option) option" where
  "deepest_prefix_match plookup key tab =
     (case trie_find key (tab_trie tab) of
        (foundItem, reachLast, lastItem) \<Rightarrow>
          if reachLast then
            (let found =
               (if foundItem = None
                then map_option (\<lambda>q. lastItem @ q) (Option.bind (node_at (tab_trie tab) lastItem) find_any)
                else foundItem)
             in if found = None then None else Some (touch plookup found tab, found))
          else Some (tab, None))"

definition deepest_prefix_match_if ::
  "('k list \<Rightarrow> 's \<Rightarrow> 's) \<Rightarrow> 'k list \<Rightarrow> ('p \<Rightarrow> bool) \<Rightarrow> ('s, 'k, 'p) table \<Rightarrow> ('s, 'k, 'p) table \<times> 'k list option" where
  "deepest_prefix_match_if plookup key pred tab =
     (case trie_find key (tab_trie tab) of
        (_, reachLast, lastItem) \<Rightarrow>
          if reachLast then
            (let found = map_option (\<lambda>q. lastItem @ q) (Option.bind (node_at (tab_trie tab) lastItem) (find_any_if pred))
             in (touch plookup found tab, found))
          else (tab, None))"

text \<open>
  The public operations as steps, the size limit of \<open>getPolicy ()\<close> included; \<open>None\<close> is undefined behaviour.  \<open>erase\<close> of an
  iterator unlinks its node from the container of the policy, which holds only the nodes with a payload.
\<close>

datatype ('k, 'p) table_op =
    OpInsert "'k list" 'p
  | OpErase "'k list"
  | OpEraseNode "'k list option"
  | OpClear
  | OpModify "'k list option" "'p \<Rightarrow> 'p"
  | OpLongest "'k list"
  | OpLongestIf "'k list" "'p \<Rightarrow> bool"
  | OpDeepest "'k list"
  | OpDeepestIf "'k list" "'p \<Rightarrow> bool"
  | OpSetMaxSize nat

fun table_step ::
  "('k list \<Rightarrow> ('s, 'k, 'p) table \<Rightarrow> ('s, 'k, 'p) table \<times> bool) \<Rightarrow> ('k list \<Rightarrow> 's \<Rightarrow> 's) \<Rightarrow>
   ('k list \<Rightarrow> 's \<Rightarrow> 's) \<Rightarrow> ('k list \<Rightarrow> 's \<Rightarrow> 's) \<Rightarrow> ('s \<Rightarrow> 's) \<Rightarrow> (nat \<Rightarrow> 's \<Rightarrow> 's) \<Rightarrow>
   ('k, 'p) table_op \<Rightarrow> ('s, 'k, 'p) table \<Rightarrow> ('s, 'k, 'p) table option" where
  "table_step pi pu pl pe pc pm (OpInsert key x) tab = Some (fst (table_insert pi key (Some x) tab))"
| "table_step pi pu pl pe pc pm (OpErase key) tab = Some (table_erase pe key tab)"
| "table_step pi pu pl pe pc pm (OpEraseNode None) tab = Some tab"
| "table_step pi pu pl pe pc pm (OpEraseNode (Some n)) tab =
     (if trie_lookup (tab_trie tab) n = None then None else Some (table_erase_node pe (Some n) tab))"
| "table_step pi pu pl pe pc pm OpClear tab = Some (table_clear pc tab)"
| "table_step pi pu pl pe pc pm (OpModify pos f) tab = map_option fst (table_modify pu pos f tab)"
| "table_step pi pu pl pe pc pm (OpLongest key) tab = Some (fst (longest_prefix_match pl key tab))"
| "table_step pi pu pl pe pc pm (OpLongestIf key pred) tab = Some (fst (longest_prefix_match_if pl key pred tab))"
| "table_step pi pu pl pe pc pm (OpDeepest key) tab = map_option fst (deepest_prefix_match pl key tab)"
| "table_step pi pu pl pe pc pm (OpDeepestIf key pred) tab = Some (fst (deepest_prefix_match_if pl key pred tab))"
| "table_step pi pu pl pe pc pm (OpSetMaxSize n) tab = Some (tab\<lparr> tab_policy := pm n (tab_policy tab) \<rparr>)"

fun table_run ::
  "('k list \<Rightarrow> ('s, 'k, 'p) table \<Rightarrow> ('s, 'k, 'p) table \<times> bool) \<Rightarrow> ('k list \<Rightarrow> 's \<Rightarrow> 's) \<Rightarrow>
   ('k list \<Rightarrow> 's \<Rightarrow> 's) \<Rightarrow> ('k list \<Rightarrow> 's \<Rightarrow> 's) \<Rightarrow> ('s \<Rightarrow> 's) \<Rightarrow> (nat \<Rightarrow> 's \<Rightarrow> 's) \<Rightarrow>
   ('k, 'p) table_op list \<Rightarrow> ('s, 'k, 'p) table \<Rightarrow> ('s, 'k, 'p) table option" where
  "table_run pi pu pl pe pc pm [] tab = Some tab"
| "table_run pi pu pl pe pc pm (op # ops) tab =
     Option.bind (table_step pi pu pl pe pc pm op tab) (table_run pi pu pl pe pc pm ops)"

text \<open>
  An iterator that is handed to an operation denotes a node of the table: for \<open>modify\<close> any node, for \<open>erase\<close> one
  with a payload.
\<close>

fun iterator_ok :: "('k, 'p) table_op \<Rightarrow> ('s, 'k, 'p) table \<Rightarrow> bool" where
  "iterator_ok (OpModify (Some n) f) tab = has_node (tab_trie tab) n"
| "iterator_ok (OpEraseNode (Some n)) tab = (trie_lookup (tab_trie tab) n \<noteq> None)"
| "iterator_ok op tab = True"

fun iterators_ok ::
  "(('k, 'p) table_op \<Rightarrow> ('s, 'k, 'p) table \<Rightarrow> ('s, 'k, 'p) table option) \<Rightarrow> ('k, 'p) table_op list \<Rightarrow>
   ('s, 'k, 'p) table \<Rightarrow> bool" where
  "iterators_ok step [] tab = True"
| "iterators_ok step (op # ops) tab =
     (iterator_ok op tab \<and> (case step op tab of None \<Rightarrow> True | Some tab' \<Rightarrow> iterators_ok step ops tab'))"

text \<open>
  Steps that stay away from the root node: no entry for, and no deepest match of, the empty key.  With a bound \<open>b\<close> other
  than 0, the maximum is only set to a number up to \<open>b\<close>, and never to 0, which stands for no maximum.
\<close>

fun off_root :: "nat \<Rightarrow> ('k, 'p) table_op \<Rightarrow> bool" where
  "off_root b (OpInsert key x) = (key \<noteq> [])"
| "off_root b (OpDeepest key) = (key \<noteq> [])"
| "off_root b (OpSetMaxSize n) = (b \<noteq> 0 \<longrightarrow> 0 < n \<and> n \<le> b)"
| "off_root b op = True"

section \<open>The contract of a replacement policy\<close>

text \<open>
  \<open>keys\<close> are the tracked nodes, \<open>cap\<close> the maximum (0 for none) and \<open>pinv\<close> an
  invariant of the policy's own container.
\<close>

definition policy_full :: "('s \<Rightarrow> 'k list list) \<Rightarrow> ('s \<Rightarrow> nat) \<Rightarrow> 's \<Rightarrow> bool" where
  "policy_full keys cap s \<longleftrightarrow> cap s \<noteq> 0 \<and> cap s \<le> length (keys s)"

text \<open>The three outcomes of a policy's \<open>insert\<close>: refuse, add, or evict one and add.\<close>

definition insert_outcome ::
  "('s \<Rightarrow> 'k list list) \<Rightarrow> ('s \<Rightarrow> nat) \<Rightarrow> 'k list \<Rightarrow> ('s, 'k, 'p) table \<Rightarrow> ('s, 'k, 'p) table \<Rightarrow> bool \<Rightarrow> bool" where
  "insert_outcome keys cap k tab tab' ok \<longleftrightarrow>
     cap (tab_policy tab') = cap (tab_policy tab) \<and>
     (if \<not> policy_full keys cap (tab_policy tab) then
        ok \<and> tab_trie tab' = tab_trie tab \<and>
        mset (keys (tab_policy tab')) = mset (keys (tab_policy tab)) + {#k#}
      else if ok then
        \<exists>v \<in> set (keys (tab_policy tab)).
          tab_trie tab' = fst (trie_erase v (tab_trie tab)) \<and>
          mset (keys (tab_policy tab')) = mset (keys (tab_policy tab)) - {#v#} + {#k#}
      else tab_trie tab' = tab_trie tab \<and> mset (keys (tab_policy tab')) = mset (keys (tab_policy tab)))"

text \<open>
  What every operation keeps: the trie is well formed, the policy tracks exactly the entries, and with a bound \<open>b\<close> other
  than 0 neither the maximum nor the number of entries exceeds it.
\<close>

definition table_inv ::
  "('s \<Rightarrow> 'k list list) \<Rightarrow> ('s \<Rightarrow> nat) \<Rightarrow> ('s \<Rightarrow> bool) \<Rightarrow> nat \<Rightarrow> ('s, 'k, 'p) table \<Rightarrow> bool" where
  "table_inv keys cap pinv b tab \<longleftrightarrow>
     trie_wf (tab_trie tab) \<and> pinv (tab_policy tab) \<and>
     distinct (keys (tab_policy tab)) \<and> set (keys (tab_policy tab)) = dom (trie_lookup (tab_trie tab)) \<and>
     (b \<noteq> 0 \<longrightarrow> 0 < cap (tab_policy tab) \<and> cap (tab_policy tab) \<le> b \<and> length (keys (tab_policy tab)) \<le> b)"

lemma lookup_has_node: "trie_lookup t k \<noteq> None \<Longrightarrow> has_node t k"
  by (auto simp: trie_lookup_def has_node_def split: bind_splits)

lemma erase_some:
  assumes "trie_wf t" and "trie_lookup t v \<noteq> None"
  shows "trie_wf (fst (trie_erase v t))"
    and "trie_lookup (fst (trie_erase v t)) = (trie_lookup t)(v := None)"
proof -
  obtain n where n: "node_at t v = Some n"
    using lookup_has_node [OF assms(2)] by (auto simp: has_node_def)
  note d = trie_wf_distinct [OF assms(1)]
  show "trie_wf (fst (trie_erase v t))"
    using erase_rec_wf [OF assms(1)] trie_erase_eq_rec [OF d n] by simp
  show "trie_lookup (fst (trie_erase v t)) = (trie_lookup t)(v := None)"
    by (auto simp: fun_eq_iff trie_erase_lookup [OF d n])
qed

lemma insert_some:
  assumes "trie_wf t" and "trie_insert k (Some x) t = (t', node, ok)"
  shows "trie_wf t'" and "node = k" and "ok \<longleftrightarrow> trie_lookup t k = None"
    and "trie_lookup t' = (if ok then (trie_lookup t)(k \<mapsto> x) else trie_lookup t)"
proof -
  let ?r = "insert_loop True (initialBucketSize t) (bucketIncrement t) k (Some x) t"
  have r: "t' = fst ?r" "node = k" "ok = snd ?r"
    using assms(2) by (auto simp: trie_insert_def split: prod.splits)
  have inc: "0 < bucketIncrement t" using assms(1) trie_wf_iff [of t] by simp
  show "trie_wf t'" using insert_loop_wf [OF assms(1) inc] r by simp
  show "node = k" by (rule r)
  show "ok \<longleftrightarrow> trie_lookup t k = None" using r by (simp add: insert_loop_inserted)
  then show "trie_lookup t' = (if ok then (trie_lookup t)(k \<mapsto> x) else trie_lookup t)"
    using r by (auto simp: fun_eq_iff insert_loop_lookup)
qed

lemma update_payload_wf: "trie_wf t \<Longrightarrow> trie_wf (update_at n (set_payload (Some y)) t)"
proof (induction n arbitrary: t)
  case (Cons k n)
  show ?case
  proof (cases "map_of (children t) k")
    case (Some c)
    have "\<not> dead (update_at n (set_payload (Some y)) c)"
      using trie_wf_child [OF Cons.prems Some]
      by (cases n) (auto simp: dead_def set_child_def split: option.splits)
    then show ?thesis
      using Some Cons.IH trie_wf_child [OF Cons.prems Some] trie_wf_set_child [OF Cons.prems] by simp
  qed (use Cons.prems in simp)
qed simp

lemma lookup_append: "node_at t p = Some n \<Longrightarrow> trie_lookup t (p @ q) = trie_lookup n q"
  by (simp add: trie_lookup_def node_at_append)

lemma node_at_wf: "trie_wf t \<Longrightarrow> node_at t p = Some n \<Longrightarrow> trie_wf n \<and> (p \<noteq> [] \<longrightarrow> \<not> dead n)"
proof (induction p arbitrary: t)
  case (Cons k p)
  then obtain c where "map_of (children t) k = Some c" "node_at c p = Some n"
    by (auto split: option.splits)
  then show ?case using Cons.IH [of c] trie_wf_child [OF Cons.prems(1)] by (cases p) auto
qed simp

lemma find_any_if_lookup:
  assumes "trie_wf t" and "node_at t p = Some n" and "find_any_if pred n = Some q"
  shows "trie_lookup t (p @ q) \<noteq> None"
proof -
  have "trie_distinct n" using node_at_wf [OF assms(1,2)] trie_wf_distinct by blast
  then have "hit pred n q" by (rule find_any_sound(1) [OF assms(3)])
  then show ?thesis using lookup_append [OF assms(2)] by (auto simp: hit_def split: option.splits)
qed

lemma trie_find_if_found:
  assumes "trie_find_if key pred t = (Some n, r, l)"
  shows "trie_lookup t n \<noteq> None"
proof -
  let ?h = "filter (hit pred t) (tl (prefixes key))"
  have "?h = [] \<and> payload t \<noteq> None \<and> n = [] \<or> ?h \<noteq> [] \<and> n = last ?h"
    using assms by (auto simp: trie_find_if_def find_loop_spec Let_def split: if_splits)
  moreover have "?h \<noteq> [] \<Longrightarrow> hit pred t (last ?h)" using last_in_set [of ?h] by auto
  ultimately show ?thesis by (auto simp: hit_def split: option.splits)
qed

locale replacement_policy =
  fixes keys :: "'s \<Rightarrow> 'k list list"
    and cap :: "'s \<Rightarrow> nat"
    and pinv :: "'s \<Rightarrow> bool"
    and pinsert :: "'k list \<Rightarrow> ('s, 'k, 'p) table \<Rightarrow> ('s, 'k, 'p) table \<times> bool"
    and pupdate :: "'k list \<Rightarrow> 's \<Rightarrow> 's"
    and plookup :: "'k list \<Rightarrow> 's \<Rightarrow> 's"
    and perase :: "'k list \<Rightarrow> 's \<Rightarrow> 's"
    and pclear :: "'s \<Rightarrow> 's"
    and psize :: "nat \<Rightarrow> 's \<Rightarrow> 's"
  assumes update_keys: "pinv s \<Longrightarrow> distinct (keys s) \<Longrightarrow> k \<in> set (keys s) \<Longrightarrow>
        pinv (pupdate k s) \<and> mset (keys (pupdate k s)) = mset (keys s) \<and> cap (pupdate k s) = cap s"
    and lookup_keys: "pinv s \<Longrightarrow> distinct (keys s) \<Longrightarrow> k \<in> set (keys s) \<Longrightarrow>
        pinv (plookup k s) \<and> mset (keys (plookup k s)) = mset (keys s) \<and> cap (plookup k s) = cap s"
    and erase_keys: "pinv s \<Longrightarrow> distinct (keys s) \<Longrightarrow> k \<in> set (keys s) \<Longrightarrow>
        pinv (perase k s) \<and> mset (keys (perase k s)) = mset (keys s) - {#k#} \<and> cap (perase k s) = cap s"
    and clear_keys: "pinv s \<Longrightarrow> pinv (pclear s) \<and> keys (pclear s) = [] \<and> cap (pclear s) = cap s"
    and size_keys: "pinv s \<Longrightarrow> pinv (psize n s) \<and> keys (psize n s) = keys s \<and> (cap s \<noteq> 0 \<longrightarrow> cap (psize n s) = n)"
    and insert_keys: "pinv (tab_policy tab) \<Longrightarrow> distinct (keys (tab_policy tab)) \<Longrightarrow>
        k \<notin> set (keys (tab_policy tab)) \<Longrightarrow> pinsert k tab = (tab', ok) \<Longrightarrow>
        pinv (tab_policy tab') \<and> insert_outcome keys cap k tab tab' ok"
begin

abbreviation inv :: "nat \<Rightarrow> ('s, 'k, 'p) table \<Rightarrow> bool" where
  "inv \<equiv> table_inv keys cap pinv"

lemma mset_keys:
  assumes "mset xs = mset (ys :: 'k list list)"
  shows "set xs = set ys" "distinct xs = distinct ys" "length xs = length ys"
  using mset_eq_setD [OF assms] mset_eq_imp_distinct_iff [OF assms] mset_eq_length [OF assms] by blast+

lemma touch_inv: "inv b tab \<Longrightarrow> (\<And>n. item = Some n \<Longrightarrow> trie_lookup (tab_trie tab) n \<noteq> None) \<Longrightarrow> inv b (touch plookup item tab)"
proof (cases item)
  case (Some n)
  assume a: "inv b tab" and b: "\<And>n. item = Some n \<Longrightarrow> trie_lookup (tab_trie tab) n \<noteq> None"
  have "n \<in> set (keys (tab_policy tab))" using a b Some by (auto simp: table_inv_def)
  then have l: "pinv (plookup n (tab_policy tab))"
    "mset (keys (plookup n (tab_policy tab))) = mset (keys (tab_policy tab))"
    "cap (plookup n (tab_policy tab)) = cap (tab_policy tab)"
    using a lookup_keys by (auto simp: table_inv_def)
  show ?thesis using a Some l mset_keys [OF l(2)] by (simp add: table_inv_def touch_def)
qed (simp add: touch_def)

lemma erase_node_inv:
  assumes "inv b tab" and "trie_lookup (tab_trie tab) n \<noteq> None"
  shows "inv b (table_erase_node perase (Some n) tab)"
    and "trie_lookup (tab_trie (table_erase_node perase (Some n) tab)) = (trie_lookup (tab_trie tab))(n := None)"
proof -
  let ?s = "tab_policy tab"
  have n: "n \<in> set (keys ?s)" using assms by (auto simp: table_inv_def)
  have e: "pinv (perase n ?s)" "mset (keys (perase n ?s)) = mset (keys ?s) - {#n#}"
    "cap (perase n ?s) = cap ?s"
    using assms n erase_keys by (auto simp: table_inv_def)
  have r: "mset (keys (perase n ?s)) = mset (remove1 n (keys ?s))" using e by simp
  have d: "distinct (keys ?s)" using assms by (simp add: table_inv_def)
  show l: "trie_lookup (tab_trie (table_erase_node perase (Some n) tab)) = (trie_lookup (tab_trie tab))(n := None)"
    using erase_some [of "tab_trie tab" n] assms by (simp add: table_erase_node_def table_inv_def)
  show "inv b (table_erase_node perase (Some n) tab)"
    using assms e mset_keys [OF r] erase_some [of "tab_trie tab" n] d l
    by (auto simp: table_inv_def table_erase_node_def length_remove1)
qed

lemma erase_inv:
  assumes "inv b tab"
  shows "inv b (table_erase perase key tab)"
    and "trie_lookup (tab_trie (table_erase perase key tab)) = (trie_lookup (tab_trie tab))(key := None)"
proof -
  obtain f r l where f: "trie_find key (tab_trie tab) = (f, r, l)" by (metis prod_cases3)
  note p = trie_find_parts(1,2) [OF f]
  show "inv b (table_erase perase key tab)"
    using assms erase_node_inv(1) by (auto simp: table_erase_def f)
  show "trie_lookup (tab_trie (table_erase perase key tab)) = (trie_lookup (tab_trie tab))(key := None)"
    using erase_node_inv(2) [OF assms] p lookup_has_node [of "tab_trie tab" key]
    by (cases "trie_lookup (tab_trie tab) key") (auto simp: table_erase_def f fun_upd_idem)
qed

text \<open>The effect of \<open>insert\<close> on the stored map.\<close>

lemma insert_refused:
  assumes "inv b tab" and "trie_lookup (tab_trie tab) key \<noteq> None"
    and "table_insert pinsert key (Some x) tab = (tab', item, ok)"
  shows "inv b tab' \<and> \<not> ok \<and> item = Some key \<and> trie_lookup (tab_trie tab') = trie_lookup (tab_trie tab)"
proof -
  obtain t node i where t: "trie_insert key (Some x) (tab_trie tab) = (t, node, i)"
    by (metis prod_cases3)
  have "trie_wf (tab_trie tab)" using assms(1) by (simp add: table_inv_def)
  note n = insert_some [OF this t]
  show ?thesis using assms n t by (auto simp: table_insert_def table_inv_def Let_def)
qed

lemma insert_new:
  assumes inv: "inv b tab" and new: "trie_lookup (tab_trie tab) key = None"
    and ins: "table_insert pinsert key (Some x) tab = (tab', item, ok)"
  shows "inv b tab' \<and>
    (if \<not> ok then policy_full keys cap (tab_policy tab) \<and> item = None \<and>
       trie_lookup (tab_trie tab') = trie_lookup (tab_trie tab)
     else item = Some key \<and>
       (if policy_full keys cap (tab_policy tab)
        then \<exists>v. trie_lookup (tab_trie tab) v \<noteq> None \<and>
          trie_lookup (tab_trie tab') = ((trie_lookup (tab_trie tab))(v := None))(key \<mapsto> x)
        else trie_lookup (tab_trie tab') = (trie_lookup (tab_trie tab))(key \<mapsto> x)))"
proof -
  let ?m = "trie_lookup (tab_trie tab)" and ?s = "tab_policy tab"
  obtain t node i where t: "trie_insert key (Some x) (tab_trie tab) = (t, node, i)"
    by (metis prod_cases3)
  have wf: "trie_wf (tab_trie tab)" and pi: "pinv ?s" and d: "distinct (keys ?s)"
    and ks: "set (keys ?s) = dom ?m" and le: "b \<noteq> 0 \<longrightarrow> 0 < cap ?s \<and> cap ?s \<le> b \<and> length (keys ?s) \<le> b"
    using inv by (auto simp: table_inv_def)
  note n = insert_some [OF wf t]
  have i: i and m: "trie_lookup t = ?m(key \<mapsto> x)" and node: "node = key" using n new by auto
  obtain tab1 c where p: "pinsert key (tab\<lparr> tab_trie := t \<rparr>) = (tab1, c)" by fastforce
  have key: "key \<notin> set (keys ?s)" using ks new by auto
  have o: "pinv (tab_policy tab1)" "insert_outcome keys cap key (tab\<lparr> tab_trie := t \<rparr>) tab1 c"
    using insert_keys [OF _ _ _ p] pi d key by simp_all
  have r: "tab' = (if c then tab1 else tab1\<lparr> tab_trie := fst (trie_erase key (tab_trie tab1)) \<rparr>)"
    "item = (if c then Some key else None)" "ok = c"
    using ins t i p node by (auto simp: table_insert_def Let_def split: if_splits)
  show ?thesis
  proof (cases c)
    case False
    then have f: "policy_full keys cap ?s" "tab_trie tab1 = t"
      "mset (keys (tab_policy tab1)) = mset (keys ?s)" "cap (tab_policy tab1) = cap ?s"
      using o(2) by (auto simp: insert_outcome_def split: if_splits)
    have "?m(key := None) = ?m" using new by auto
    then have l: "trie_wf (tab_trie tab')" "trie_lookup (tab_trie tab') = ?m"
      using erase_some [OF n(1), of key] m f False r by auto
    show ?thesis
      using False r f o(1) l mset_keys [OF f(3)] d ks le by (simp add: table_inv_def)
  next
    case True
    show ?thesis
    proof (cases "policy_full keys cap ?s")
      case full: False
      then have f: "tab_trie tab1 = t" "mset (keys (tab_policy tab1)) = mset (key # keys ?s)"
        "cap (tab_policy tab1) = cap ?s"
        using o(2) True by (auto simp: insert_outcome_def)
      have "cap ?s \<noteq> 0 \<Longrightarrow> length (keys ?s) < cap ?s" using full by (simp add: policy_full_def)
      then show ?thesis
        using True full r f o(1) m n(1) mset_keys [OF f(2)] d ks key le by (auto simp: table_inv_def)
    next
      case full: True
      then obtain v where v: "v \<in> set (keys ?s)" "tab_trie tab1 = fst (trie_erase v t)"
        "mset (keys (tab_policy tab1)) = mset (key # remove1 v (keys ?s))" "cap (tab_policy tab1) = cap ?s"
        using o(2) True by (auto simp: insert_outcome_def)
      have vk: "v \<noteq> key" "?m v \<noteq> None" using v(1) ks new by auto
      then have l: "trie_wf (tab_trie tab1)" "trie_lookup (tab_trie tab1) = (?m(v := None))(key \<mapsto> x)"
        using erase_some [OF n(1), of v] m v(2) by (auto simp: fun_upd_twist)
      have "length (keys (tab_policy tab1)) = length (keys ?s)"
        using mset_keys(3) [OF v(3)] v(1) length_pos_if_in_set [OF v(1)] by (simp add: length_remove1)
      moreover have "set (keys (tab_policy tab1)) = insert key (dom ?m - {v})"
        using mset_keys(1) [OF v(3)] d ks by simp
      moreover have "distinct (keys (tab_policy tab1))"
        using mset_keys(2) [OF v(3)] d key by (auto dest: notin_set_remove1)
      ultimately have "inv b tab1" using l o(1) v(4) le vk by (auto simp: table_inv_def)
      then show ?thesis using True full r l vk by auto
    qed
  qed
qed

lemma clear_inv:
  assumes "inv b tab" and "trie_lookup (tab_trie tab) [] = None"
  shows "inv b (table_clear pclear tab)"
    and "trie_lookup (tab_trie (table_clear pclear tab)) = Map.empty"
proof -
  show l: "trie_lookup (tab_trie (table_clear pclear tab)) = Map.empty"
    using assms(2) by (auto simp: table_clear_def trie_clear_lookup)
  show "inv b (table_clear pclear tab)"
    using assms(1) clear_keys [of "tab_policy tab"] trie_wf_clear l
    by (auto simp: table_inv_def table_clear_def)
qed

lemma modify_inv:
  assumes "inv b tab" and "\<And>n. pos = Some n \<Longrightarrow> has_node (tab_trie tab) n"
  obtains tab' ok where "table_modify pupdate pos f tab = Some (tab', ok)" "inv b tab'"
    "trie_lookup (tab_trie tab') =
      (case pos of None \<Rightarrow> trie_lookup (tab_trie tab)
       | Some n \<Rightarrow> (trie_lookup (tab_trie tab))(n := map_option f (trie_lookup (tab_trie tab) n)))"
proof (cases "\<exists>n p. pos = Some n \<and> trie_lookup (tab_trie tab) n = Some p")
  case True
  let ?m = "trie_lookup (tab_trie tab)" and ?s = "tab_policy tab"
  obtain n p where n: "pos = Some n" "?m n = Some p" using True by blast
  let ?tab = "tab\<lparr> tab_trie := update_at n (set_payload (Some (f p))) (tab_trie tab), tab_policy := pupdate n ?s \<rparr>"
  have up: "trie_lookup (tab_trie ?tab) = ?m(n \<mapsto> f p)"
    using assms(2) n by (auto simp: trie_lookup_update_payload has_node_def)
  have "n \<in> set (keys ?s)" using n assms(1) by (auto simp: table_inv_def)
  then have u: "pinv (pupdate n ?s)" "mset (keys (pupdate n ?s)) = mset (keys ?s)" "cap (pupdate n ?s) = cap ?s"
    using assms(1) update_keys by (auto simp: table_inv_def)
  have "trie_wf (tab_trie ?tab)" using assms(1) by (simp add: update_payload_wf table_inv_def)
  then have "inv b ?tab" using assms(1) n up u(1,3) mset_keys [OF u(2)] by (auto simp: table_inv_def)
  then show ?thesis using assms(2) n up by (intro that [of ?tab True]) (auto simp: table_modify_def)
next
  case False
  then show ?thesis
    using assms by (intro that [of tab False]) (auto simp: table_modify_def fun_upd_idem split: option.splits)
qed

lemma longest_prefix_match_inv:
  assumes "inv b tab"
  shows "inv b (fst (longest_prefix_match plookup key tab))"
    and "tab_trie (fst (longest_prefix_match plookup key tab)) = tab_trie tab"
proof -
  obtain f r l where f: "trie_find key (tab_trie tab) = (f, r, l)" by (metis prod_cases3)
  show "inv b (fst (longest_prefix_match plookup key tab))"
    using trie_find_parts(3) [OF f] touch_inv [OF assms] by (simp add: longest_prefix_match_def f)
  show "tab_trie (fst (longest_prefix_match plookup key tab)) = tab_trie tab"
    by (simp add: longest_prefix_match_def f touch_def split: option.splits)
qed

lemma longest_prefix_match_if_inv:
  assumes "inv b tab"
  shows "inv b (fst (longest_prefix_match_if plookup key pred tab))"
    and "tab_trie (fst (longest_prefix_match_if plookup key pred tab)) = tab_trie tab"
proof -
  obtain f r l where f: "trie_find_if key pred (tab_trie tab) = (f, r, l)" by (metis prod_cases3)
  show "inv b (fst (longest_prefix_match_if plookup key pred tab))"
    using trie_find_if_found [of key pred "tab_trie tab" _ r l] f
    by (auto simp: longest_prefix_match_if_def intro!: touch_inv [OF assms])
  show "tab_trie (fst (longest_prefix_match_if plookup key pred tab)) = tab_trie tab"
    by (simp add: longest_prefix_match_if_def f touch_def split: option.splits)
qed

lemma deepest_prefix_match_if_inv:
  assumes "inv b tab"
  shows "inv b (fst (deepest_prefix_match_if plookup key pred tab))"
    and "tab_trie (fst (deepest_prefix_match_if plookup key pred tab)) = tab_trie tab"
proof -
  obtain f r l where f: "trie_find key (tab_trie tab) = (f, r, l)" by (metis prod_cases3)
  have wf: "trie_wf (tab_trie tab)" using assms by (simp add: table_inv_def)
  show "inv b (fst (deepest_prefix_match_if plookup key pred tab))"
    using assms find_any_if_lookup [OF wf]
    by (auto simp: deepest_prefix_match_if_def f Let_def split: bind_splits intro!: touch_inv)
  show "tab_trie (fst (deepest_prefix_match_if plookup key pred tab)) = tab_trie tab"
    by (auto simp: deepest_prefix_match_if_def f touch_def Let_def split: option.splits)
qed

lemma deepest_prefix_match_inv:
  assumes "inv b tab" and "key \<noteq> [] \<or> (\<exists>k. trie_lookup (tab_trie tab) k \<noteq> None)"
  obtains tab' item where "deepest_prefix_match plookup key tab = Some (tab', item)"
    "inv b tab'" "tab_trie tab' = tab_trie tab" "item = None \<longleftrightarrow> \<not> has_node (tab_trie tab) key"
proof -
  obtain f r l where f: "trie_find key (tab_trie tab) = (f, r, l)" by (metis prod_cases3)
  note p = trie_find_parts [OF f]
  have wf: "trie_wf (tab_trie tab)" using assms by (simp add: table_inv_def)
  show ?thesis
  proof (cases r)
    case False
    then show ?thesis using assms p f by (intro that [of tab None]) (auto simp: deepest_prefix_match_def)
  next
    case True
    then obtain n where n: "node_at (tab_trie tab) key = Some n" "l = key"
      using p by (auto simp: has_node_def)
    have "find_any n \<noteq> None"
    proof (cases "key = []")
      case True
      then obtain k where "trie_lookup n k \<noteq> None" using assms(2) n by auto
      then have "hit (\<lambda>_. True) n k" by (auto simp: hit_def)
      then show ?thesis using find_any_complete(1) [of "\<lambda>_. True" n k] by (auto simp: find_any_def)
    qed (use n find_any_alive node_at_wf [OF wf] in blast)
    then obtain q where q: "find_any n = Some q" by blast
    define item where "item = (if f = None then key @ q else the f)"
    have "trie_lookup (tab_trie tab) item \<noteq> None"
      using p(3) find_any_if_lookup [OF wf n(1)] q by (auto simp: item_def find_any_def)
    then have "inv b (touch plookup (Some item) tab)" by (intro touch_inv assms) auto
    moreover have "tab_trie (touch plookup (Some item) tab) = tab_trie tab" by (simp add: touch_def)
    moreover have "deepest_prefix_match plookup key tab = Some (touch plookup (Some item) tab, Some item)"
      using True f n q by (auto simp: deepest_prefix_match_def item_def Let_def)
    ultimately show ?thesis using True p(1)
      by (intro that [of "touch plookup (Some item) tab" "Some item"]) auto
  qed
qed

lemma step_inv:
  assumes inv: "inv b tab" and root: "trie_lookup (tab_trie tab) [] = None" and op: "off_root b op" and it: "iterator_ok op tab"
  shows "\<exists>tab'. table_step pinsert pupdate plookup perase pclear psize op tab = Some tab' \<and> inv b tab' \<and>
    trie_lookup (tab_trie tab') [] = None"
proof (cases op)
  case (OpInsert key x)
  obtain tab' i ok where r: "table_insert pinsert key (Some x) tab = (tab', i, ok)" by (metis prod_cases3)
  have "inv b tab' \<and> trie_lookup (tab_trie tab') [] = None"
    using insert_refused [OF inv _ r] insert_new [OF inv _ r] op root OpInsert
    by (cases "trie_lookup (tab_trie tab) key") (auto simp del: lookup_Nil split: if_splits)
  then show ?thesis using OpInsert r by simp
next
  case (OpDeepest key)
  then show ?thesis using op root deepest_prefix_match_inv [OF inv, of key] by fastforce
next
  case (OpModify pos f)
  then have "\<And>n. pos = Some n \<Longrightarrow> has_node (tab_trie tab) n" using it by simp
  from modify_inv [OF inv this, where f = f] obtain tab' ok where "table_modify pupdate pos f tab = Some (tab', ok)" "inv b tab'"
      "trie_lookup (tab_trie tab') = (case pos of None \<Rightarrow> trie_lookup (tab_trie tab)
       | Some n \<Rightarrow> (trie_lookup (tab_trie tab))(n := map_option f (trie_lookup (tab_trie tab) n)))"
    by metis
  then show ?thesis using OpModify root by (auto simp del: lookup_Nil split: option.split)
next
  case (OpEraseNode pos)
  then show ?thesis using it inv root erase_node_inv [OF inv] by (cases pos) (auto simp del: lookup_Nil)
next
  case (OpSetMaxSize n)
  then show ?thesis using inv op root size_keys [of "tab_policy tab" n] by (auto simp del: lookup_Nil simp: table_inv_def)
qed (use inv root in \<open>auto simp del: lookup_Nil simp: erase_inv clear_inv longest_prefix_match_inv
    longest_prefix_match_if_inv deepest_prefix_match_if_inv\<close>)

lemma run_inv:
  "inv b tab \<Longrightarrow> trie_lookup (tab_trie tab) [] = None \<Longrightarrow> (\<And>op. op \<in> set ops \<Longrightarrow> off_root b op) \<Longrightarrow>
    iterators_ok (table_step pinsert pupdate plookup perase pclear psize) ops tab \<Longrightarrow>
    \<exists>tab'. table_run pinsert pupdate plookup perase pclear psize ops tab = Some tab' \<and> inv b tab'"
proof (induction ops arbitrary: tab)
  case (Cons op ops)
  then obtain tab1 where t: "table_step pinsert pupdate plookup perase pclear psize op tab = Some tab1"
      "inv b tab1" "trie_lookup (tab_trie tab1) [] = None"
    using step_inv [of b tab op] by auto
  then show ?case using Cons.IH [of tab1] Cons.prems by auto
qed simp

end

section \<open>The policies fulfil the contract\<close>

lemma mset_filter_ne: "distinct xs \<Longrightarrow> x \<in> set xs \<Longrightarrow> {#y \<in># mset xs. y \<noteq> x#} = mset xs - {#x#}"
  by (rule multiset_eqI) (auto simp: distinct_count_atmost_1)

lemma list_full_policy_full: "list_full s = policy_full l_items l_max_size s"
  by (simp add: list_full_def policy_full_def)

lemma evicting_insert_outcome:
  assumes "distinct (l_items (tab_policy tab))" and "evicting_insert k tab = (tab', ok)"
  shows "insert_outcome l_items l_max_size k tab tab' ok"
proof (cases "list_full (tab_policy tab)")
  case True
  let ?xs = "l_items (tab_policy tab)"
  have ne: "hd ?xs \<in> set ?xs" using True by (intro hd_in_set) (auto simp: list_full_def)
  then show ?thesis
    using assms True mset_filter_ne [OF assms(1) ne]
    by (auto simp: evicting_insert_def insert_outcome_def list_full_policy_full Let_def table_erase_node_def
        list_erase_def list_push_back_def intro!: bexI [of _ "hd ?xs"])
next
  case False
  then show ?thesis
    using assms by (auto simp: evicting_insert_def insert_outcome_def list_full_policy_full Let_def list_push_back_def)
qed

interpretation lru: replacement_policy l_items l_max_size "\<lambda>_. True"
    lru_insert lru_update lru_lookup list_erase list_clear list_set_max_size
  by unfold_locales
    (auto simp: list_set_max_size_def lru_insert_def lru_update_def lru_lookup_def list_erase_def list_clear_def mset_filter_ne
      intro: evicting_insert_outcome)

interpretation fifo: replacement_policy l_items l_max_size "\<lambda>_. True"
    fifo_insert fifo_update fifo_lookup list_erase list_clear list_set_max_size
  by unfold_locales
    (auto simp: list_set_max_size_def fifo_insert_def fifo_update_def fifo_lookup_def list_erase_def list_clear_def mset_filter_ne
      intro: evicting_insert_outcome)

interpretation persistent: replacement_policy l_items l_max_size "\<lambda>_. True"
    persistent_insert persistent_update persistent_lookup list_erase list_clear list_set_max_size
  by unfold_locales
    (auto simp: list_set_max_size_def persistent_insert_def persistent_update_def persistent_lookup_def list_erase_def list_clear_def
      mset_filter_ne insert_outcome_def list_full_policy_full list_push_back_def split: if_splits)

interpretation counting: replacement_policy "\<lambda>s. s" "\<lambda>_. 0" "\<lambda>_. True"
    counting_insert counting_update counting_lookup counting_erase counting_clear "\<lambda>n s. s"
  by unfold_locales
    (auto simp: counting_insert_def counting_update_def counting_lookup_def counting_erase_def counting_clear_def
      mset_filter_ne insert_outcome_def policy_full_def)

subsection \<open>Ordered policies\<close>

definition order_keys :: "('k, 'o, 'z) order_policy_scheme \<Rightarrow> 'k list list" where
  "order_keys s = map fst (o_items s)"

text \<open>The multiset is in ascending order of the hook values.\<close>

definition order_sorted :: "('k, 'o::linorder, 'z) order_policy_scheme \<Rightarrow> bool" where
  "order_sorted s = sorted (map snd (o_items s))"

lemma mset_multiset_insert: "mset (multiset_insert e xs) = add_mset e (mset xs)"
  by (simp add: multiset_insert_def) (metis mset_append takeWhile_dropWhile_id)

lemma set_multiset_insert [simp]: "set (multiset_insert e xs) = insert e (set xs)"
  using arg_cong [OF mset_multiset_insert [of e xs], of set_mset] by simp

lemma sorted_multiset_insert: "sorted (map snd xs) \<Longrightarrow> sorted (map snd (multiset_insert e xs))"
proof (induction xs)
  case Nil
  then show ?case by (simp add: multiset_insert_def)
next
  case (Cons x xs)
  show ?case
  proof (cases "snd x \<le> snd e")
    case True
    then have "multiset_insert e (x # xs) = x # multiset_insert e xs" by (simp add: multiset_insert_def)
    then show ?thesis using Cons True by auto
  next
    case False
    then have "multiset_insert e (x # xs) = e # x # xs" by (simp add: multiset_insert_def)
    then show ?thesis using Cons.prems False by auto
  qed
qed

lemma order_full_policy_full: "order_full s = policy_full order_keys o_max_size s"
  by (simp add: order_full_def policy_full_def order_keys_def)

lemma order_add_keys: "mset (order_keys (order_add e s)) = add_mset (fst e) (mset (order_keys s))"
  by (simp add: order_add_def order_keys_def flip: mset_map) (simp add: mset_multiset_insert)

lemma order_erase_keys:
  "distinct (order_keys s) \<Longrightarrow> k \<in> set (order_keys s) \<Longrightarrow>
    mset (order_keys (order_erase k s)) = mset (order_keys s) - {#k#}"
  using mset_filter_ne [of "order_keys s" k] by (simp add: order_erase_def order_keys_def filter_mset_image_mset)

lemma order_add_sorted: "order_sorted s \<Longrightarrow> order_sorted (order_add e s)"
  by (simp add: order_sorted_def order_add_def sorted_multiset_insert)

lemma order_erase_sorted: "order_sorted s \<Longrightarrow> order_sorted (order_erase k s)"
  by (simp add: order_sorted_def order_erase_def sorted_filter)

lemmas order_facts = order_add_keys order_erase_keys order_add_sorted order_erase_sorted

lemma order_simps [simp]:
  "o_max_size (order_add e s) = o_max_size s"
  "o_max_size (order_erase k s) = o_max_size s"
  "o_max_size (order_clear s) = o_max_size s"
  "order_keys (order_clear s) = []"
  "order_sorted (order_clear s)"
  "o_max_size (order_set_max_size n s) = n"
  "order_keys (order_set_max_size n s) = order_keys s"
  "order_sorted (order_set_max_size n s) = order_sorted s"
  by (simp_all add: order_set_max_size_def order_add_def order_erase_def order_keys_def order_clear_def order_sorted_def)

text \<open>Evicting the front of the multiset and adding the new element.\<close>

lemma order_evict_outcome:
  fixes s :: "('k, 'o::linorder, 'z) order_policy_scheme"
  assumes "order_sorted s" "distinct (order_keys s)" "order_full s"
  shows "order_sorted (order_add (k, f) (order_erase (fst (hd (o_items s))) s))"
    and "fst (hd (o_items s)) \<in> set (order_keys s)"
    and "mset (order_keys (order_add (k, f) (order_erase (fst (hd (o_items s))) s))) =
      add_mset k (mset (order_keys s) - {#fst (hd (o_items s))#})"
proof -
  show m: "fst (hd (o_items s)) \<in> set (order_keys s)"
    using assms(3) by (cases "o_items s") (auto simp: order_full_def order_keys_def)
  show "order_sorted (order_add (k, f) (order_erase (fst (hd (o_items s))) s))"
    using assms(1) by (intro order_add_sorted order_erase_sorted)
  show "mset (order_keys (order_add (k, f) (order_erase (fst (hd (o_items s))) s))) =
      add_mset k (mset (order_keys s) - {#fst (hd (o_items s))#})"
    using order_erase_keys [OF assms(2) m] by (simp add: order_add_keys)
qed

lemma lfu_update_keys:
  assumes "order_sorted s" "distinct (order_keys s)" "k \<in> set (order_keys s)"
  shows "order_sorted (lfu_update k s) \<and> mset (order_keys (lfu_update k s)) = mset (order_keys s) \<and>
    o_max_size (lfu_update k s) = o_max_size s"
proof -
  obtain f where f: "map_of (o_items s) k = Some f"
    using assms(3) by (metis map_of_eq_None_iff not_None_eq order_keys_def set_map)
  show ?thesis
    using assms f order_erase_keys [OF assms(2,3)]
    by (simp add: lfu_update_def order_add_keys order_add_sorted order_erase_sorted)
qed

lemma lfu_insert_keys:
  assumes "order_sorted (tab_policy tab)" "distinct (order_keys (tab_policy tab))" "lfu_insert k tab = (tab', ok)"
  shows "order_sorted (tab_policy tab') \<and> insert_outcome order_keys o_max_size k tab tab' ok"
proof (cases "order_full (tab_policy tab)")
  case True
  note e = order_evict_outcome [OF assms(1,2) True]
  show ?thesis
    using assms(3) True e
    by (auto simp: lfu_insert_def insert_outcome_def order_full_policy_full Let_def table_erase_node_def)
next
  case False
  then show ?thesis
    using assms by (auto simp: lfu_insert_def insert_outcome_def order_full_policy_full Let_def
        order_add_keys order_add_sorted)
qed

interpretation lfu: replacement_policy order_keys o_max_size order_sorted
    lfu_insert lfu_update lfu_lookup order_erase order_clear order_set_max_size
proof unfold_locales
  fix s :: "('a, nat) order_policy" and k :: "'a list"
  assume s: "order_sorted s" "distinct (order_keys s)" "k \<in> set (order_keys s)"
  show "order_sorted (lfu_update k s) \<and> mset (order_keys (lfu_update k s)) = mset (order_keys s) \<and>
      o_max_size (lfu_update k s) = o_max_size s"
    by (rule lfu_update_keys [OF s])
  then show "order_sorted (lfu_lookup k s) \<and> mset (order_keys (lfu_lookup k s)) = mset (order_keys s) \<and>
      o_max_size (lfu_lookup k s) = o_max_size s"
    by (simp add: lfu_lookup_def lfu_update_def)
qed (simp_all add: order_erase_keys order_erase_sorted lfu_insert_keys)

lemma draw_simps [simp]:
  "o_items (draw s) = o_items s" "o_max_size (draw s) = o_max_size s" "order_keys (draw s) = order_keys s"
  "order_sorted (draw s) = order_sorted s" "order_full (draw s) = order_full s"
  by (simp_all add: draw_def order_keys_def order_sorted_def order_full_def)

lemma random_insert_keys:
  assumes "order_sorted (tab_policy tab)" "distinct (order_keys (tab_policy tab))" "random_insert k tab = (tab', ok)"
  shows "order_sorted (tab_policy tab') \<and> insert_outcome order_keys o_max_size k tab tab' ok"
proof (cases "order_full (tab_policy tab)")
  case True
  have "order_sorted (draw (tab_policy tab))" "distinct (order_keys (draw (tab_policy tab)))"
    "order_full (draw (tab_policy tab))"
    using assms True by simp_all
  note e = order_evict_outcome [OF this]
  show ?thesis
    using assms True e
    by (auto simp: random_insert_def insert_outcome_def order_full_policy_full [symmetric] Let_def
        table_erase_node_def split: if_splits)
next
  case False
  then show ?thesis
    using assms by (auto simp: random_insert_def insert_outcome_def order_full_policy_full [symmetric] Let_def
        order_add_keys order_add_sorted)
qed

interpretation random: replacement_policy order_keys o_max_size order_sorted
    random_insert random_update random_lookup order_erase order_clear order_set_max_size
  by unfold_locales
    (simp_all add: random_update_def random_lookup_def order_erase_keys order_erase_sorted random_insert_keys)

section \<open>Correctness of the tables\<close>

lemma table_init_inv:
  "0 < inc \<Longrightarrow> pinv pol \<Longrightarrow> keys pol = [] \<Longrightarrow> b \<noteq> 0 \<longrightarrow> 0 < cap pol \<and> cap pol \<le> b \<Longrightarrow>
    table_inv keys cap pinv b (table_init bucket inc pol)"
  by (simp add: table_inv_def table_init_def trie_wf_new_trie lookup_new_trie dom_def)

lemma table_init_root: "trie_lookup (tab_trie (table_init b inc pol)) [] = None"
  by (simp add: table_init_def)

text \<open>
  A run whose iterators denote nodes of the table at the time of their use ends without undefined behaviour, and what
  the operations keep holds behind it.
\<close>

definition table_safe ::
  "('s \<Rightarrow> 'k list list) \<Rightarrow> ('s \<Rightarrow> nat) \<Rightarrow> ('s \<Rightarrow> bool) \<Rightarrow>
   ('k list \<Rightarrow> ('s, 'k, 'p) table \<Rightarrow> ('s, 'k, 'p) table \<times> bool) \<Rightarrow> ('k list \<Rightarrow> 's \<Rightarrow> 's) \<Rightarrow>
   ('k list \<Rightarrow> 's \<Rightarrow> 's) \<Rightarrow> ('k list \<Rightarrow> 's \<Rightarrow> 's) \<Rightarrow> ('s \<Rightarrow> 's) \<Rightarrow> (nat \<Rightarrow> 's \<Rightarrow> 's) \<Rightarrow>
   nat \<Rightarrow> ('k, 'p) table_op list \<Rightarrow> ('s, 'k, 'p) table \<Rightarrow> bool" where
  "table_safe keys cap pinv pi pu pl pe pc pm b ops tab \<longleftrightarrow>
     iterators_ok (table_step pi pu pl pe pc pm) ops tab \<longrightarrow>
     (\<exists>t. table_run pi pu pl pe pc pm ops tab = Some t \<and> table_inv keys cap pinv b t)"

text \<open>Property C3.  From an empty table, no sequence of operations reaches undefined behaviour, and after it,
  for each of the six policies, the trie is well formed and the policy tracks exactly the stored
  entries.  The operations are insertion of a payload, erasure by key and by iterator, clearing, modification,
  the four prefix matches and a change of the maximum.  They stay off the root node, and iterators denote nodes that
  exist when they are used: \<open>modify\<close> and \<open>erase\<close> dereference a stale iterator, and \<open>erase\<close> one without a
  payload.  The number of entries stays within \<open>b\<close> when the maximum is set at first, and whenever it is set, to a
  number between 1 and \<open>b\<close>; with \<open>b\<close> = 0 nothing is said of the number (the counting policy has no maximum).\<close>

theorem table_run_safe:
  assumes "0 < inc" and "\<forall>op \<in> set ops. off_root b op" and "b \<noteq> 0 \<longrightarrow> 0 < m \<and> m \<le> b"
  shows "table_safe l_items l_max_size (\<lambda>_. True) lru_insert lru_update lru_lookup list_erase list_clear list_set_max_size
      b ops (table_init bucket inc \<lparr> l_items = [], l_max_size = m \<rparr>) \<and>
    table_safe l_items l_max_size (\<lambda>_. True) fifo_insert fifo_update fifo_lookup list_erase list_clear list_set_max_size
      b ops (table_init bucket inc \<lparr> l_items = [], l_max_size = m \<rparr>) \<and>
    table_safe l_items l_max_size (\<lambda>_. True) persistent_insert persistent_update persistent_lookup list_erase list_clear
      list_set_max_size b ops (table_init bucket inc \<lparr> l_items = [], l_max_size = m \<rparr>) \<and>
    table_safe (\<lambda>s. s) (\<lambda>_. 0) (\<lambda>_. True) counting_insert counting_update counting_lookup counting_erase counting_clear
      (\<lambda>n s. s) 0 ops (table_init bucket inc []) \<and>
    table_safe order_keys o_max_size order_sorted lfu_insert lfu_update lfu_lookup order_erase order_clear order_set_max_size
      b ops (table_init bucket inc \<lparr> o_items = [], o_max_size = m \<rparr>) \<and>
    table_safe order_keys o_max_size order_sorted random_insert random_update random_lookup order_erase order_clear
      order_set_max_size b ops (table_init bucket inc \<lparr> o_items = [], o_max_size = m, u_rand = r \<rparr>)"
proof -
  have "off_root 0 op" if "off_root b op" for op :: "('a, 'b) table_op" using that by (cases op) auto
  then show ?thesis
    using assms unfolding table_safe_def
    by (intro conjI impI) (auto intro!: lru.run_inv fifo.run_inv persistent.run_inv counting.run_inv lfu.run_inv random.run_inv
        table_init_inv simp del: lookup_Nil simp: table_init_root order_keys_def order_sorted_def)
qed

definition example_ops :: "(char, nat) table_op list" where
  "example_ops = [OpInsert ''ab'' 1, OpInsert ''c'' 2, OpLongest ''abx'', OpModify (Some ''a'') Suc, OpModify (Some ''ab'') Suc,
     OpEraseNode (Some ''c''), OpInsert ''d'' 3, OpSetMaxSize 1, OpInsert ''e'' 4, OpDeepest ''d'']"

lemma example_iterators:
  "iterators_ok (table_step lru_insert lru_update lru_lookup list_erase list_clear list_set_max_size) example_ops
    (table_init 2 2 \<lparr> l_items = [], l_max_size = 2 \<rparr>)"
  by code_simp

theorem table_run_safe_witness:
  "\<exists>t. table_run lru_insert lru_update lru_lookup list_erase list_clear list_set_max_size example_ops
      (table_init 2 2 \<lparr> l_items = [], l_max_size = 2 \<rparr>) = Some t \<and> table_inv l_items l_max_size (\<lambda>_. True) 2 t"
proof -
  have "\<forall>op\<in>set example_ops. off_root 2 op" by (simp add: example_ops_def)
  then show ?thesis
    using table_run_safe [of 2 example_ops 2 2 2] example_iterators by (simp add: table_safe_def)
qed

lemma find_exact_iff: "find_exact key tab = (if trie_lookup (tab_trie tab) key = None then None else Some key)"
proof -
  obtain f r l where f: "trie_find key (tab_trie tab) = (f, r, l)" by (metis prod_cases3)
  show ?thesis
    using trie_find_parts(1,2) [OF f] lookup_has_node [of "tab_trie tab" key]
    by (auto simp: find_exact_def f)
qed

text \<open>\<open>insert\<close> on an LRU table that satisfies the invariant: an existing entry is
  kept and reported; otherwise the new entry is stored, and at most one other entry, only
  when the table was full, is gone.  \<open>find_exact\<close> then finds the key.\<close>

theorem lru_table_insert:
  assumes "table_inv l_items l_max_size (\<lambda>_. True) b tab"
    and "table_insert lru_insert key (Some x) tab = (tab', item, ok)"
  shows "table_inv l_items l_max_size (\<lambda>_. True) b tab' \<and> item = Some key \<and> find_exact key tab' = Some key \<and>
    (if trie_lookup (tab_trie tab) key \<noteq> None
     then \<not> ok \<and> trie_lookup (tab_trie tab') = trie_lookup (tab_trie tab)
     else ok \<and>
       (if list_full (tab_policy tab)
        then \<exists>v. v \<noteq> key \<and> trie_lookup (tab_trie tab) v \<noteq> None \<and>
          trie_lookup (tab_trie tab') = ((trie_lookup (tab_trie tab))(v := None))(key \<mapsto> x)
        else trie_lookup (tab_trie tab') = (trie_lookup (tab_trie tab))(key \<mapsto> x)))"
proof (cases "trie_lookup (tab_trie tab) key = None")
  case True
  have ok: ok
    using assms True insert_some(3) [of "tab_trie tab" key x]
    by (auto simp: table_inv_def table_insert_def Let_def lru_insert_def evicting_insert_def split: prod.splits)
  show ?thesis
    using lru.insert_new [OF assms(1) True assms(2)] ok True
    by (auto simp: list_full_policy_full find_exact_iff) (metis option.distinct(1))
next
  case False
  then show ?thesis using lru.insert_refused [OF assms(1) False assms(2)] by (auto simp: find_exact_iff)
qed

theorem lru_table_insert_witness:
  "\<exists>tab' item ok. table_insert lru_insert ''a'' (Some (1::nat)) (table_init 2 2 list_policy_init) = (tab', item, ok) \<and>
     find_exact ''a'' tab' = Some ''a''"
proof -
  obtain tab' item ok where i:
      "table_insert lru_insert ''a'' (Some (1::nat)) (table_init 2 2 list_policy_init) = (tab', item, ok)"
    by (metis prod_cases3)
  have "table_inv l_items l_max_size (\<lambda>_. True) 0 (table_init 2 2 list_policy_init :: (char list_policy, char, nat) table)"
    by (rule table_init_inv) (simp_all add: list_policy_init_def)
  from lru_table_insert [OF this i] show ?thesis using i by blast
qed

text \<open>
  A smaller maximum evicts nothing, and an insertion then evicts one entry for the one it adds: a table with more entries
  than its new maximum keeps their number.
\<close>

lemma smaller_maximum_evicts_nothing:
  assumes "0 < n" and "n < length (l_items (tab_policy tab))" and "distinct (l_items (tab_policy tab))"
  shows "length (l_items (tab_policy (fst (lru_insert key (tab\<lparr> tab_policy := list_set_max_size n (tab_policy tab) \<rparr>))))) =
    length (l_items (tab_policy tab))"
proof -
  obtain x xs where x: "l_items (tab_policy tab) = x # xs" using assms(2) by (cases "l_items (tab_policy tab)") auto
  then have "filter (\<lambda>y. y \<noteq> x) xs = xs" using assms(3) by (auto simp: filter_id_conv)
  then show ?thesis
    using assms x by (simp add: lru_insert_def evicting_insert_def list_full_def list_set_max_size_def table_erase_node_def
        list_erase_def list_push_back_def)
qed

text \<open>
  Two behaviours outside the contract.  \<open>clear\<close> keeps an entry stored under the empty key
  in the trie while the policy forgets it, and \<open>deepest_prefix_match\<close> of the empty key on an
  empty table dereferences a null pointer.
\<close>

lemma clear_keeps_root_entry:
  "let tab = fst (table_insert lru_insert [] (Some (1::nat)) (table_init 2 2 list_policy_init :: (char list_policy, char, nat) table));
       tab' = table_clear list_clear tab
   in trie_lookup (tab_trie tab') [] = Some 1 \<and> l_items (tab_policy tab') = []"
  by (simp add: table_insert_def trie_insert_def table_init_def new_trie_def lru_insert_def evicting_insert_def
      list_full_def list_policy_init_def list_push_back_def table_clear_def trie_clear_def list_clear_def Let_def)

lemma deepest_match_empty_table:
  "deepest_prefix_match lru_lookup [] (table_init 2 2 list_policy_init :: (char list_policy, char, nat) table) = None"
  by (simp add: deepest_prefix_match_def table_init_def new_trie_def trie_find_def find_any_def)

text \<open>
  \<open>deepest_prefix_match\<close> prefers a stored proper prefix of the key over the entries below
  the key: with entries for a and abc, the match of ab is a, which is shorter than the key.
\<close>

lemma deepest_match_may_be_shorter:
  "let tab = fst (table_insert lru_insert ''abc'' (Some (2::nat))
        (fst (table_insert lru_insert ''a'' (Some 1) (table_init 2 2 list_policy_init))))
   in map_option snd (deepest_prefix_match lru_lookup ''ab'' tab) = Some (Some ''a'')"
  by (simp add: table_insert_def trie_insert_def table_init_def new_trie_def lru_insert_def evicting_insert_def
      list_full_def list_policy_init_def list_push_back_def Let_def set_child_def
      deepest_prefix_match_def trie_find_def trie_lookup_def)

section \<open>What the policies evict\<close>

text \<open>
  The histories of the LRU container with a ghost clock: \<open>u k\<close> is the time at which
  \<open>k\<close> was last inserted, looked up or updated, and \<open>n\<close> the current time.
\<close>

inductive lru_reach :: "'k list_policy \<Rightarrow> ('k list \<Rightarrow> nat) \<Rightarrow> nat \<Rightarrow> bool" where
  lru_start: "lru_reach list_policy_init u 0"
| lru_push: "lru_reach s u n \<Longrightarrow> k \<notin> set (l_items s) \<Longrightarrow> lru_reach (list_push_back k s) (u(k := n)) (Suc n)"
| lru_look: "lru_reach s u n \<Longrightarrow> k \<in> set (l_items s) \<Longrightarrow> lru_reach (lru_lookup k s) (u(k := n)) (Suc n)"
| lru_upd: "lru_reach s u n \<Longrightarrow> k \<in> set (l_items s) \<Longrightarrow> lru_reach (lru_update k s) (u(k := n)) (Suc n)"
| lru_del: "lru_reach s u n \<Longrightarrow> lru_reach (list_erase k s) u n"
| lru_clr: "lru_reach s u n \<Longrightarrow> lru_reach (list_clear s) u n"
| lru_max: "lru_reach s u n \<Longrightarrow> lru_reach (list_set_max_size m s) u n"

lemma sorted_wrt_upd:
  "sorted_wrt (\<lambda>x y. u x < u y) xs \<Longrightarrow> k \<notin> set xs \<Longrightarrow> sorted_wrt (\<lambda>x y. (u(k := n)) x < (u(k := n)) y) xs"
  by (induction xs) auto

lemma lru_reach_sorted:
  "lru_reach s u n \<Longrightarrow> sorted_wrt (\<lambda>x y. u x < u y) (l_items s) \<and> (\<forall>x\<in>set (l_items s). u x < n)"
proof (induction rule: lru_reach.induct)
  case (lru_push s u n k)
  then show ?case
    using sorted_wrt_upd [of u "l_items s" k n] by (auto simp: list_push_back_def sorted_wrt_append less_Suc_eq)
next
  case (lru_look s u n k)
  then show ?case
    using sorted_wrt_upd [of u "filter (\<lambda>x. x \<noteq> k) (l_items s)" k n]
    by (auto simp: lru_lookup_def sorted_wrt_append sorted_wrt_filter less_Suc_eq)
next
  case (lru_upd s u n k)
  then show ?case
    using sorted_wrt_upd [of u "filter (\<lambda>x. x \<noteq> k) (l_items s)" k n]
    by (auto simp: lru_update_def sorted_wrt_append sorted_wrt_filter less_Suc_eq)
qed (auto simp: list_policy_init_def list_erase_def list_clear_def list_set_max_size_def sorted_wrt_filter)

text \<open>Property C23.  A full LRU table evicts the entry that was used least recently: inserted, looked up or updated longest
  ago in whatever history the container has had, and only that one.\<close>

theorem lru_evicts_least_recent:
  assumes "lru_reach (tab_policy tab) u n" and "list_full (tab_policy tab)" and "lru_insert k tab = (tab', ok)"
  shows "\<exists>v \<in> set (l_items (tab_policy tab)).
    ok \<and> tab_trie tab' = fst (trie_erase v (tab_trie tab)) \<and> v \<notin> set (l_items (list_erase v (tab_policy tab))) \<and>
    tab_policy tab' = list_push_back k (list_erase v (tab_policy tab)) \<and>
    (\<forall>x \<in> set (l_items (tab_policy tab)). x \<noteq> v \<longrightarrow> u v < u x)"
proof -
  obtain v vs where v: "l_items (tab_policy tab) = v # vs"
    using assms(2) by (cases "l_items (tab_policy tab)") (auto simp: list_full_def)
  show ?thesis
    using assms(2,3) lru_reach_sorted [OF assms(1)] v
    by (auto simp: list_set_max_size_def lru_insert_def evicting_insert_def Let_def table_erase_node_def list_erase_def)
qed

theorem lru_evicts_least_recent_witness:
  "\<exists>v \<in> set [''a'', ''b'']. tab_trie (fst (lru_insert ''c''
     \<lparr> tab_trie = new_trie 2 2 :: (char, nat) trie, tab_policy = \<lparr> l_items = [''a'', ''b''], l_max_size = 2 \<rparr> \<rparr>)) =
     fst (trie_erase v (new_trie 2 2))"
proof -
  let ?s = "\<lparr> l_items = [''a'', ''b''], l_max_size = 2 \<rparr>"
  have "lru_reach (list_set_max_size 2 (list_push_back ''b'' (list_push_back ''a'' list_policy_init)))
      (((\<lambda>_. 0)(''a'' := 0))(''b'' := Suc 0)) (Suc (Suc 0))"
    by (intro lru_max lru_push lru_start) (simp_all add: list_push_back_def list_policy_init_def)
  then have r: "lru_reach ?s (((\<lambda>_. 0)(''a'' := 0))(''b'' := Suc 0)) (Suc (Suc 0))"
    by (simp add: list_set_max_size_def list_push_back_def list_policy_init_def)
  let ?tab = "\<lparr> tab_trie = new_trie 2 2 :: (char, nat) trie, tab_policy = ?s \<rparr>"
  obtain tab' ok where i: "lru_insert ''c'' ?tab = (tab', ok)" by (rule prod.exhaust)
  have "lru_reach (tab_policy ?tab) (((\<lambda>_. 0)(''a'' := 0))(''b'' := Suc 0)) (Suc (Suc 0))"
    "list_full (tab_policy ?tab)"
    using r by (simp_all add: list_full_def)
  from lru_evicts_least_recent [OF this i] show ?thesis unfolding i by auto
qed

text \<open>The histories of the LFU container: \<open>c k\<close> counts the uses of \<open>k\<close> since its insertion.\<close>

inductive lfu_reach :: "('k, nat) order_policy \<Rightarrow> ('k list \<Rightarrow> nat) \<Rightarrow> bool" where
  lfu_start: "lfu_reach \<lparr> o_items = [], o_max_size = 100 \<rparr> c"
| lfu_push: "lfu_reach s c \<Longrightarrow> k \<notin> set (order_keys s) \<Longrightarrow> lfu_reach (order_add (k, 0) s) (c(k := 0))"
| lfu_look: "lfu_reach s c \<Longrightarrow> k \<in> set (order_keys s) \<Longrightarrow> lfu_reach (lfu_lookup k s) (c(k := c k + 1))"
| lfu_upd: "lfu_reach s c \<Longrightarrow> k \<in> set (order_keys s) \<Longrightarrow> lfu_reach (lfu_update k s) (c(k := c k + 1))"
| lfu_del: "lfu_reach s c \<Longrightarrow> lfu_reach (order_erase k s) c"
| lfu_clr: "lfu_reach s c \<Longrightarrow> lfu_reach (order_clear s) c"
| lfu_max: "lfu_reach s c \<Longrightarrow> lfu_reach (order_set_max_size m s) c"

lemma lfu_bump:
  assumes "order_sorted s" and "\<forall>e\<in>set (o_items s). snd e = c (fst e)" and "k \<in> set (order_keys s)"
  shows "order_sorted (lfu_update k s) \<and> (\<forall>e\<in>set (o_items (lfu_update k s)). snd e = (c(k := c k + 1)) (fst e))"
proof -
  obtain f where f: "map_of (o_items s) k = Some f"
    using assms(3) by (metis map_of_eq_None_iff not_None_eq order_keys_def set_map)
  then have "f = c k" using assms(2) by (auto dest!: map_of_SomeD)
  then show ?thesis
    using f assms order_add_sorted [OF order_erase_sorted [OF assms(1)]]
    by (auto simp: lfu_update_def) (auto simp: order_add_def order_erase_def)
qed

lemma lfu_reach_counts:
  "lfu_reach s c \<Longrightarrow> order_sorted s \<and> (\<forall>e\<in>set (o_items s). snd e = c (fst e))"
proof (induction rule: lfu_reach.induct)
  case (lfu_push s c k)
  then show ?case using order_add_sorted by (auto simp: order_add_def order_keys_def)
next
  case (lfu_look s c k)
  then show ?case using lfu_bump [of s c k] by (simp add: lfu_lookup_def lfu_update_def)
next
  case (lfu_upd s c k)
  then show ?case using lfu_bump [of s c k] by simp
next
  case (lfu_del s c k)
  then show ?case using order_erase_sorted by (auto simp: order_erase_def)
qed (auto simp: order_sorted_def order_clear_def order_set_max_size_def)

text \<open>A full LFU table evicts an entry that was used least often since its
  insertion.\<close>

theorem lfu_evicts_least_used:
  assumes "lfu_reach (tab_policy tab) c" and "order_full (tab_policy tab)" and "lfu_insert k tab = (tab', ok)"
  shows "\<exists>v \<in> set (order_keys (tab_policy tab)).
    ok \<and> tab_trie tab' = fst (trie_erase v (tab_trie tab)) \<and>
    (\<forall>x \<in> set (order_keys (tab_policy tab)). c v \<le> c x)"
proof -
  obtain e es where v: "o_items (tab_policy tab) = e # es"
    using assms(2) by (cases "o_items (tab_policy tab)") (auto simp: order_full_def)
  show ?thesis
    using assms(2,3) lfu_reach_counts [OF assms(1)] v
    by (intro bexI [of _ "fst e"])
      (force simp: lfu_insert_def Let_def table_erase_node_def order_sorted_def order_keys_def)+
qed

theorem lfu_evicts_least_used_witness:
  "\<exists>v \<in> set [''a'']. tab_trie (fst (lfu_insert ''c''
     \<lparr> tab_trie = new_trie 2 2 :: (char, nat) trie, tab_policy = \<lparr> o_items = [(''a'', 0)], o_max_size = 1 \<rparr> \<rparr>)) =
     fst (trie_erase v (new_trie 2 2))"
proof -
  let ?s = "\<lparr> o_items = [(''a'', 0)], o_max_size = 1 \<rparr>"
  have "lfu_reach (order_set_max_size 1 (order_add (''a'', 0) \<lparr> o_items = [], o_max_size = 100 \<rparr>)) ((\<lambda>_. 0)(''a'' := 0))"
    by (intro lfu_max lfu_push lfu_start) (simp add: order_keys_def)
  then have r: "lfu_reach ?s ((\<lambda>_. 0)(''a'' := 0))"
    by (simp add: order_set_max_size_def order_add_def multiset_insert_def)
  let ?tab = "\<lparr> tab_trie = new_trie 2 2 :: (char, nat) trie, tab_policy = ?s \<rparr>"
  obtain tab' ok where i: "lfu_insert ''c'' ?tab = (tab', ok)" by (rule prod.exhaust)
  have "lfu_reach (tab_policy ?tab) ((\<lambda>_. 0)(''a'' := 0))" "order_full (tab_policy ?tab)"
    using r by (simp_all add: order_full_def)
  from lfu_evicts_least_used [OF this i] show ?thesis unfolding i by (auto simp: order_keys_def)
qed

end
