(* ===== verification/Ndn_Face.thy ===== *)
theory Ndn_Face
  imports Ndn_Packets Trie_Policy
begin

text \<open>
  \<open>ndn.cxx/face.h\<close> and \<open>ndn.cxx/face.cc\<close>: the face keeps the callbacks of the interests
  that were sent and of the prefixes that were registered, each in a trie keyed by name with
  the counting policy, whose payload is the list of callbacks.  The contract of the face is a
  pair of maps from names to callback lists; \<open>face_refines\<close> shows that the tries implement it.
  Iterators are the paths of their nodes; using one whose entry is gone is undefined.
\<close>

section \<open>The face\<close>

type_synonym 'c callback_table = "(component list list, component, 'c list) table"

record ('d, 'i) face =
  m_sentInterests :: "'d callback_table"
  m_registeredPrefixes :: "'i callback_table"

definition new_face :: "('d, 'i) face" where
  "new_face = \<lparr> m_sentInterests = table_init 10 10 [], m_registeredPrefixes = table_init 10 10 [] \<rparr>"

text \<open>\<open>item->payload ()->push_back (callback)\<close>; dereferencing \<open>end ()\<close> or a node without
  payload is undefined.\<close>

definition push_callback :: "'c \<Rightarrow> component list option \<Rightarrow> 'c callback_table \<Rightarrow> 'c callback_table option" where
  "push_callback cb item tab =
     (case item of
        None \<Rightarrow> None
      | Some n \<Rightarrow>
          (case trie_lookup (tab_trie tab) n of
             None \<Rightarrow> None
           | Some cbs \<Rightarrow> Some (tab\<lparr> tab_trie := update_at n (set_payload (Some (cbs @ [cb]))) (tab_trie tab) \<rparr>)))"

definition sendInterest ::
  "interest \<Rightarrow> 'd \<Rightarrow> ('d, 'i) face \<Rightarrow> (('d, 'i) face \<times> component list option) option" where
  "sendInterest i dataCallback f =
     (let key = comps (i_name i);
          item = find_exact key (m_sentInterests f);
          (tab, item) =
            (if item = None
             then (case table_insert counting_insert key (Some []) (m_sentInterests f) of
                     (tab, item, inserted) \<Rightarrow> (tab, item))
             else (m_sentInterests f, item))
      in map_option (\<lambda>tab. (f\<lparr> m_sentInterests := tab \<rparr>, item)) (push_callback dataCallback item tab))"

definition clearInterest :: "component list option \<Rightarrow> ('d, 'i) face \<Rightarrow> ('d, 'i) face" where
  "clearInterest item f = f\<lparr> m_sentInterests := table_erase_node counting_erase item (m_sentInterests f) \<rparr>"

definition setInterestFilter ::
  "name \<Rightarrow> 'i \<Rightarrow> ('d, 'i) face \<Rightarrow> (('d, 'i) face \<times> component list option) option" where
  "setInterestFilter pre interestCallback f =
     (let key = comps pre;
          item = find_exact key (m_registeredPrefixes f);
          (tab, item) =
            (if item = None
             then (case table_insert counting_insert key (Some []) (m_registeredPrefixes f) of
                     (tab, item, inserted) \<Rightarrow> (tab, item))
             else (m_registeredPrefixes f, item))
      in map_option (\<lambda>tab. (f\<lparr> m_registeredPrefixes := tab \<rparr>, item)) (push_callback interestCallback item tab))"

definition clearFilter :: "component list option \<Rightarrow> ('d, 'i) face \<Rightarrow> ('d, 'i) face" where
  "clearFilter item f = f\<lparr> m_registeredPrefixes := table_erase_node counting_erase item (m_registeredPrefixes f) \<rparr>"

definition clearInterestFilter :: "name \<Rightarrow> ('d, 'i) face \<Rightarrow> ('d, 'i) face" where
  "clearInterestFilter pre f =
     (let item = find_exact (comps pre) (m_registeredPrefixes f)
      in if item = None then f else clearFilter item f)"

section \<open>Sequences of calls\<close>

datatype ('d, 'i) face_op =
    SendInterest interest 'd
  | ClearInterest "component list"
  | SetFilter name 'i
  | ClearFilterName name
  | ClearFilter "component list"

text \<open>A call with an iterator is defined only while the entry of the iterator is there.\<close>

fun face_step :: "('d, 'i) face_op \<Rightarrow> ('d, 'i) face \<Rightarrow> ('d, 'i) face option" where
  "face_step (SendInterest i cb) f = map_option fst (sendInterest i cb f)"
| "face_step (ClearInterest n) f =
     (if trie_lookup (tab_trie (m_sentInterests f)) n = None then None else Some (clearInterest (Some n) f))"
| "face_step (SetFilter p cb) f = map_option fst (setInterestFilter p cb f)"
| "face_step (ClearFilterName p) f = Some (clearInterestFilter p f)"
| "face_step (ClearFilter n) f =
     (if trie_lookup (tab_trie (m_registeredPrefixes f)) n = None then None else Some (clearFilter (Some n) f))"

fun face_run :: "('d, 'i) face_op list \<Rightarrow> ('d, 'i) face \<Rightarrow> ('d, 'i) face option" where
  "face_run [] f = Some f"
| "face_run (c # cs) f = Option.bind (face_step c f) (face_run cs)"

section \<open>The contract of the face\<close>

type_synonym ('d, 'i) face_spec =
  "(component list \<rightharpoonup> 'd list) \<times> (component list \<rightharpoonup> 'i list)"

definition add_callback :: "'k \<Rightarrow> 'c \<Rightarrow> ('k \<rightharpoonup> 'c list) \<Rightarrow> ('k \<rightharpoonup> 'c list)" where
  "add_callback k cb m = m(k \<mapsto> (case m k of None \<Rightarrow> [cb] | Some cbs \<Rightarrow> cbs @ [cb]))"

fun spec_step :: "('d, 'i) face_op \<Rightarrow> ('d, 'i) face_spec \<Rightarrow> ('d, 'i) face_spec option" where
  "spec_step (SendInterest i cb) (s, r) = Some (add_callback (comps (i_name i)) cb s, r)"
| "spec_step (ClearInterest n) (s, r) = (if s n = None then None else Some (s(n := None), r))"
| "spec_step (SetFilter p cb) (s, r) = Some (s, add_callback (comps p) cb r)"
| "spec_step (ClearFilterName p) (s, r) = Some (s, r(comps p := None))"
| "spec_step (ClearFilter n) (s, r) = (if r n = None then None else Some (s, r(n := None)))"

fun spec_run :: "('d, 'i) face_op list \<Rightarrow> ('d, 'i) face_spec \<Rightarrow> ('d, 'i) face_spec option" where
  "spec_run [] s = Some s"
| "spec_run (c # cs) s = Option.bind (spec_step c s) (spec_run cs)"

definition face_abs :: "('d, 'i) face \<Rightarrow> ('d, 'i) face_spec" where
  "face_abs f = (trie_lookup (tab_trie (m_sentInterests f)), trie_lookup (tab_trie (m_registeredPrefixes f)))"

definition face_inv :: "('d, 'i) face \<Rightarrow> bool" where
  "face_inv f \<longleftrightarrow> table_inv (\<lambda>s. s) (\<lambda>_. 0) (\<lambda>_. True) 0 (m_sentInterests f) \<and>
     table_inv (\<lambda>s. s) (\<lambda>_. 0) (\<lambda>_. True) 0 (m_registeredPrefixes f)"

section \<open>Refinement\<close>

lemma push_callback_works:
  assumes "table_inv (\<lambda>s. s) (\<lambda>_. 0) (\<lambda>_. True) 0 tab" and "trie_lookup (tab_trie tab) n = Some cbs"
  shows "\<exists>tab'. push_callback cb (Some n) tab = Some tab' \<and>
    table_inv (\<lambda>s. s) (\<lambda>_. 0) (\<lambda>_. True) 0 tab' \<and>
    trie_lookup (tab_trie tab') = (trie_lookup (tab_trie tab))(n \<mapsto> cbs @ [cb])"
proof -
  have n: "has_node (tab_trie tab) n" using assms(2) by (intro lookup_has_node) simp
  then have "push_callback cb (Some n) tab = map_option fst (table_modify counting_update (Some n) (\<lambda>l. l @ [cb]) tab)"
    using assms(2) by (simp add: push_callback_def table_modify_def counting_update_def)
  then show ?thesis
    using counting.modify_inv [OF assms(1), of "Some n" "\<lambda>l. l @ [cb]"] n assms(2) by fastforce
qed

text \<open>The part that \<open>sendInterest\<close> and \<open>setInterestFilter\<close> share: find or insert, then append.\<close>

lemma callback_added:
  assumes inv: "table_inv (\<lambda>s. s) (\<lambda>_. 0) (\<lambda>_. True) 0 tab"
    and r: "(tab1, item) =
      (if find_exact key tab = None
       then (case table_insert counting_insert key (Some []) tab of (tab, item, inserted) \<Rightarrow> (tab, item))
       else (tab, find_exact key tab))"
  shows "\<exists>tab'. push_callback cb item tab1 = Some tab' \<and>
    table_inv (\<lambda>s. s) (\<lambda>_. 0) (\<lambda>_. True) 0 tab' \<and> item = Some key \<and>
    trie_lookup (tab_trie tab') = add_callback key cb (trie_lookup (tab_trie tab))"
proof (cases "trie_lookup (tab_trie tab) key")
  case None
  obtain t n ok where t: "table_insert counting_insert key (Some []) tab = (t, n, ok)" by (metis prod_cases3)
  have i: "table_inv (\<lambda>s. s) (\<lambda>_. 0) (\<lambda>_. True) 0 t" "n = Some key"
    "trie_lookup (tab_trie t) = (trie_lookup (tab_trie tab))(key \<mapsto> [])"
    using counting.insert_new [OF inv None t] by (auto simp: policy_full_def split: if_splits)
  have "tab1 = t" "item = Some key" using r t None i by (auto simp: find_exact_iff)
  then show ?thesis
    using push_callback_works [OF i(1), of key "[]" cb] i(3) None by (auto simp: add_callback_def)
next
  case (Some cbs)
  then have "tab1 = tab" "item = Some key" using r by (auto simp: find_exact_iff)
  then show ?thesis using push_callback_works [OF inv Some, of cb] Some by (auto simp: add_callback_def)
qed

lemma sendInterest_refines:
  assumes "face_inv f" and "face_abs f = (s, r)"
  shows "\<exists>f'. sendInterest i cb f = Some (f', Some (comps (i_name i))) \<and> face_inv f' \<and>
    face_abs f' = (add_callback (comps (i_name i)) cb s, r)"
proof -
  let ?k = "comps (i_name i)" and ?tab = "m_sentInterests f"
  obtain tab1 item where t: "(tab1, item) =
      (if find_exact ?k ?tab = None
       then (case table_insert counting_insert ?k (Some []) ?tab of (tab, item, inserted) \<Rightarrow> (tab, item))
       else (?tab, find_exact ?k ?tab))" by (metis surj_pair)
  show ?thesis
    using callback_added [OF _ t, of cb] assms
    by (auto simp: sendInterest_def Let_def t [symmetric] face_inv_def face_abs_def)
qed

lemma setInterestFilter_refines:
  assumes "face_inv f" and "face_abs f = (s, r)"
  shows "\<exists>f'. setInterestFilter p cb f = Some (f', Some (comps p)) \<and> face_inv f' \<and>
    face_abs f' = (s, add_callback (comps p) cb r)"
proof -
  let ?k = "comps p" and ?tab = "m_registeredPrefixes f"
  obtain tab1 item where t: "(tab1, item) =
      (if find_exact ?k ?tab = None
       then (case table_insert counting_insert ?k (Some []) ?tab of (tab, item, inserted) \<Rightarrow> (tab, item))
       else (?tab, find_exact ?k ?tab))" by (metis surj_pair)
  show ?thesis
    using callback_added [OF _ t, of cb] assms
    by (auto simp: setInterestFilter_def Let_def t [symmetric] face_inv_def face_abs_def)
qed

lemma clears_refine:
  assumes "face_inv f" and "face_abs f = (s, r)"
  shows "s n \<noteq> None \<Longrightarrow> face_inv (clearInterest (Some n) f) \<and> face_abs (clearInterest (Some n) f) = (s(n := None), r)"
    and "r n \<noteq> None \<Longrightarrow> face_inv (clearFilter (Some n) f) \<and> face_abs (clearFilter (Some n) f) = (s, r(n := None))"
  using assms by (auto simp: face_inv_def face_abs_def clearInterest_def clearFilter_def counting.erase_node_inv)

lemma clearInterestFilter_refines:
  assumes "face_inv f" and "face_abs f = (s, r)"
  shows "face_inv (clearInterestFilter p f) \<and> face_abs (clearInterestFilter p f) = (s, r(comps p := None))"
proof (cases "r (comps p)")
  case None
  then have "r(comps p := None) = r" by (simp add: fun_upd_idem)
  then show ?thesis using None assms by (auto simp: clearInterestFilter_def find_exact_iff face_abs_def)
next
  case (Some x)
  then show ?thesis
    using clears_refine(2) [OF assms, of "comps p"] assms(2)
    by (auto simp: clearInterestFilter_def find_exact_iff face_abs_def)
qed

lemma face_step_refines:
  assumes "face_inv f"
  shows "map_option face_abs (face_step c f) = spec_step c (face_abs f) \<and> pred_option face_inv (face_step c f)"
proof -
  obtain s r where a: "face_abs f = (s, r)" by fastforce
  then have l: "trie_lookup (tab_trie (m_sentInterests f)) = s" "trie_lookup (tab_trie (m_registeredPrefixes f)) = r"
    by (auto simp: face_abs_def)
  show ?thesis
  proof (cases c)
    case (SendInterest i cb)
    then show ?thesis using sendInterest_refines [OF assms a, of i cb] a by auto
  next
    case (SetFilter p cb)
    then show ?thesis using setInterestFilter_refines [OF assms a, of p cb] a by auto
  qed (use l a clears_refine [OF assms a] clearInterestFilter_refines [OF assms a] in auto)
qed

lemma face_run_refines:
  "face_inv f \<Longrightarrow> map_option face_abs (face_run cs f) = spec_run cs (face_abs f) \<and> pred_option face_inv (face_run cs f)"
proof (induction cs arbitrary: f)
  case (Cons c cs)
  show ?case using face_step_refines [OF Cons.prems, of c] Cons.IH by (cases "face_step c f") (auto dest: sym)
qed simp

lemma new_face_inv: "face_inv new_face" "face_abs new_face = (Map.empty, Map.empty)"
  by (simp_all add: face_inv_def face_abs_def new_face_def table_init_inv) (auto simp: table_init_def lookup_new_trie)

text \<open>Property C22.  The face implements its contract: for every sequence of calls from a new
  face, the two tries hold the maps that the specification computes, no insertion is refused
  and no \<open>end ()\<close> is dereferenced; the sequence is undefined exactly when the specification
  says so, that is, when a call uses an iterator whose entry is gone.\<close>
theorem face_refines:
  "map_option face_abs (face_run cs new_face) = spec_run cs (Map.empty, Map.empty)"
  using face_run_refines [OF new_face_inv(1)] new_face_inv(2) by metis

end
