(* ===== verification/Task_Executor.thy ===== *)
theory Task_Executor
  imports Ndn_Prelude
begin

text \<open>
  \<open>executor/executor.cc\<close>: a pool of worker threads and a queue of jobs behind one mutex and one condition variable.
  What a thread does while it holds the mutex is one step; between steps the threads interleave freely.  A
  worker is at the head of its loop, before \<open>waitForJob\<close>, blocked in \<open>m_cond.wait\<close>, woken from it and about to
  take the mutex again, running a job, or finished; its flag says that \<open>interrupt_all\<close> was called.  The two last
  fields record the jobs in the order in which they were handed in and in which they were started.
\<close>

section \<open>State\<close>

datatype 'j worker = Looping | Entering | Waiting | Woken | Running 'j | Finished

record 'j executor =
  ex_needStop :: bool
  ex_poolSize :: nat
  ex_queue :: "'j list"
  ex_workers :: "('j worker \<times> bool) list"
  ex_submitted :: "'j list"
  ex_started :: "'j list"

definition new_executor :: "nat \<Rightarrow> 'j executor" where
  "new_executor poolSize =
     \<lparr> ex_needStop = True, ex_poolSize = poolSize, ex_queue = [], ex_workers = [], ex_submitted = [], ex_started = [] \<rparr>"

definition set_worker :: "nat \<Rightarrow> 'j worker \<Rightarrow> 'j executor \<Rightarrow> 'j executor" where
  "set_worker i w ex = ex\<lparr> ex_workers := (ex_workers ex)[i := (w, snd (ex_workers ex ! i))] \<rparr>"

section \<open>Operations\<close>

definition executor_start :: "'j executor \<Rightarrow> 'j executor" where
  "executor_start ex =
     (if ex_needStop ex
      then ex\<lparr> ex_needStop := False, ex_workers := ex_workers ex @ replicate (ex_poolSize ex) (Looping, False) \<rparr>
      else ex)"

text \<open>\<open>shutdown\<close> up to \<open>join_all\<close>, which waits until every worker has finished.\<close>

definition executor_shutdown :: "'j executor \<Rightarrow> 'j executor" where
  "executor_shutdown ex =
     (if \<not> ex_needStop ex
      then ex\<lparr> ex_needStop := True, ex_workers := map (\<lambda>(w, f). (w, True)) (ex_workers ex) \<rparr>
      else ex)"

text \<open>\<open>execute\<close>; \<open>notified\<close> is the waiting worker that \<open>notify_one\<close> wakes, if there is one.\<close>

definition executor_execute :: "'j \<Rightarrow> nat option \<Rightarrow> 'j executor \<Rightarrow> 'j executor" where
  "executor_execute job notified ex =
     (let queueWasEmpty = (ex_queue ex = []);
          ex' = ex\<lparr> ex_queue := ex_queue ex @ [job], ex_submitted := ex_submitted ex @ [job] \<rparr>
      in if queueWasEmpty
         then (case notified of None \<Rightarrow> ex' | Some i \<Rightarrow> set_worker i Woken ex')
         else ex')"

definition executor_poolSize :: "'j executor \<Rightarrow> nat" where
  "executor_poolSize ex = length (ex_workers ex)"

definition jobQueueSize :: "'j executor \<Rightarrow> nat" where
  "jobQueueSize ex = length (ex_queue ex)"

text \<open>
  \<open>waitForJob\<close> with the mutex held.  \<open>m_cond.wait\<close> throws in a worker that was interrupted, when it is called and
  when it returns; otherwise the worker blocks while the queue is empty, and takes the first job when it is not.
\<close>

definition waitForJob :: "nat \<Rightarrow> 'j executor \<Rightarrow> 'j executor" where
  "waitForJob i ex =
     (if fst (ex_workers ex ! i) = Woken \<and> snd (ex_workers ex ! i) then set_worker i Finished ex
      else case ex_queue ex of
        [] \<Rightarrow> set_worker i (if snd (ex_workers ex ! i) then Finished else Waiting) ex
      | job # jobs \<Rightarrow> set_worker i (Running job) (ex\<lparr> ex_queue := jobs, ex_started := ex_started ex @ [job] \<rparr>))"

text \<open>One step of the loop of \<open>run\<close>; a blocked worker moves only when it is interrupted.\<close>

definition run_step :: "nat \<Rightarrow> 'j executor \<Rightarrow> 'j executor option" where
  "run_step i ex =
     (case fst (ex_workers ex ! i) of
        Looping \<Rightarrow> Some (set_worker i (if ex_needStop ex then Finished else Entering) ex)
      | Entering \<Rightarrow> Some (waitForJob i ex)
      | Woken \<Rightarrow> Some (waitForJob i ex)
      | Running job \<Rightarrow> Some (set_worker i Looping ex)
      | Waiting \<Rightarrow> if snd (ex_workers ex ! i) then Some (set_worker i Finished ex) else None
      | Finished \<Rightarrow> None)"

definition is_waiting :: "'j executor \<Rightarrow> nat \<Rightarrow> bool" where
  "is_waiting ex i \<longleftrightarrow> i < length (ex_workers ex) \<and> fst (ex_workers ex ! i) = Waiting"

text \<open>
  The steps of the program.  \<open>notify_one\<close> wakes a waiting worker whenever there is one; a worker may also wake
  without a notification, and a job of an interrupted worker may end with the interruption, which ends the thread.
  \<open>start\<close> is called only when no worker is left.
\<close>

inductive exec_step :: "'j executor \<Rightarrow> 'j executor \<Rightarrow> bool" where
  start: "\<forall>w\<in>set (ex_workers ex). fst w = Finished \<Longrightarrow> exec_step ex (executor_start ex)"
| shutdown: "exec_step ex (executor_shutdown ex)"
| submit: "is_waiting ex i \<Longrightarrow> exec_step ex (executor_execute job (Some i) ex)"
| submit_none: "\<not> (\<exists>i. is_waiting ex i) \<Longrightarrow> exec_step ex (executor_execute job None ex)"
| work: "i < length (ex_workers ex) \<Longrightarrow> run_step i ex = Some ex' \<Longrightarrow> exec_step ex ex'"
| spurious: "is_waiting ex i \<Longrightarrow> exec_step ex (set_worker i Woken ex)"
| interrupted: "i < length (ex_workers ex) \<Longrightarrow> ex_workers ex ! i = (Running job, True) \<Longrightarrow>
    exec_step ex (set_worker i Finished ex)"

inductive exec_reach :: "nat \<Rightarrow> 'j executor \<Rightarrow> bool" for n where
  init: "exec_reach n (new_executor n)"
| step: "exec_reach n ex \<Longrightarrow> exec_step ex ex' \<Longrightarrow> exec_reach n ex'"

inductive_cases exec_stepE: "exec_step ex ex'"

section \<open>Order of the jobs\<close>

definition fifo :: "'j executor \<Rightarrow> bool" where
  "fifo ex \<longleftrightarrow> ex_submitted ex = ex_started ex @ ex_queue ex"

lemma set_worker_fields [simp]:
  "ex_queue (set_worker i w ex) = ex_queue ex" "ex_submitted (set_worker i w ex) = ex_submitted ex"
  "ex_started (set_worker i w ex) = ex_started ex" "ex_needStop (set_worker i w ex) = ex_needStop ex"
  "ex_poolSize (set_worker i w ex) = ex_poolSize ex"
  "ex_workers (set_worker i w ex) = (ex_workers ex)[i := (w, snd (ex_workers ex ! i))]"
  by (simp_all add: set_worker_def)

lemma fifo_step:
  assumes "exec_step ex ex'" and "fifo ex"
  shows "fifo ex'"
  using assms
proof (cases rule: exec_step.cases)
  case (work i)
  then show ?thesis
    using assms(2)
    by (auto simp: fifo_def run_step_def waitForJob_def split: worker.splits list.splits if_splits)
qed (auto simp: fifo_def executor_start_def executor_shutdown_def executor_execute_def Let_def split: option.splits)

lemma fifo_reach: "exec_reach n ex \<Longrightarrow> fifo ex"
  by (induction rule: exec_reach.induct) (simp add: fifo_def new_executor_def, rule fifo_step)

section \<open>No job is forgotten\<close>

text \<open>
  While the executor runs there are as many unfinished workers as the pool size says, none of them interrupted;
  and when the queue is not empty one of them is on its way to it.
\<close>

definition active :: "'j worker \<times> bool \<Rightarrow> bool" where
  "active w \<longleftrightarrow> fst w \<noteq> Waiting \<and> fst w \<noteq> Finished"

definition serving :: "'j executor \<Rightarrow> bool" where
  "serving ex \<longleftrightarrow> (\<not> ex_needStop ex \<longrightarrow>
     (\<forall>w\<in>set (ex_workers ex). fst w \<noteq> Finished \<longrightarrow> \<not> snd w) \<and>
     (ex_poolSize ex > 0 \<longrightarrow> (\<exists>w\<in>set (ex_workers ex). fst w \<noteq> Finished)) \<and>
     (ex_poolSize ex > 0 \<longrightarrow> ex_queue ex \<noteq> [] \<longrightarrow> (\<exists>w\<in>set (ex_workers ex). active w)))"

lemma update_all: "\<forall>x\<in>set xs. P x \<Longrightarrow> P v \<Longrightarrow> \<forall>x\<in>set (xs[i := v]). P x"
  using set_update_subset_insert [of xs i v] by blast

lemma update_ex: "i < length xs \<Longrightarrow> P v \<Longrightarrow> \<exists>x\<in>set (xs[i := v]). P x"
  using set_update_memI [of i xs v] by blast

lemma serving_update:
  assumes "serving ex" and i: "i < length (ex_workers ex)" "fst (ex_workers ex ! i) \<noteq> Finished" and w: "w \<noteq> Finished"
    and "ex_needStop ex' = ex_needStop ex" and "ex_workers ex' = ex_workers ex"
    and "active (w, snd (ex_workers ex ! i)) \<or> ex_queue ex' = []"
  shows "serving (set_worker i w ex')"
proof -
  have "\<not> ex_needStop ex \<Longrightarrow> \<not> snd (ex_workers ex ! i)" "\<not> ex_needStop ex \<Longrightarrow> \<forall>x\<in>set (ex_workers ex). fst x \<noteq> Finished \<longrightarrow> \<not> snd x"
    using assms(1) i by (simp_all add: serving_def)
  then show ?thesis
    using i(1) w assms(7) unfolding serving_def set_worker_fields assms(5,6)
    by (intro impI conjI update_all update_ex) auto
qed

lemma serving_unflagged:
  assumes "serving ex" and "i < length (ex_workers ex)" and "fst (ex_workers ex ! i) \<noteq> Finished"
    and "snd (ex_workers ex ! i)"
  shows "ex_needStop ex"
  using assms unfolding serving_def by (metis nth_mem)

lemma serving_wait:
  assumes "serving ex" and "i < length (ex_workers ex)" and "fst (ex_workers ex ! i) \<noteq> Finished"
  shows "serving (waitForJob i ex)"
proof (cases "fst (ex_workers ex ! i) = Woken \<and> snd (ex_workers ex ! i)")
  case True
  then have "ex_needStop ex" using serving_unflagged [OF assms] by simp
  then show ?thesis using True by (simp add: waitForJob_def serving_def)
next
  case other: False
  show ?thesis
  proof (cases "ex_queue ex")
    case Nil
    show ?thesis
    proof (cases "ex_needStop ex")
      case False
      then have "\<not> snd (ex_workers ex ! i)" using assms by (simp add: serving_def)
      then show ?thesis using Nil serving_update [OF assms, of Waiting ex] by (simp add: waitForJob_def)
    qed (use other Nil in \<open>auto simp: serving_def waitForJob_def\<close>)
  next
    case (Cons job jobs)
    then show ?thesis using other by (auto simp: waitForJob_def active_def serving_update [OF assms])
  qed
qed

lemma serving_step:
  assumes "exec_step ex ex'" and s: "serving ex"
  shows "serving ex'"
  using assms(1)
proof (cases rule: exec_step.cases)
  case start
  then show ?thesis
    using s by (auto simp: executor_start_def serving_def active_def)
next
  case shutdown
  then show ?thesis using s by (simp add: executor_shutdown_def serving_def)
next
  case (submit i job)
  show ?thesis
  proof (cases "ex_queue ex = []")
    case True
    then show ?thesis
      using submit s by (auto simp: executor_execute_def is_waiting_def active_def intro!: serving_update [OF s])
  next
    case False
    then show ?thesis using submit s by (simp add: executor_execute_def serving_def)
  qed
next
  case (submit_none job)
  have "active w" if "w \<in> set (ex_workers ex)" "fst w \<noteq> Finished" for w
    using that submit_none(2) by (auto simp: active_def is_waiting_def in_set_conv_nth)
  moreover have "ex_workers ex' = ex_workers ex" "ex_needStop ex' = ex_needStop ex" "ex_poolSize ex' = ex_poolSize ex"
    using submit_none(1) by (simp_all add: executor_execute_def Let_def)
  ultimately show ?thesis using s unfolding serving_def by metis
next
  case (work i)
  then show ?thesis
    using serving_wait [OF s work(1)] serving_update [OF s work(1), of _ ex] s
    by (auto simp: run_step_def active_def serving_def [of ex] split: worker.splits if_splits)
      (auto simp: serving_def)
next
  case (spurious i)
  then show ?thesis using s by (auto simp: is_waiting_def active_def intro!: serving_update [OF s])
next
  case (interrupted i job)
  then have "ex_needStop ex" using serving_unflagged [OF s] by simp
  then show ?thesis using interrupted by (simp add: serving_def)
qed

lemma serving_reach: "exec_reach n ex \<Longrightarrow> serving ex"
  by (induction rule: exec_reach.induct) (simp add: serving_def new_executor_def, rule serving_step)

text \<open>The steps of one worker: \<open>k\<close> steps of \<open>run\<close>.\<close>

fun run_steps :: "nat \<Rightarrow> nat \<Rightarrow> 'j executor \<Rightarrow> 'j executor option" where
  "run_steps 0 i ex = Some ex"
| "run_steps (Suc k) i ex = (case run_step i ex of None \<Rightarrow> None | Some ex' \<Rightarrow> run_steps k i ex')"

lemma take_next:
  assumes "i < length (ex_workers ex)" and "active (ex_workers ex ! i)" and "\<not> ex_needStop ex" and "ex_queue ex = job # jobs"
    and "\<not> snd (ex_workers ex ! i)"
  shows "\<exists>k ex'. k \<le> 3 \<and> run_steps k i ex = Some ex' \<and> ex_started ex' = ex_started ex @ [job] \<and> ex_queue ex' = jobs"
proof -
  have e: "\<exists>ex'. run_steps 1 i ex = Some ex' \<and> ex_started ex' = ex_started ex @ [job] \<and> ex_queue ex' = jobs"
    if "fst (ex_workers ex ! i) \<in> {Entering, Woken}" "ex_queue ex = job # jobs" "\<not> snd (ex_workers ex ! i)" for ex
    using that by (auto simp: run_step_def waitForJob_def)
  have l: "\<exists>ex'. run_steps 2 i ex = Some ex' \<and> ex_started ex' = ex_started ex @ [job] \<and> ex_queue ex' = jobs"
    if "fst (ex_workers ex ! i) = Looping" "i < length (ex_workers ex)" "\<not> ex_needStop ex" "ex_queue ex = job # jobs"
      "\<not> snd (ex_workers ex ! i)" for ex
    using that e [of "set_worker i Entering ex"] by (simp add: run_step_def numeral_2_eq_2)
  consider "fst (ex_workers ex ! i) \<in> {Entering, Woken}" | "fst (ex_workers ex ! i) = Looping" | j where "fst (ex_workers ex ! i) = Running j"
    using assms(2) by (cases "fst (ex_workers ex ! i)") (auto simp: active_def)
  then show ?thesis
  proof cases
    case 1
    then show ?thesis using e [of ex] assms(4,5) by (intro exI [of _ 1]) auto
  next
    case 2
    then show ?thesis using l [of ex] assms by (intro exI [of _ 2]) auto
  next
    case (3 j)
    then have "run_steps 3 i ex = run_steps 2 i (set_worker i Looping ex)"
      by (simp add: run_step_def numeral_3_eq_3 numeral_2_eq_2)
    then show ?thesis using l [of "set_worker i Looping ex"] assms by (intro exI [of _ 3]) auto
  qed
qed

text \<open>Property C13. In every interleaving of submitting threads, workers, wake-ups with and without notification,
  starts and shutdowns, jobs start in the order in which they were submitted, each at most once: what was
  submitted is what was started followed by the queue.  And no job is forgotten: while the executor
  runs with a non-empty pool and the queue is not empty, some worker reaches its head within three of its own steps.\<close>

theorem executor_serves:
  assumes "exec_reach n ex"
  shows "ex_submitted ex = ex_started ex @ ex_queue ex \<and>
    (\<not> ex_needStop ex \<and> 0 < ex_poolSize ex \<longrightarrow> (\<forall>job jobs. ex_queue ex = job # jobs \<longrightarrow>
      (\<exists>i k ex'. i < length (ex_workers ex) \<and> k \<le> 3 \<and> run_steps k i ex = Some ex' \<and>
         ex_started ex' = ex_started ex @ [job] \<and> ex_queue ex' = jobs)))"
proof -
  have "\<exists>i k ex'. i < length (ex_workers ex) \<and> k \<le> 3 \<and> run_steps k i ex = Some ex' \<and>
         ex_started ex' = ex_started ex @ [job] \<and> ex_queue ex' = jobs"
    if q: "\<not> ex_needStop ex" "0 < ex_poolSize ex" "ex_queue ex = job # jobs" for job jobs
  proof -
    obtain w where "w \<in> set (ex_workers ex)" "active w"
      using serving_reach [OF assms] q by (auto simp: serving_def)
    then obtain i where i: "i < length (ex_workers ex)" "active (ex_workers ex ! i)" by (metis in_set_conv_nth)
    moreover have "\<not> snd (ex_workers ex ! i)"
      using serving_unflagged [OF serving_reach [OF assms] i(1)] q(1) i(2) by (auto simp: active_def)
    ultimately obtain k ex' where "k \<le> 3" "run_steps k i ex = Some ex'"
      "ex_started ex' = ex_started ex @ [job]" "ex_queue ex' = jobs" using take_next [OF i q(1,3)] by blast
    then show ?thesis using i(1) by (intro exI conjI)
  qed
  then show ?thesis using fifo_reach [OF assms, unfolded fifo_def] by (intro conjI impI allI) (assumption, elim conjE)
qed

definition example_executor :: "nat executor" where
  "example_executor = executor_execute 7 None (executor_start (new_executor 1))"

lemma example_executor_reach: "exec_reach 1 example_executor"
proof -
  have "exec_step (new_executor 1) (executor_start (new_executor 1) :: nat executor)"
    by (rule exec_step.start) (simp add: new_executor_def)
  then have s: "exec_reach 1 (executor_start (new_executor 1) :: nat executor)" using exec_reach.intros by blast
  have "\<not> is_waiting (executor_start (new_executor 1) :: nat executor) i" for i
    by (cases i) (simp_all add: is_waiting_def executor_start_def new_executor_def)
  then show ?thesis unfolding example_executor_def using s exec_reach.step exec_step.submit_none by metis
qed

theorem executor_serves_witness:
  "\<exists>i k ex'. i < length (ex_workers example_executor) \<and> k \<le> 3 \<and> run_steps k i example_executor = Some ex' \<and> ex_started ex' = [7]"
proof -
  have "\<not> ex_needStop example_executor" "0 < ex_poolSize example_executor" "ex_queue example_executor = [7]"
      "ex_started example_executor = []"
    by (simp_all add: example_executor_def executor_execute_def executor_start_def new_executor_def)
  then show ?thesis using executor_serves [OF example_executor_reach] by auto
qed

text \<open>
  Only the first of several jobs wakes a worker: with two idle workers, two jobs handed in one after the other
  leave one worker asleep while the second job waits for the other worker.
\<close>

lemma second_job_wakes_nobody:
  assumes "ex_queue ex \<noteq> []"
  shows "ex_workers (executor_execute job notified ex) = ex_workers ex"
  using assms by (simp add: executor_execute_def Let_def)

end
