(* ===== verification/Event_Scheduler.thy ===== *)
theory Event_Scheduler
  imports Complex_Main Task_Executor
begin

text \<open>
  \<open>scheduler/*\<close>: timed tasks over libevent and an executor with one thread.  A \<open>TaskPtr\<close> is the index of its task
  in the list of all tasks; callers keep their pointers, so no task is destroyed.  Of libevent the model keeps
  what the code asks of it: the deadline of every pending timer.  \<open>evtimer_add\<close> sets or replaces the deadline,
  \<open>evtimer_del\<close> removes it, and the loop takes a timer that is due out and then calls \<open>eventCallback\<close>.  A method that
  holds the recursive mutex is one step; \<open>addTask\<close>, which holds it only inside \<open>addToMap\<close>, is two, as is the firing of a
  timer, and \<open>Task::run\<close>, which never holds it, is three.  The callbacks of tasks may call every operation of the
  scheduler and \<open>Task::execute\<close>, as other threads may.  Not steps of the model are \<open>Task::reset\<close>, \<open>Task::setTv\<close> and
  \<open>Task::run\<close> called from outside the scheduler and its executor, and a callback that ends with the interruption of
  its thread at shutdown; the last section shows what the first and the last of them do.  A \<open>double\<close> is a
  rational number; its rounding is not modelled, and delays stay below the \<open>2\<^sup>3\<^sup>1\<close> seconds up to which the
  conversion to \<open>int\<close> is defined.
\<close>

section \<open>Intervals\<close>

datatype direction = UP | DOWN | EVEN

datatype interval_generator = SimpleIntervalGenerator rat | RandomIntervalGenerator rat rat direction

definition fractional :: "rat \<Rightarrow> rat" where
  "fractional x = frac \<bar>x\<bar>"

text \<open>\<open>nextInterval\<close>; the first argument is what the random generator draws.\<close>

fun nextInterval :: "rat \<Rightarrow> interval_generator \<Rightarrow> rat" where
  "nextInterval percent (SimpleIntervalGenerator interval) = interval"
| "nextInterval percent (RandomIntervalGenerator interval m_percent UP) = interval * (1 + percent)"
| "nextInterval percent (RandomIntervalGenerator interval m_percent DOWN) = interval * (1 - percent)"
| "nextInterval percent (RandomIntervalGenerator interval m_percent EVEN) = interval * (1 - m_percent / 2 + percent)"

section \<open>Tasks\<close>

record timeval =
  tv_sec :: int
  tv_usec :: int

text \<open>A task without generator is a \<open>OneTimeTask\<close>, one with a generator a \<open>PeriodicTask\<close>.\<close>

record sched_task =
  t_tag :: string
  t_generator :: "interval_generator option"
  t_invoked :: bool
  t_tv :: timeval

definition setTv :: "rat \<Rightarrow> sched_task \<Rightarrow> sched_task" where
  "setTv delay t = t\<lparr> t_tv := \<lparr> tv_sec = \<lfloor>\<bar>delay\<bar>\<rfloor>, tv_usec = \<lfloor>frac \<bar>delay\<bar> * 1000000\<rfloor> \<rparr> \<rparr>"

definition new_task :: "string \<Rightarrow> interval_generator option \<Rightarrow> sched_task" where
  "new_task tag generator = \<lparr> t_tag = tag, t_generator = generator, t_invoked = False, t_tv = \<lparr> tv_sec = 0, tv_usec = 0 \<rparr> \<rparr>"

definition new_one_time_task :: "string \<Rightarrow> rat \<Rightarrow> sched_task" where
  "new_one_time_task tag delay = setTv delay (new_task tag None)"

definition new_periodic_task :: "string \<Rightarrow> interval_generator \<Rightarrow> sched_task" where
  "new_periodic_task tag generator = new_task tag (Some generator)"

definition task_reset :: "rat \<Rightarrow> sched_task \<Rightarrow> sched_task" where
  "task_reset percent t =
     (case t_generator t of
        None \<Rightarrow> t\<lparr> t_invoked := False \<rparr>
      | Some generator \<Rightarrow> setTv (nextInterval percent generator) (t\<lparr> t_invoked := False \<rparr>))"

section \<open>The scheduler\<close>

datatype sched_job = TaskRun nat | UserJob

text \<open>
  Where a worker of the executor is in \<open>Task::run\<close>: before the test of \<open>m_invoked\<close>, in the callback, before
  \<open>deregisterSelf\<close> or \<open>rescheduleTask\<close>, or behind it.
\<close>

datatype phase = NoJob | Begin nat | Callback nat | Epilogue nat | Returned

text \<open>
  \<open>s_loop\<close> says that the thread of the event loop dispatches; \<open>s_adding\<close> holds the tasks that a caller of \<open>addTask\<close>
  has put into the map and not yet armed, with its argument \<open>reset\<close>; \<open>s_firing\<close> is the task whose timer the loop has
  taken out and whose \<open>eventCallback\<close> it has not yet finished.
\<close>

record scheduler =
  s_now :: int
  s_running :: bool
  s_loop :: bool
  s_tasks :: "sched_task list"
  s_taskMap :: "(string \<times> nat) list"
  s_timers :: "nat \<Rightarrow> int option"
  s_adding :: "(nat \<times> bool) list"
  s_executor :: "sched_job executor"
  s_phase :: "nat \<Rightarrow> phase"
  s_firing :: "nat option"

definition new_scheduler :: "int \<Rightarrow> scheduler" where
  "new_scheduler now =
     \<lparr> s_now = now, s_running = False, s_loop = False, s_tasks = [], s_taskMap = [], s_timers = (\<lambda>_. None), s_adding = [],
       s_executor = new_executor 1, s_phase = (\<lambda>_. NoJob), s_firing = None \<rparr>"

abbreviation task_at :: "scheduler \<Rightarrow> nat \<Rightarrow> sched_task" where
  "task_at s t \<equiv> s_tasks s ! t"

definition on_task :: "nat \<Rightarrow> (sched_task \<Rightarrow> sched_task) \<Rightarrow> scheduler \<Rightarrow> scheduler" where
  "on_task t f s = s\<lparr> s_tasks := (s_tasks s)[t := f (task_at s t)] \<rparr>"

definition evtimer_add :: "nat \<Rightarrow> scheduler \<Rightarrow> scheduler" where
  "evtimer_add t s =
     s\<lparr> s_timers := (s_timers s)(t \<mapsto> s_now s + tv_sec (t_tv (task_at s t)) * 1000000 + tv_usec (t_tv (task_at s t))) \<rparr>"

definition evtimer_del :: "nat \<Rightarrow> scheduler \<Rightarrow> scheduler" where
  "evtimer_del t s = s\<lparr> s_timers := (s_timers s)(t := None) \<rparr>"

text \<open>The creation of a task; the new pointer is the number of tasks so far.\<close>

definition create_task :: "sched_task \<Rightarrow> scheduler \<Rightarrow> scheduler" where
  "create_task t s = s\<lparr> s_tasks := s_tasks s @ [t] \<rparr>"

definition addToMap :: "nat \<Rightarrow> scheduler \<Rightarrow> bool \<times> scheduler" where
  "addToMap t s =
     (let tag = t_tag (task_at s t)
      in if map_of (s_taskMap s) tag = None then (True, s\<lparr> s_taskMap := (tag, t) # s_taskMap s \<rparr>) else (False, s))"

definition arm_added :: "rat \<Rightarrow> bool \<Rightarrow> nat \<Rightarrow> scheduler \<Rightarrow> scheduler" where
  "arm_added percent reset t s = evtimer_add t (if reset then on_task t (task_reset percent) s else s)"

text \<open>\<open>addTask\<close> as it is called with the mutex held, and its two steps when it is not.\<close>

definition addTask :: "rat \<Rightarrow> bool \<Rightarrow> nat \<Rightarrow> scheduler \<Rightarrow> bool \<times> scheduler" where
  "addTask percent reset t s =
     (case addToMap t s of (ok, s') \<Rightarrow> if ok then (True, arm_added percent reset t s') else (False, s'))"

definition addTask_begin :: "bool \<Rightarrow> nat \<Rightarrow> scheduler \<Rightarrow> scheduler" where
  "addTask_begin reset t s = (case addToMap t s of (ok, s') \<Rightarrow> if ok then s'\<lparr> s_adding := (t, reset) # s_adding s' \<rparr> else s')"

definition addTask_finish :: "rat \<Rightarrow> bool \<Rightarrow> nat \<Rightarrow> scheduler \<Rightarrow> scheduler" where
  "addTask_finish percent reset t s = (arm_added percent reset t s)\<lparr> s_adding := remove1 (t, reset) (s_adding s) \<rparr>"

definition scheduleOneTimeTask :: "rat \<Rightarrow> string \<Rightarrow> scheduler \<Rightarrow> scheduler" where
  "scheduleOneTimeTask delay tag s = addTask_begin True (length (s_tasks s)) (create_task (new_one_time_task tag delay) s)"

definition schedulePeriodicTask :: "interval_generator \<Rightarrow> string \<Rightarrow> scheduler \<Rightarrow> scheduler" where
  "schedulePeriodicTask generator tag s =
     addTask_begin True (length (s_tasks s)) (create_task (new_periodic_task tag generator) s)"

definition rescheduleTask_tag :: "rat \<Rightarrow> string \<Rightarrow> scheduler \<Rightarrow> scheduler" where
  "rescheduleTask_tag percent tag s =
     (case map_of (s_taskMap s) tag of None \<Rightarrow> s | Some t \<Rightarrow> evtimer_add t (on_task t (task_reset percent) s))"

definition rescheduleTask :: "rat \<Rightarrow> nat \<Rightarrow> scheduler \<Rightarrow> scheduler" where
  "rescheduleTask percent task s =
     (case map_of (s_taskMap s) (t_tag (task_at s task)) of
        None \<Rightarrow> snd (addTask percent True task s)
      | Some t \<Rightarrow> evtimer_add t (on_task t (task_reset percent) s))"

definition rescheduleTaskAt_tag :: "rat \<Rightarrow> string \<Rightarrow> rat \<Rightarrow> scheduler \<Rightarrow> scheduler" where
  "rescheduleTaskAt_tag percent tag time s =
     (case map_of (s_taskMap s) tag of
        None \<Rightarrow> s
      | Some t \<Rightarrow> evtimer_add t (on_task t (setTv time) (on_task t (task_reset percent) s)))"

definition rescheduleTaskAt :: "rat \<Rightarrow> nat \<Rightarrow> rat \<Rightarrow> scheduler \<Rightarrow> scheduler" where
  "rescheduleTaskAt percent task time s =
     (case map_of (s_taskMap s) (t_tag (task_at s task)) of
        None \<Rightarrow> snd (addTask percent False task (on_task task (setTv time) s))
      | Some t \<Rightarrow> evtimer_add t (on_task t (setTv time) (on_task t (task_reset percent) s)))"

definition deleteTask :: "string \<Rightarrow> scheduler \<Rightarrow> scheduler" where
  "deleteTask tag s =
     (case map_of (s_taskMap s) tag of
        None \<Rightarrow> s
      | Some t \<Rightarrow> (evtimer_del t s)\<lparr> s_taskMap := filter (\<lambda>p. fst p \<noteq> tag) (s_taskMap s) \<rparr>)"

definition deleteTask_ptr :: "nat \<Rightarrow> scheduler \<Rightarrow> scheduler" where
  "deleteTask_ptr t s = deleteTask (t_tag (task_at s t)) s"

text \<open>The scan of the map with a matcher; the order of the scan does not matter.\<close>

fun delete_matching :: "(sched_task \<Rightarrow> bool) \<Rightarrow> (string \<times> nat) list \<Rightarrow> scheduler \<Rightarrow> scheduler" where
  "delete_matching matcher [] s = s"
| "delete_matching matcher ((tag, t) # rest) s =
     delete_matching matcher rest
       (if matcher (task_at s t) then (evtimer_del t s)\<lparr> s_taskMap := filter (\<lambda>p. fst p \<noteq> tag) (s_taskMap s) \<rparr> else s)"

definition deleteTask_matcher :: "(sched_task \<Rightarrow> bool) \<Rightarrow> scheduler \<Rightarrow> scheduler" where
  "deleteTask_matcher matcher s = delete_matching matcher (s_taskMap s) s"

definition scheduler_size :: "scheduler \<Rightarrow> nat" where
  "scheduler_size s = length (s_taskMap s)"

section \<open>Threads\<close>

definition scheduler_execute :: "sched_job \<Rightarrow> nat option \<Rightarrow> scheduler \<Rightarrow> scheduler" where
  "scheduler_execute job notified s = s\<lparr> s_executor := executor_execute job notified (s_executor s) \<rparr>"

definition task_execute :: "nat \<Rightarrow> nat option \<Rightarrow> scheduler \<Rightarrow> scheduler" where
  "task_execute t notified s = scheduler_execute (TaskRun t) notified s"

text \<open>The loop takes a due timer out; \<open>eventCallback\<close> executes its task.\<close>

definition take_timer :: "nat \<Rightarrow> scheduler \<Rightarrow> scheduler" where
  "take_timer t s = (evtimer_del t s)\<lparr> s_firing := Some t \<rparr>"

definition eventCallback :: "nat \<Rightarrow> nat option \<Rightarrow> scheduler \<Rightarrow> scheduler" where
  "eventCallback t notified s = (task_execute t notified s)\<lparr> s_firing := None \<rparr>"

definition scheduler_start :: "scheduler \<Rightarrow> scheduler" where
  "scheduler_start s =
     (if \<not> s_running s then s\<lparr> s_running := True, s_loop := True, s_executor := executor_start (s_executor s) \<rparr> else s)"

text \<open>\<open>shutdown\<close>: what it does with the mutex held, and the rest up to joining the threads.\<close>

definition shutdown_begin :: "scheduler \<Rightarrow> scheduler" where
  "shutdown_begin s = s\<lparr> s_running := False \<rparr>"

definition shutdown_finish :: "scheduler \<Rightarrow> scheduler" where
  "shutdown_finish s = s\<lparr> s_loop := False, s_executor := executor_shutdown (s_executor s) \<rparr>"

text \<open>One step of a worker outside \<open>Task::run\<close>.\<close>

definition worker_step :: "nat \<Rightarrow> scheduler \<Rightarrow> scheduler option" where
  "worker_step i s =
     (case run_step i (s_executor s) of
        None \<Rightarrow> None
      | Some ex \<Rightarrow> Some (s\<lparr> s_executor := ex,
          s_phase := (s_phase s)(i := (case fst (ex_workers ex ! i) of
                                         Running (TaskRun t) \<Rightarrow> Begin t | Running UserJob \<Rightarrow> Returned | _ \<Rightarrow> NoJob)) \<rparr>))"

text \<open>\<open>OneTimeTask::run\<close> and \<open>PeriodicTask::run\<close>, up to the callback, up to its return, and the rest.\<close>

definition set_phase :: "nat \<Rightarrow> phase \<Rightarrow> scheduler \<Rightarrow> scheduler" where
  "set_phase i p s = s\<lparr> s_phase := (s_phase s)(i := p) \<rparr>"

definition run_begin :: "nat \<Rightarrow> nat \<Rightarrow> scheduler \<Rightarrow> scheduler" where
  "run_begin i t s =
     (if t_invoked (task_at s t) then set_phase i Returned s
      else set_phase i (Callback t)
        (case t_generator (task_at s t) of None \<Rightarrow> s | Some _ \<Rightarrow> on_task t (\<lambda>t. t\<lparr> t_invoked := True \<rparr>) s))"

definition run_return :: "nat \<Rightarrow> nat \<Rightarrow> scheduler \<Rightarrow> scheduler" where
  "run_return i t s =
     (case t_generator (task_at s t) of
        None \<Rightarrow> set_phase i (Epilogue t) (on_task t (\<lambda>t. t\<lparr> t_invoked := True \<rparr>) s)
      | Some _ \<Rightarrow> set_phase i (if t_invoked (task_at s t) then Epilogue t else Returned) s)"

definition run_epilogue :: "rat \<Rightarrow> nat \<Rightarrow> nat \<Rightarrow> scheduler \<Rightarrow> scheduler" where
  "run_epilogue percent i t s =
     set_phase i Returned
       (case t_generator (task_at s t) of
          None \<Rightarrow> deleteTask (t_tag (task_at s t)) s
        | Some _ \<Rightarrow> rescheduleTask_tag percent (t_tag (task_at s t)) s)"

section \<open>Interleaving\<close>

text \<open>
  \<open>notified\<close> is the worker that \<open>notify_one\<close> wakes: some waiting worker when there is one.
\<close>

definition notifies :: "sched_job executor \<Rightarrow> nat option \<Rightarrow> bool" where
  "notifies ex notified \<longleftrightarrow> (case notified of None \<Rightarrow> \<not> (\<exists>i. is_waiting ex i) | Some i \<Rightarrow> is_waiting ex i)"

inductive sched_step :: "scheduler \<Rightarrow> scheduler \<Rightarrow> bool" where
  tick: "0 \<le> d \<Longrightarrow> sched_step s (s\<lparr> s_now := s_now s + d \<rparr>)"
| create: "\<not> t_invoked t \<Longrightarrow> sched_step s (create_task t s)"
| once: "sched_step s (scheduleOneTimeTask delay tag s)"
| periodic: "sched_step s (schedulePeriodicTask generator tag s)"
| add: "t < length (s_tasks s) \<Longrightarrow> sched_step s (addTask_begin reset t s)"
| added: "(t, reset) \<in> set (s_adding s) \<Longrightarrow> sched_step s (addTask_finish percent reset t s)"
| resched: "t < length (s_tasks s) \<Longrightarrow> sched_step s (rescheduleTask percent t s)"
| resched_tag: "sched_step s (rescheduleTask_tag percent tag s)"
| resched_at: "t < length (s_tasks s) \<Longrightarrow> sched_step s (rescheduleTaskAt percent t time s)"
| resched_at_tag: "sched_step s (rescheduleTaskAt_tag percent tag time s)"
| delete: "sched_step s (deleteTask tag s)"
| delete_ptr: "t < length (s_tasks s) \<Longrightarrow> sched_step s (deleteTask_ptr t s)"
| delete_match: "sched_step s (deleteTask_matcher matcher s)"
| user: "notifies (s_executor s) notified \<Longrightarrow> sched_step s (scheduler_execute UserJob notified s)"
| execute: "t < length (s_tasks s) \<Longrightarrow> notifies (s_executor s) notified \<Longrightarrow> sched_step s (task_execute t notified s)"
| start: "s_running s \<or> \<not> s_loop s \<and> s_firing s = None \<and> (\<forall>w\<in>set (ex_workers (s_executor s)). fst w = Finished) \<Longrightarrow>
    sched_step s (scheduler_start s)"
| stop: "s_running s \<Longrightarrow> sched_step s (shutdown_begin s)"
| stopped: "\<not> s_running s \<Longrightarrow> s_loop s \<Longrightarrow> sched_step s (shutdown_finish s)"
| fire: "s_loop s \<Longrightarrow> s_firing s = None \<Longrightarrow> s_timers s t = Some deadline \<Longrightarrow> deadline \<le> s_now s \<Longrightarrow>
    sched_step s (take_timer t s)"
| fired: "s_firing s = Some t \<Longrightarrow> notifies (s_executor s) notified \<Longrightarrow> sched_step s (eventCallback t notified s)"
| wake: "is_waiting (s_executor s) i \<Longrightarrow> sched_step s (s\<lparr> s_executor := set_worker i Woken (s_executor s) \<rparr>)"
| work: "i < length (ex_workers (s_executor s)) \<Longrightarrow> s_phase s i \<in> {NoJob, Returned} \<Longrightarrow> worker_step i s = Some s' \<Longrightarrow>
    sched_step s s'"
| begin_run: "s_phase s i = Begin t \<Longrightarrow> sched_step s (run_begin i t s)"
| return_run: "s_phase s i = Callback t \<Longrightarrow> sched_step s (run_return i t s)"
| end_run: "s_phase s i = Epilogue t \<Longrightarrow> sched_step s (run_epilogue percent i t s)"

inductive sched_reach :: "scheduler \<Rightarrow> bool" where
  init: "sched_reach (new_scheduler now)"
| step: "sched_reach s \<Longrightarrow> sched_step s s' \<Longrightarrow> sched_reach s'"

section \<open>What the operations keep\<close>

lemma task_reset_fields [simp]:
  "t_tag (task_reset p t) = t_tag t" "t_generator (task_reset p t) = t_generator t" "\<not> t_invoked (task_reset p t)"
  "t_tag (setTv d t) = t_tag t" "t_generator (setTv d t) = t_generator t" "t_invoked (setTv d t) = t_invoked t"
  by (simp_all add: task_reset_def setTv_def split: option.splits)

lemma primitive_fields [simp]:
  "s_firing (on_task t f s) = s_firing s" "s_firing (evtimer_add t s) = s_firing s" "s_firing (evtimer_del t s) = s_firing s"
  "s_firing (set_phase i p s) = s_firing s"
  "s_taskMap (on_task t f s) = s_taskMap s" "s_timers (on_task t f s) = s_timers s" "s_adding (on_task t f s) = s_adding s"
  "s_executor (on_task t f s) = s_executor s" "s_phase (on_task t f s) = s_phase s"
  "length (s_tasks (on_task t f s)) = length (s_tasks s)"
  "s_taskMap (evtimer_add t s) = s_taskMap s" "s_tasks (evtimer_add t s) = s_tasks s" "s_adding (evtimer_add t s) = s_adding s"
  "s_executor (evtimer_add t s) = s_executor s" "s_phase (evtimer_add t s) = s_phase s"
  "s_taskMap (evtimer_del t s) = s_taskMap s" "s_tasks (evtimer_del t s) = s_tasks s" "s_adding (evtimer_del t s) = s_adding s"
  "s_executor (evtimer_del t s) = s_executor s" "s_phase (evtimer_del t s) = s_phase s"
  "s_timers (evtimer_del t s) = (s_timers s)(t := None)"
  "s_taskMap (set_phase i p s) = s_taskMap s" "s_tasks (set_phase i p s) = s_tasks s" "s_adding (set_phase i p s) = s_adding s"
  "s_executor (set_phase i p s) = s_executor s" "s_timers (set_phase i p s) = s_timers s"
  "s_phase (set_phase i p s) = (s_phase s)(i := p)"
  by (simp_all add: on_task_def evtimer_add_def evtimer_del_def set_phase_def)

lemma task_at_on_task:
  "task_at (on_task t f s) u = (if u = t \<and> t < length (s_tasks s) then f (task_at s t) else task_at s u)"
  by (cases "u = t") (simp_all add: on_task_def nth_list_update list_update_beyond)

lemma armed [simp]: "s_timers (evtimer_add t s) u = None \<longleftrightarrow> u \<noteq> t \<and> s_timers s u = None"
  by (simp add: evtimer_add_def)

text \<open>The map gives every tag one task, which has that tag.\<close>

definition map_ok :: "scheduler \<Rightarrow> bool" where
  "map_ok s \<longleftrightarrow> distinct (map fst (s_taskMap s)) \<and>
     (\<forall>(tag, t)\<in>set (s_taskMap s). t < length (s_tasks s) \<and> t_tag (task_at s t) = tag)"

text \<open>
  A task on its way to its callback: its timer is pending or just taken out, a caller is about to arm it, or its job
  is queued or running.
\<close>

definition on_the_way :: "scheduler \<Rightarrow> nat \<Rightarrow> bool" where
  "on_the_way s t \<longleftrightarrow> s_timers s t \<noteq> None \<or> s_firing s = Some t \<or> t \<in> fst ` set (s_adding s) \<or> TaskRun t \<in> set (ex_queue (s_executor s)) \<or>
     (\<exists>i. s_phase s i = Begin t) \<or> (t_generator (task_at s t) = None \<and> (\<exists>i. s_phase s i = Callback t))"

definition none_lost :: "scheduler \<Rightarrow> bool" where
  "none_lost s \<longleftrightarrow> (\<forall>(tag, t)\<in>set (s_taskMap s). t_invoked (task_at s t) \<or> on_the_way s t)"



definition sched_ok :: "scheduler \<Rightarrow> bool" where
  "sched_ok s \<longleftrightarrow> map_ok s \<and> none_lost s"

lemma sched_okI:
  assumes "sched_ok s" and "map_ok s'"
    and "\<And>tag t. (tag, t) \<in> set (s_taskMap s') \<Longrightarrow> \<not> t_invoked (task_at s' t) \<Longrightarrow>
      on_the_way s' t \<or> (tag, t) \<in> set (s_taskMap s) \<and> \<not> t_invoked (task_at s t) \<and> (on_the_way s t \<longrightarrow> on_the_way s' t)"
  shows "sched_ok s'"
  using assms unfolding sched_ok_def none_lost_def by blast

lemma map_ok_same:
  assumes "map_ok s" and "s_taskMap s' = s_taskMap s" and "length (s_tasks s') = length (s_tasks s)"
    and "\<And>t. t_tag (task_at s' t) = t_tag (task_at s t)"
  shows "map_ok s'"
  using assms by (simp add: map_ok_def)

lemma way_on_task:
  "(\<And>x. t_generator (f x) = t_generator x) \<Longrightarrow> on_the_way (on_task t f s) u = on_the_way s u"
  by (simp add: on_the_way_def task_at_on_task)

lemma way_add: "on_the_way (evtimer_add t s) u \<longleftrightarrow> u = t \<or> on_the_way s u"
  by (auto simp: on_the_way_def)

lemma map_ok_on_task: "(\<And>x. t_tag (f x) = t_tag x) \<Longrightarrow> map_ok (on_task t f s) = map_ok s"
  by (auto simp: map_ok_def task_at_on_task split_beta)

lemma map_ok_simps [simp]:
  "map_ok (evtimer_add t s) = map_ok s" "map_ok (evtimer_del t s) = map_ok s" "map_ok (set_phase i p s) = map_ok s"
  by (simp_all add: map_ok_def)

lemma ok_on_task:
  assumes "sched_ok s" and "\<And>x. t_tag (f x) = t_tag x" "\<And>x. t_generator (f x) = t_generator x"
    and "\<And>x. t_invoked x \<Longrightarrow> t_invoked (f x)"
  shows "sched_ok (on_task t f s)"
proof (rule sched_okI [OF assms(1)])
  show "map_ok (on_task t f s)" using assms by (simp add: map_ok_on_task sched_ok_def)
qed (use assms(4) in \<open>auto simp: way_on_task assms(3) task_at_on_task split: if_splits\<close>)

lemma ok_arm:
  assumes "sched_ok s" and "\<And>x. t_tag (f x) = t_tag x" "\<And>x. t_generator (f x) = t_generator x"
  shows "sched_ok (evtimer_add t (on_task t f s))"
proof (rule sched_okI [OF assms(1)])
  show "map_ok (evtimer_add t (on_task t f s))" using assms by (simp add: map_ok_on_task sched_ok_def)
qed (auto simp: way_on_task assms(3) way_add task_at_on_task split: if_splits)

lemma ok_add: "sched_ok s \<Longrightarrow> sched_ok (evtimer_add t s)"
  by (rule sched_okI) (auto simp: way_add sched_ok_def)

lemma ok_addToMap:
  assumes "sched_ok s" and "t < length (s_tasks s)" and "addToMap t s = (ok, s')"
  shows "map_ok s'" and "\<And>tag u. (tag, u) \<in> set (s_taskMap s') \<Longrightarrow> u = t \<and> ok \<or> (tag, u) \<in> set (s_taskMap s)"
    and "\<And>u. on_the_way s' u = on_the_way s u" and "s_tasks s' = s_tasks s" and "\<not> ok \<Longrightarrow> s' = s"
  using assms
  by (auto simp: addToMap_def Let_def map_ok_def sched_ok_def on_the_way_def map_of_eq_None_iff split: if_splits)

lemma ok_addTask:
  assumes "sched_ok s" and "t < length (s_tasks s)"
  shows "sched_ok (snd (addTask percent reset t s))"
proof -
  obtain ok s' where a: "addToMap t s = (ok, s')" by fastforce
  note m = ok_addToMap [OF assms a]
  have "sched_ok (arm_added percent reset t s')" if ok
  proof (rule sched_okI [OF assms(1)])
    show "map_ok (arm_added percent reset t s')" using m(1) by (simp add: arm_added_def map_ok_on_task)
  qed (use m(2) in \<open>auto simp: arm_added_def way_add way_on_task m(3,4) task_at_on_task split: if_splits\<close>)
  then show ?thesis using a m(5) assms(1) by (auto simp: addTask_def)
qed

lemma ok_add_begin:
  assumes "sched_ok s" and "t < length (s_tasks s)"
  shows "sched_ok (addTask_begin reset t s)"
proof -
  obtain ok s' where a: "addToMap t s = (ok, s')" by fastforce
  note m = ok_addToMap [OF assms a]
  have w: "on_the_way (s'\<lparr> s_adding := (t, reset) # s_adding s' \<rparr>) u \<longleftrightarrow> u = t \<or> on_the_way s' u" for u
    by (auto simp: on_the_way_def)
  have "sched_ok (s'\<lparr> s_adding := (t, reset) # s_adding s' \<rparr>)" if ok
  proof (rule sched_okI [OF assms(1)])
    show "map_ok (s'\<lparr> s_adding := (t, reset) # s_adding s' \<rparr>)" using m(1) by (simp add: map_ok_def)
  qed (use m(2) in \<open>auto simp: w m(3,4)\<close>)
  then show ?thesis using a m(5) assms(1) by (auto simp: addTask_begin_def)
qed

lemma remove1_other: "u \<noteq> t \<Longrightarrow> u \<in> fst ` set (remove1 (t, r) xs) \<longleftrightarrow> u \<in> fst ` set xs"
  by (induction xs) auto

lemma ok_arm_added: "sched_ok s \<Longrightarrow> sched_ok (arm_added percent reset t s)"
  unfolding arm_added_def using ok_arm [of s "task_reset percent"] ok_add [of s] by simp

lemma ok_add_finish:
  assumes "sched_ok s" shows "sched_ok (addTask_finish percent reset t s)"
proof (rule sched_okI [OF ok_arm_added [OF assms]])
  show "map_ok (addTask_finish percent reset t s)"
    using ok_arm_added [OF assms, of percent reset t] by (simp add: sched_ok_def map_ok_def addTask_finish_def)
  fix tag u
  assume u: "(tag, u) \<in> set (s_taskMap (addTask_finish percent reset t s))" "\<not> t_invoked (task_at (addTask_finish percent reset t s) u)"
  have "on_the_way (addTask_finish percent reset t s) t" by (simp add: addTask_finish_def arm_added_def on_the_way_def)
  moreover have "on_the_way (arm_added percent reset t s) u \<Longrightarrow> on_the_way (addTask_finish percent reset t s) u" if "u \<noteq> t"
    by (cases reset) (simp_all add: on_the_way_def addTask_finish_def arm_added_def remove1_other [OF that])
  ultimately show "on_the_way (addTask_finish percent reset t s) u \<or>
      (tag, u) \<in> set (s_taskMap (arm_added percent reset t s)) \<and> \<not> t_invoked (task_at (arm_added percent reset t s) u) \<and>
      (on_the_way (arm_added percent reset t s) u \<longrightarrow> on_the_way (addTask_finish percent reset t s) u)"
    using u by (cases "u = t") (auto simp: addTask_finish_def)
qed

lemma ok_delete_entry:
  assumes "sched_ok s" and "t_tag (task_at s t) = tag"
  shows "sched_ok ((evtimer_del t s)\<lparr> s_taskMap := filter (\<lambda>p. fst p \<noteq> tag) (s_taskMap s) \<rparr>)" (is "sched_ok ?s")
proof (rule sched_okI [OF assms(1)])
  show "map_ok ?s" using assms(1) by (simp add: sched_ok_def map_ok_def distinct_map_filter)
  fix a u
  assume "(a, u) \<in> set (s_taskMap ?s)" "\<not> t_invoked (task_at ?s u)"
  then have u: "(a, u) \<in> set (s_taskMap s)" "a \<noteq> tag" "\<not> t_invoked (task_at s u)" by auto
  then have "u \<noteq> t" using assms by (auto simp: sched_ok_def map_ok_def)
  then have "on_the_way s u \<Longrightarrow> on_the_way ?s u" by (simp add: on_the_way_def)
  then show "on_the_way ?s u \<or> (a, u) \<in> set (s_taskMap s) \<and> \<not> t_invoked (task_at s u) \<and> (on_the_way s u \<longrightarrow> on_the_way ?s u)"
    using u by blast
qed

lemma map_of_task: "map_ok s \<Longrightarrow> map_of (s_taskMap s) tag = Some t \<Longrightarrow> t < length (s_tasks s) \<and> t_tag (task_at s t) = tag"
  by (auto simp: map_ok_def dest!: map_of_SomeD)

lemma ok_deleteTask: "sched_ok s \<Longrightarrow> sched_ok (deleteTask tag s)"
  using ok_delete_entry [of s] map_of_task [of s tag] by (auto simp: deleteTask_def sched_ok_def split: option.splits)

lemma ok_delete_matching:
  "sched_ok s \<Longrightarrow> \<forall>(tag, t)\<in>set m. t_tag (task_at s t) = tag \<Longrightarrow> sched_ok (delete_matching matcher m s)"
proof (induction m arbitrary: s)
  case (Cons p m)
  obtain tag t where p: "p = (tag, t)" by fastforce
  show ?case using Cons.prems ok_delete_entry [of s t tag] by (auto simp: p intro!: Cons.IH)
qed simp

lemma ok_reschedule_tag: "sched_ok s \<Longrightarrow> sched_ok (rescheduleTask_tag percent tag s)"
  by (auto simp: rescheduleTask_tag_def intro: ok_arm split: option.splits)

lemma on_task_on_task: "on_task t f (on_task t g s) = on_task t (\<lambda>x. f (g x)) s"
  by (cases "t < length (s_tasks s)") (simp_all add: on_task_def list_update_beyond)

lemma ok_reschedule_at_tag: "sched_ok s \<Longrightarrow> sched_ok (rescheduleTaskAt_tag percent tag time s)"
  by (auto simp: rescheduleTaskAt_tag_def on_task_on_task intro: ok_arm split: option.splits)

lemma ok_reschedule: "sched_ok s \<Longrightarrow> t < length (s_tasks s) \<Longrightarrow> sched_ok (rescheduleTask percent t s)"
  by (auto simp: rescheduleTask_def intro: ok_arm ok_addTask split: option.splits)

lemma ok_reschedule_at: "sched_ok s \<Longrightarrow> t < length (s_tasks s) \<Longrightarrow> sched_ok (rescheduleTaskAt percent t time s)"
  by (auto simp: rescheduleTaskAt_def on_task_on_task intro!: ok_arm ok_addTask ok_on_task split: option.splits)

lemma ok_create:
  assumes "sched_ok s" shows "sched_ok (create_task t s)"
proof (rule sched_okI [OF assms])
  show "map_ok (create_task t s)" using assms by (auto simp: sched_ok_def map_ok_def create_task_def nth_append)
  fix tag u
  assume "(tag, u) \<in> set (s_taskMap (create_task t s))" "\<not> t_invoked (task_at (create_task t s) u)"
  moreover from this have "u < length (s_tasks s)" using assms by (auto simp: sched_ok_def map_ok_def create_task_def)
  ultimately show "on_the_way (create_task t s) u \<or>
      (tag, u) \<in> set (s_taskMap s) \<and> \<not> t_invoked (task_at s u) \<and> (on_the_way s u \<longrightarrow> on_the_way (create_task t s) u)"
    by (simp add: create_task_def nth_append on_the_way_def)
qed

section \<open>What the threads keep\<close>

lemma queue_simps [simp]:
  "ex_queue (executor_execute j n ex) = ex_queue ex @ [j]" "ex_submitted (executor_execute j n ex) = ex_submitted ex @ [j]"
  "ex_queue (executor_start ex) = ex_queue ex" "ex_queue (executor_shutdown ex) = ex_queue ex"
  "ex_submitted (executor_start ex) = ex_submitted ex" "ex_submitted (executor_shutdown ex) = ex_submitted ex"
  by (simp_all add: executor_execute_def executor_start_def executor_shutdown_def Let_def split: option.splits)

lemma run_step_queue:
  assumes "run_step i ex = Some ex'" and "i < length (ex_workers ex)"
  shows "ex_submitted ex' = ex_submitted ex" and
    "(ex_queue ex' = ex_queue ex \<and> (\<forall>j. fst (ex_workers ex' ! i) \<noteq> Running j)) \<or>
     (\<exists>j. ex_queue ex = j # ex_queue ex' \<and> fst (ex_workers ex' ! i) = Running j)"
  using assms by (auto simp: run_step_def waitForJob_def split: worker.splits list.splits if_splits)

lemma ok_executor:
  assumes "sched_ok s" and "set (ex_queue (s_executor s)) \<subseteq> set (ex_queue ex)"
  shows "sched_ok (s\<lparr> s_executor := ex \<rparr>)"
  by (rule sched_okI [OF assms(1)]) (use assms in \<open>auto simp: sched_ok_def map_ok_def on_the_way_def\<close>)

lemma ok_way:
  assumes "sched_ok s" and "s_taskMap s' = s_taskMap s" and "s_tasks s' = s_tasks s"
    and "\<And>u. on_the_way s u \<Longrightarrow> on_the_way s' u"
  shows "sched_ok s'"
  using assms by (intro sched_okI [OF assms(1)]) (auto simp: sched_ok_def map_ok_def)

lemma ok_fire: "sched_ok s \<Longrightarrow> s_firing s = None \<Longrightarrow> sched_ok (take_timer t s)"
  by (erule ok_way) (auto simp: on_the_way_def take_timer_def)

lemma ok_fired: "sched_ok s \<Longrightarrow> s_firing s = Some t \<Longrightarrow> sched_ok (eventCallback t notified s)"
  by (erule ok_way) (auto simp: on_the_way_def eventCallback_def task_execute_def scheduler_execute_def)

text \<open>A worker leaves a phase that kept a task on its way only for another one, or when the task has been invoked.\<close>

lemma way_phase:
  assumes "on_the_way s u" and "s_phase s i \<noteq> Begin u" and "t_generator (task_at s u) = None \<longrightarrow> s_phase s i \<noteq> Callback u"
  shows "on_the_way (set_phase i p s) u"
proof -
  have q: "\<exists>k. ((s_phase s)(i := p)) k = q" if "\<exists>k. s_phase s k = q" "s_phase s i \<noteq> q" for q
    using that by (metis fun_upd_other)
  show ?thesis
    using assms(1) q [OF _ assms(2)] q [of "Callback u"] assms(3) unfolding on_the_way_def primitive_fields by blast
qed

lemma ok_phase:
  assumes "sched_ok s"
    and "\<And>u. s_phase s i = Begin u \<Longrightarrow> u < length (s_tasks s) \<Longrightarrow>
      t_invoked (task_at s u) \<or> p = Callback u \<and> t_generator (task_at s u) = None"
    and "\<And>u. s_phase s i = Callback u \<Longrightarrow> u < length (s_tasks s) \<Longrightarrow> t_generator (task_at s u) = None \<Longrightarrow> t_invoked (task_at s u)"
  shows "sched_ok (set_phase i p s)"
proof (rule sched_okI [OF assms(1)])
  show "map_ok (set_phase i p s)" using assms(1) by (simp add: sched_ok_def)
  fix tag u
  assume u: "(tag, u) \<in> set (s_taskMap (set_phase i p s))" "\<not> t_invoked (task_at (set_phase i p s) u)"
  then have l: "u < length (s_tasks s)" using assms(1) by (auto simp: sched_ok_def map_ok_def)
  have "on_the_way s u \<Longrightarrow> on_the_way (set_phase i p s) u"
  proof (cases "s_phase s i = Begin u")
    case True
    then have "p = Callback u \<and> t_generator (task_at s u) = None" using assms(2) l u(2) by auto
    then show ?thesis by (auto simp: on_the_way_def)
  next
    case False
    then show "on_the_way s u \<Longrightarrow> ?thesis" using assms(3) l u(2) by (intro way_phase) auto
  qed
  then show "on_the_way (set_phase i p s) u \<or>
      (tag, u) \<in> set (s_taskMap s) \<and> \<not> t_invoked (task_at s u) \<and> (on_the_way s u \<longrightarrow> on_the_way (set_phase i p s) u)"
    using u by simp
qed

lemma ok_worker:
  assumes "sched_ok s" and "worker_step i s = Some s'" and "i < length (ex_workers (s_executor s))" and "s_phase s i \<in> {NoJob, Returned}"
  shows "sched_ok s'"
proof -
  let ?ph = "\<lambda>ex. case fst (ex_workers ex ! i) of Running (TaskRun t) \<Rightarrow> Begin t | Running UserJob \<Rightarrow> Returned | _ \<Rightarrow> NoJob"
  obtain ex where ex: "run_step i (s_executor s) = Some ex" and s': "s' = set_phase i (?ph ex) (s\<lparr> s_executor := ex \<rparr>)"
    using assms(2) by (auto simp: worker_step_def set_phase_def split: option.splits)
  have p: "sched_ok (set_phase i p s)" for p using assms(1,4) by (intro ok_phase) auto
  have "on_the_way s' u" if w: "on_the_way (set_phase i (?ph ex) s) u" for u
    using run_step_queue(2) [OF ex assms(3)]
  proof (elim disjE exE conjE)
    fix j assume j: "ex_queue (s_executor s) = j # ex_queue ex" "fst (ex_workers ex ! i) = Running j"
    show ?thesis
    proof (cases "j = TaskRun u")
      case True
      then have "s_phase s' i = Begin u" using j by (simp add: s')
      then show ?thesis unfolding on_the_way_def by blast
    qed (use w j in \<open>simp add: on_the_way_def s'\<close>)
  qed (use w in \<open>simp add: on_the_way_def s'\<close>)
  moreover have "map_ok s'" using assms(1) by (simp add: s' sched_ok_def map_ok_def)
  ultimately show ?thesis by (intro sched_okI [OF p [of "?ph ex"]]) (auto simp: s')
qed

lemma ok_invoke: "sched_ok s \<Longrightarrow> sched_ok (on_task t (\<lambda>t. t\<lparr> t_invoked := True \<rparr>) s)"
  by (rule ok_on_task) auto

lemma ok_run_begin:
  assumes "sched_ok s" and "s_phase s i = Begin t" shows "sched_ok (run_begin i t s)"
proof (cases "t_generator (task_at s t)")
  case None
  then show ?thesis using assms by (auto simp: run_begin_def intro: ok_phase)
next
  case (Some g)
  have "sched_ok (set_phase i (Callback t) (on_task t (\<lambda>t. t\<lparr> t_invoked := True \<rparr>) s))"
    using ok_invoke [OF assms(1)] assms(2) by (intro ok_phase) (auto simp: task_at_on_task)
  then show ?thesis using assms Some by (auto simp: run_begin_def intro: ok_phase)
qed

lemma ok_run_return:
  assumes "sched_ok s" and "s_phase s i = Callback t" shows "sched_ok (run_return i t s)"
proof (cases "t_generator (task_at s t)")
  case None
  have "sched_ok (set_phase i (Epilogue t) (on_task t (\<lambda>t. t\<lparr> t_invoked := True \<rparr>) s))"
    using ok_invoke [OF assms(1)] assms(2) by (intro ok_phase) (auto simp: task_at_on_task)
  then show ?thesis using None by (simp add: run_return_def)
next
  case (Some g)
  then show ?thesis using assms by (auto simp: run_return_def intro: ok_phase)
qed

lemma phase_kept [simp]:
  "s_phase (deleteTask tag s) = s_phase s" "s_phase (rescheduleTask_tag percent tag s) = s_phase s"
  by (simp_all add: deleteTask_def rescheduleTask_tag_def split: option.splits)

lemma ok_run_epilogue:
  assumes "sched_ok s" and "s_phase s i = Epilogue t" shows "sched_ok (run_epilogue percent i t s)"
  unfolding run_epilogue_def
  using ok_deleteTask [OF assms(1)] ok_reschedule_tag [OF assms(1)] assms(2)
  by (intro ok_phase) (auto split: option.splits)

lemma ok_fields: "sched_ok (s\<lparr> s_now := n \<rparr>) = sched_ok s" "sched_ok (s\<lparr> s_running := b \<rparr>) = sched_ok s" "sched_ok (s\<lparr> s_loop := b \<rparr>) = sched_ok s"
  by (simp_all add: sched_ok_def map_ok_def none_lost_def on_the_way_def)

lemma ok_scheduled:
  assumes "sched_ok s" shows "sched_ok (addTask_begin True (length (s_tasks s)) (create_task t s))"
  using ok_create [OF assms] by (intro ok_add_begin) (simp_all add: create_task_def)

lemma ok_step:
  assumes "sched_step s s'" and "sched_ok s"
  shows "sched_ok s'"
  using assms(1)
proof cases
  case (delete_match matcher)
  then show ?thesis
    using assms(2) ok_delete_matching [of s "s_taskMap s"] by (auto simp: deleteTask_matcher_def sched_ok_def map_ok_def)
next
  case (work i)
  then show ?thesis using ok_worker [OF assms(2)] by blast
next
  case start
  have "s\<lparr> s_running := b, s_loop := c, s_executor := ex \<rparr> = (s\<lparr> s_running := b, s_loop := c \<rparr>)\<lparr> s_executor := ex \<rparr>" for b c ex by simp
  then show ?thesis using start assms(2) ok_executor [of "s\<lparr> s_running := True, s_loop := True \<rparr>"]
    by (simp add: scheduler_start_def ok_fields)
next
  case stopped
  then show ?thesis using assms(2) ok_executor [of "s\<lparr> s_loop := False \<rparr>"] by (simp add: shutdown_finish_def ok_fields)
qed (use assms(2) in \<open>auto simp: ok_fields shutdown_begin_def scheduler_execute_def task_execute_def deleteTask_ptr_def
      scheduleOneTimeTask_def schedulePeriodicTask_def
      intro!: ok_create ok_scheduled ok_add_begin ok_add_finish ok_reschedule ok_reschedule_tag ok_reschedule_at
        ok_reschedule_at_tag ok_deleteTask ok_executor ok_fire ok_fired ok_run_begin ok_run_return ok_run_epilogue\<close>)

lemma ok_reach: "sched_reach s \<Longrightarrow> sched_ok s"
  by (induction rule: sched_reach.induct)
    (simp add: sched_ok_def map_ok_def none_lost_def new_scheduler_def, rule ok_step)

section \<open>No task is stranded\<close>

text \<open>
  A task that enters the map with \<open>m_invoked\<close> set, and that \<open>addTask\<close> is not about to reset, is never called.
  \<open>careful_reach\<close> are the runs in which that does not happen.
\<close>

definition enters_fresh :: "scheduler \<Rightarrow> scheduler \<Rightarrow> bool" where
  "enters_fresh s s' \<longleftrightarrow> (\<forall>(tag, t)\<in>set (s_taskMap s').
     (tag, t) \<in> set (s_taskMap s) \<or> \<not> t_invoked (task_at s' t) \<or> (t, True) \<in> set (s_adding s'))"

inductive careful_reach :: "scheduler \<Rightarrow> bool" where
  init: "careful_reach (new_scheduler now)"
| step: "careful_reach s \<Longrightarrow> sched_step s s' \<Longrightarrow> enters_fresh s s' \<Longrightarrow> careful_reach s'"

lemma careful_reach_reach: "careful_reach s \<Longrightarrow> sched_reach s"
  by (induction rule: careful_reach.induct) (auto intro: sched_reach.intros)

text \<open>A task with \<open>m_invoked\<close> set is being run, or is about to be reset.\<close>

definition busy :: "scheduler \<Rightarrow> nat \<Rightarrow> bool" where
  "busy s t \<longleftrightarrow> (\<exists>i. s_phase s i = Callback t) \<or> (\<exists>i. s_phase s i = Epilogue t) \<or> (t, True) \<in> set (s_adding s)"

definition invoked_ok :: "scheduler \<Rightarrow> bool" where
  "invoked_ok s \<longleftrightarrow> (\<forall>(tag, t)\<in>set (s_taskMap s). t_invoked (task_at s t) \<longrightarrow> busy s t)"

lemma invoked_okI:
  assumes "invoked_ok s" and "enters_fresh s s'"
    and "\<And>tag t. (tag, t) \<in> set (s_taskMap s) \<Longrightarrow> (tag, t) \<in> set (s_taskMap s') \<Longrightarrow> t_invoked (task_at s' t) \<Longrightarrow>
      busy s' t \<or> t_invoked (task_at s t) \<and> (busy s t \<longrightarrow> busy s' t)"
  shows "invoked_ok s'"
  using assms unfolding invoked_ok_def enters_fresh_def busy_def by blast

text \<open>The operations of the scheduler invoke nothing, leave the phases alone and take nothing back that they announced.\<close>

definition quiet :: "scheduler \<Rightarrow> scheduler \<Rightarrow> bool" where
  "quiet s s' \<longleftrightarrow> s_phase s' = s_phase s \<and> set (s_adding s) \<subseteq> set (s_adding s') \<and>
     (\<forall>t < length (s_tasks s). t_invoked (task_at s' t) \<longrightarrow> t_invoked (task_at s t))"

lemma quiet_invoked_ok:
  assumes "quiet s s'" and "map_ok s" and "invoked_ok s" and "enters_fresh s s'"
  shows "invoked_ok s'"
proof (rule invoked_okI [OF assms(3,4)])
  fix tag t assume t: "(tag, t) \<in> set (s_taskMap s)" "t_invoked (task_at s' t)"
  have "t < length (s_tasks s)" using assms(2) t(1) by (auto simp: map_ok_def)
  then show "busy s' t \<or> t_invoked (task_at s t) \<and> (busy s t \<longrightarrow> busy s' t)"
    using assms(1) t(2) by (auto simp: quiet_def busy_def)
qed

lemma quiet_primitives:
  "quiet s (evtimer_add t s)" "quiet s (on_task t (task_reset percent) s)" "quiet s (on_task t (setTv time) s)"
  "quiet s (create_task x s)" "quiet s (s\<lparr> s_executor := ex \<rparr>)" "quiet s (s\<lparr> s_now := n \<rparr>)" "quiet s s"
  "quiet s (s\<lparr> s_running := b \<rparr>)" "quiet s (s\<lparr> s_running := b, s_loop := c, s_executor := ex \<rparr>)" "quiet s (s\<lparr> s_loop := c, s_executor := ex \<rparr>)"
  "quiet s (snd (addToMap t s))" "quiet s (deleteTask tag s)" "quiet s (evtimer_del t s)"
  by (simp_all add: quiet_def task_at_on_task create_task_def nth_append addToMap_def deleteTask_def Let_def split: option.splits)

lemma quiet_trans: "quiet s s' \<Longrightarrow> length (s_tasks s) \<le> length (s_tasks s') \<Longrightarrow> quiet s' s'' \<Longrightarrow> quiet s s''"
  by (auto simp: quiet_def)

lemma quiet_arm:
  "quiet s (evtimer_add t (on_task t (task_reset percent) s))"
  "quiet s (evtimer_add t (on_task t (setTv time) (on_task t (task_reset percent) s)))"
  by (simp_all add: quiet_def task_at_on_task)

lemma quiet_addTask: "quiet s (snd (addTask percent reset t s))" "quiet s (addTask_begin reset t s)"
  by (auto simp: quiet_def addTask_def addTask_begin_def addToMap_def arm_added_def task_at_on_task Let_def)

lemma quiet_resched:
  "quiet s (rescheduleTask_tag percent tag s)" "quiet s (rescheduleTaskAt_tag percent tag time s)"
  "quiet s (rescheduleTask percent t s)" "quiet s (rescheduleTaskAt percent t time s)"
  using quiet_trans [OF quiet_primitives(3) _ quiet_addTask(1)]
  by (auto simp: rescheduleTask_tag_def rescheduleTaskAt_tag_def rescheduleTask_def rescheduleTaskAt_def quiet_arm quiet_addTask
      quiet_primitives split: option.splits)

lemma quiet_scheduled: "quiet s (addTask_begin True (length (s_tasks s)) (create_task t s))"
  by (rule quiet_trans [OF quiet_primitives(4) _ quiet_addTask(2)]) (simp add: create_task_def)

lemma quiet_delete_matching: "quiet s (delete_matching matcher m s)"
proof (induction matcher m s rule: delete_matching.induct)
  case (2 matcher tag t rest s)
  let ?s = "if matcher (task_at s t) then (evtimer_del t s)\<lparr> s_taskMap := filter (\<lambda>p. fst p \<noteq> tag) (s_taskMap s) \<rparr> else s"
  have "quiet s ?s" "length (s_tasks s) \<le> length (s_tasks ?s)" by (simp_all add: quiet_def)
  from quiet_trans [OF this 2] show ?case by (simp only: delete_matching.simps)
qed (simp add: quiet_primitives)

lemma busy_upd:
  assumes "busy s u" and "s_phase s i \<noteq> Callback u" "s_phase s i \<noteq> Epilogue u"
  shows "busy (set_phase i p s) u"
proof -
  have q: "\<exists>k. ((s_phase s)(i := p)) k = q" if "\<exists>k. s_phase s k = q" "s_phase s i \<noteq> q" for q
    using that by (metis fun_upd_other)
  show ?thesis using assms(1) q [OF _ assms(2)] q [OF _ assms(3)] unfolding busy_def primitive_fields by blast
qed

lemma busy_on_task [simp]: "busy (on_task t f s) u = busy s u" "busy (s\<lparr> s_executor := ex \<rparr>) u = busy s u"
  by (simp_all add: busy_def)

lemma busy_phase: "busy (set_phase i (Callback u) s) u" "busy (set_phase i (Epilogue u) s) u"
  by (auto simp: busy_def)

lemma invoked_worker:
  assumes "invoked_ok s" and "worker_step i s = Some s'" and "s_phase s i \<in> {NoJob, Returned}" and "enters_fresh s s'"
  shows "invoked_ok s'"
proof (rule invoked_okI [OF assms(1,4)])
  obtain ex p where s': "s' = set_phase i p (s\<lparr> s_executor := ex \<rparr>)"
    using assms(2) by (auto simp: worker_step_def set_phase_def split: option.splits)
  fix tag t assume "t_invoked (task_at s' t)"
  then show "busy s' t \<or> t_invoked (task_at s t) \<and> (busy s t \<longrightarrow> busy s' t)"
    using busy_upd [of "s\<lparr> s_executor := ex \<rparr>" t i p] assms(3) by (auto simp: s')
qed

lemma invoked_begin:
  assumes "invoked_ok s" and "s_phase s i = Begin t" and "enters_fresh s (run_begin i t s)"
  shows "invoked_ok (run_begin i t s)"
proof (rule invoked_okI [OF assms(1,3)])
  fix tag u assume "t_invoked (task_at (run_begin i t s) u)"
  then show "busy (run_begin i t s) u \<or> t_invoked (task_at s u) \<and> (busy s u \<longrightarrow> busy (run_begin i t s) u)"
    using busy_upd [of s u i] busy_upd [of "on_task t (\<lambda>t. t\<lparr> t_invoked := True \<rparr>) s" u i] assms(2) busy_phase(1) [of i t]
    by (auto simp: run_begin_def task_at_on_task split: option.splits if_splits)
qed

lemma invoked_return:
  assumes "invoked_ok s" and "s_phase s i = Callback t" and "enters_fresh s (run_return i t s)"
  shows "invoked_ok (run_return i t s)"
proof (rule invoked_okI [OF assms(1,3)])
  fix tag u assume "t_invoked (task_at (run_return i t s) u)"
  then show "busy (run_return i t s) u \<or> t_invoked (task_at s u) \<and> (busy s u \<longrightarrow> busy (run_return i t s) u)"
    using busy_upd [of s u i] busy_upd [of "on_task t (\<lambda>t. t\<lparr> t_invoked := True \<rparr>) s" u i] assms(2) busy_phase(2) [of i t]
    by (cases "u = t") (auto simp: run_return_def task_at_on_task split: option.splits if_splits)
qed

lemma invoked_epilogue:
  assumes "invoked_ok s" and "map_ok s" and "s_phase s i = Epilogue t" and "enters_fresh s (run_epilogue percent i t s)"
  shows "invoked_ok (run_epilogue percent i t s)"
proof (rule invoked_okI [OF assms(1,4)])
  let ?s = "case t_generator (task_at s t) of None \<Rightarrow> deleteTask (t_tag (task_at s t)) s
    | Some _ \<Rightarrow> rescheduleTask_tag percent (t_tag (task_at s t)) s"
  have s': "run_epilogue percent i t s = set_phase i Returned ?s" by (simp add: run_epilogue_def)
  fix tag u
  assume u: "(tag, u) \<in> set (s_taskMap s)" "(tag, u) \<in> set (s_taskMap (run_epilogue percent i t s))"
    "t_invoked (task_at (run_epilogue percent i t s) u)"
  have l: "u < length (s_tasks s)" "t_tag (task_at s u) = tag" "map_of (s_taskMap s) tag = Some u"
    using u(1) assms(2) by (auto simp: map_ok_def)
  have q: "quiet s ?s" using quiet_primitives(12) quiet_resched(1) by (simp split: option.splits)
  then have b: "t_invoked (task_at s u)" "busy s u \<Longrightarrow> busy ?s u" "s_phase ?s i = Epilogue t"
    using u(3) l(1) assms(3) by (auto simp: s' quiet_def busy_def)
  have "u \<noteq> t"
  proof
    assume "u = t"
    then show False
      using u(2,3) l by (auto simp: s' deleteTask_def rescheduleTask_tag_def task_at_on_task split: option.splits)
  qed
  then show "busy (run_epilogue percent i t s) u \<or> t_invoked (task_at s u) \<and> (busy s u \<longrightarrow> busy (run_epilogue percent i t s) u)"
    using b busy_upd [of ?s u i Returned] by (simp add: s')
qed

lemma invoked_finish:
  assumes "invoked_ok s" and "map_ok s" and "enters_fresh s (addTask_finish percent reset t s)"
  shows "invoked_ok (addTask_finish percent reset t s)"
proof (rule invoked_okI [OF assms(1,3)])
  fix tag u assume u: "(tag, u) \<in> set (s_taskMap s)" "t_invoked (task_at (addTask_finish percent reset t s) u)"
  then have "u < length (s_tasks s)" using assms(2) by (auto simp: map_ok_def)
  then show "busy (addTask_finish percent reset t s) u \<or>
      t_invoked (task_at s u) \<and> (busy s u \<longrightarrow> busy (addTask_finish percent reset t s) u)"
    using u(2) by (cases reset) (auto simp: addTask_finish_def arm_added_def busy_def task_at_on_task split: if_splits)
qed

lemma invoked_step:
  assumes "sched_step s s'" and "enters_fresh s s'" and "map_ok s" and "invoked_ok s"
  shows "invoked_ok s'"
  using assms(1)
proof cases
  case (work i)
  then show ?thesis using invoked_worker assms by blast
next
  case (begin_run i t)
  then show ?thesis using invoked_begin assms by blast
next
  case (return_run i t)
  then show ?thesis using invoked_return assms by blast
next
  case (end_run i t percent)
  then show ?thesis using invoked_epilogue assms by blast
next
  case (added t reset percent)
  then show ?thesis using invoked_finish assms by blast
next
  case (fire t deadline)
  then show ?thesis using quiet_invoked_ok [OF _ assms(3,4,2)] by (simp add: quiet_def take_timer_def)
next
  case (fired t notified)
  then show ?thesis
    using quiet_invoked_ok [OF _ assms(3,4,2)]
    by (simp add: quiet_def eventCallback_def task_execute_def scheduler_execute_def)
qed (use quiet_invoked_ok [OF _ assms(3,4,2)] in \<open>auto simp: scheduleOneTimeTask_def schedulePeriodicTask_def deleteTask_ptr_def
      deleteTask_matcher_def shutdown_begin_def scheduler_execute_def task_execute_def scheduler_start_def shutdown_finish_def
      quiet_primitives quiet_addTask quiet_resched quiet_scheduled quiet_delete_matching\<close>)

lemma careful_invoked: "careful_reach s \<Longrightarrow> invoked_ok s"
proof (induction rule: careful_reach.induct)
  case (step s s')
  then show ?case using invoked_step ok_reach [OF careful_reach_reach [OF step(1)]] by (auto simp: sched_ok_def)
qed (simp add: invoked_ok_def new_scheduler_def)

section \<open>The executor of the scheduler\<close>

lemma executor_kept [simp]:
  "s_executor (create_task x s) = s_executor s" "s_executor (addTask_begin reset t s) = s_executor s"
  "s_executor (addTask_finish percent reset t s) = s_executor s" "s_executor (snd (addTask percent reset t s)) = s_executor s"
  "s_executor (rescheduleTask_tag percent tag s) = s_executor s" "s_executor (deleteTask tag s) = s_executor s"
  "s_executor (rescheduleTask percent t s) = s_executor s" "s_executor (rescheduleTaskAt percent t time s) = s_executor s"
  "s_executor (rescheduleTaskAt_tag percent tag time s) = s_executor s" "s_executor (delete_matching m ms s) = s_executor s"
  by (simp_all add: create_task_def addTask_begin_def addToMap_def addTask_finish_def arm_added_def addTask_def
      rescheduleTask_tag_def deleteTask_def rescheduleTask_def rescheduleTaskAt_def rescheduleTaskAt_tag_def Let_def
      split: option.splits)
    (induction m ms s rule: delete_matching.induct, simp_all)

lemma exec_submit: "notifies ex n \<Longrightarrow> exec_step ex (executor_execute j n ex)"
  by (auto simp: notifies_def intro: exec_step.submit exec_step.submit_none split: option.splits)

text \<open>Every step of the scheduler is a step of its executor or leaves it alone.\<close>

lemma executor_simulated:
  assumes "sched_step s s'"
  shows "s_executor s' = s_executor s \<or> exec_step (s_executor s) (s_executor s')"
  using assms
proof cases
  case start
  then show ?thesis by (auto simp: scheduler_start_def intro: exec_step.start)
next
  case (work i)
  then show ?thesis by (auto simp: worker_step_def intro: exec_step.work split: option.splits)
qed (auto simp: scheduleOneTimeTask_def schedulePeriodicTask_def deleteTask_ptr_def deleteTask_matcher_def shutdown_begin_def
    scheduler_execute_def task_execute_def take_timer_def eventCallback_def shutdown_finish_def run_begin_def run_return_def run_epilogue_def
    intro: exec_submit exec_step.shutdown exec_step.spurious split: option.splits)

lemma executor_reach: "sched_reach s \<Longrightarrow> exec_reach 1 (s_executor s)"
proof (induction rule: sched_reach.induct)
  case (step s s')
  then show ?case using executor_simulated [OF step(2)] by (auto intro: exec_reach.step)
qed (simp add: new_scheduler_def exec_reach.init)

section \<open>Properties\<close>

text \<open>Property C11. The scheduler strands no task.  In every interleaving of its threads in which no task enters the
  map with \<open>m_invoked\<close> set, each tag of the map has one task, which carries that tag, and that task is alive: its timer is
  pending, the loop has taken the timer out and is about to hand in the job, a caller of \<open>addTask\<close> is about to arm it, its
  job is queued, or a worker is inside its \<open>run\<close>.  The executor is then in a state that an executor
  alone can reach.  Direct calls of \<open>Task::reset\<close> and \<open>Task::run\<close>, and callbacks that an interruption
  ends, are not steps of these runs.\<close>

theorem scheduler_strands_no_task:
  assumes "careful_reach s"
  shows "exec_reach 1 (s_executor s) \<and> distinct (map fst (s_taskMap s)) \<and>
    (\<forall>tag t. map_of (s_taskMap s) tag = Some t \<longrightarrow>
       t < length (s_tasks s) \<and> t_tag (task_at s t) = tag \<and>
       (s_timers s t \<noteq> None \<or> s_firing s = Some t \<or> t \<in> fst ` set (s_adding s) \<or> TaskRun t \<in> set (ex_queue (s_executor s)) \<or>
        (\<exists>i. s_phase s i \<in> {Begin t, Callback t, Epilogue t})))"
proof -
  have ok: "map_ok s" "none_lost s" using ok_reach [OF careful_reach_reach [OF assms]] by (simp_all add: sched_ok_def)
  have "busy s t \<or> on_the_way s t" if "map_of (s_taskMap s) tag = Some t" for tag t
    using ok(2) careful_invoked [OF assms] map_of_SomeD [OF that] unfolding none_lost_def invoked_ok_def by blast
  moreover have "s_timers s t \<noteq> None \<or> s_firing s = Some t \<or> t \<in> fst ` set (s_adding s) \<or> TaskRun t \<in> set (ex_queue (s_executor s)) \<or>
      (\<exists>i. s_phase s i \<in> {Begin t, Callback t, Epilogue t})" if "busy s t \<or> on_the_way s t" for t
    using that unfolding busy_def on_the_way_def by force
  ultimately show ?thesis
    using ok(1) map_of_task [OF ok(1)] executor_reach [OF careful_reach_reach [OF assms]] unfolding map_ok_def by blast
qed

text \<open>A task of the map, its timer set, its time come and its job in the hands of the worker.\<close>

definition armed_scheduler :: scheduler where
  "armed_scheduler = addTask_finish 0 True 0 (scheduleOneTimeTask 1 ''a'' (scheduler_start (new_scheduler 0)))"

definition fired_scheduler :: scheduler where
  "fired_scheduler = eventCallback 0 None (take_timer 0 (armed_scheduler\<lparr> s_now := s_now armed_scheduler + 1000000 \<rparr>))"

lemmas example_defs = armed_scheduler_def fired_scheduler_def addTask_finish_def arm_added_def scheduleOneTimeTask_def
  addTask_begin_def addToMap_def create_task_def scheduler_start_def new_scheduler_def new_executor_def executor_start_def
  evtimer_add_def evtimer_del_def on_task_def task_reset_def new_one_time_task_def new_task_def setTv_def eventCallback_def
  take_timer_def task_execute_def
  scheduler_execute_def executor_execute_def

lemma armed_reach: "careful_reach armed_scheduler"
proof -
  have "careful_reach (scheduler_start (new_scheduler 0))"
    by (rule careful_reach.step [OF careful_reach.init sched_step.start])
      (simp_all add: new_scheduler_def new_executor_def enters_fresh_def scheduler_start_def)
  then have "careful_reach (scheduleOneTimeTask 1 ''a'' (scheduler_start (new_scheduler 0)))" (is "careful_reach ?s")
    by (rule careful_reach.step [OF _ sched_step.once]) (simp add: enters_fresh_def example_defs)
  moreover have "(0, True) \<in> set (s_adding ?s)" by (simp add: example_defs)
  moreover have "enters_fresh ?s armed_scheduler" by (simp add: enters_fresh_def example_defs)
  ultimately show ?thesis unfolding armed_scheduler_def by (blast intro: careful_reach.step sched_step.added)
qed

lemma fired_reach: "careful_reach fired_scheduler"
proof -
  let ?s = "armed_scheduler\<lparr> s_now := s_now armed_scheduler + 1000000 \<rparr>"
  have "careful_reach ?s" by (rule careful_reach.step [OF armed_reach sched_step.tick]) (auto simp: enters_fresh_def)
  moreover have "sched_step ?s (take_timer 0 ?s)"
    by (rule sched_step.fire [where deadline = 1000000]) (auto simp: example_defs)
  moreover have "enters_fresh ?s (take_timer 0 ?s)" by (simp add: enters_fresh_def example_defs)
  ultimately have "careful_reach (take_timer 0 ?s)" by (rule careful_reach.step)
  moreover have "sched_step (take_timer 0 ?s) fired_scheduler" unfolding fired_scheduler_def
    by (rule sched_step.fired) (auto simp: example_defs notifies_def is_waiting_def)
  moreover have "enters_fresh (take_timer 0 ?s) fired_scheduler" by (simp add: enters_fresh_def example_defs)
  ultimately show ?thesis by (rule careful_reach.step)
qed

theorem scheduler_strands_no_task_witness:
  "map_of (s_taskMap fired_scheduler) ''a'' = Some 0 \<and> s_timers fired_scheduler 0 = None \<and>
   TaskRun 0 \<in> set (ex_queue (s_executor fired_scheduler)) \<and> distinct (map fst (s_taskMap fired_scheduler))"
  using scheduler_strands_no_task [OF fired_reach] by (simp add: example_defs)

text \<open>\<open>setTv\<close> keeps the delay up to a microsecond, with the microseconds below a second.\<close>

lemma setTv_value:
  "tv_sec (t_tv (setTv delay t)) * 1000000 + tv_usec (t_tv (setTv delay t)) = \<lfloor>\<bar>delay\<bar> * 1000000\<rfloor>"
  "0 \<le> tv_usec (t_tv (setTv delay t))" "tv_usec (t_tv (setTv delay t)) < 1000000"
proof -
  have "\<lfloor>\<bar>delay\<bar> * 1000000\<rfloor> = \<lfloor>frac \<bar>delay\<bar> * 1000000 + of_int (\<lfloor>\<bar>delay\<bar>\<rfloor> * 1000000)\<rfloor>"
    by (simp add: frac_def algebra_simps)
  also have "\<dots> = \<lfloor>frac \<bar>delay\<bar> * 1000000\<rfloor> + \<lfloor>\<bar>delay\<bar>\<rfloor> * 1000000" by (rule floor_add_int [symmetric])
  finally show "tv_sec (t_tv (setTv delay t)) * 1000000 + tv_usec (t_tv (setTv delay t)) = \<lfloor>\<bar>delay\<bar> * 1000000\<rfloor>"
    by (simp add: setTv_def)
  show "0 \<le> tv_usec (t_tv (setTv delay t))" by (simp add: setTv_def)
  have "frac \<bar>delay\<bar> * 1000000 < 1000000" using frac_lt_1 [of "\<bar>delay\<bar>"] by simp
  then show "tv_usec (t_tv (setTv delay t)) < 1000000" by (simp add: setTv_def floor_less_iff)
qed

lemma nextInterval_range:
  assumes "0 < interval" and "0 \<le> m_percent" "m_percent < 1" and "0 \<le> percent" "percent < fractional m_percent"
  shows "interval \<le> nextInterval percent (RandomIntervalGenerator interval m_percent UP)"
    "nextInterval percent (RandomIntervalGenerator interval m_percent UP) < interval * (1 + m_percent)"
    "interval * (1 - m_percent) < nextInterval percent (RandomIntervalGenerator interval m_percent DOWN)"
    "nextInterval percent (RandomIntervalGenerator interval m_percent DOWN) \<le> interval"
    "interval * (1 - m_percent / 2) \<le> nextInterval percent (RandomIntervalGenerator interval m_percent EVEN)"
    "nextInterval percent (RandomIntervalGenerator interval m_percent EVEN) < interval * (1 + m_percent / 2)"
proof -
  have f: "percent < m_percent" using assms by (simp add: fractional_def frac_eq_id)
  show "interval \<le> nextInterval percent (RandomIntervalGenerator interval m_percent UP)"
    "nextInterval percent (RandomIntervalGenerator interval m_percent UP) < interval * (1 + m_percent)"
    "interval * (1 - m_percent) < nextInterval percent (RandomIntervalGenerator interval m_percent DOWN)"
    "nextInterval percent (RandomIntervalGenerator interval m_percent DOWN) \<le> interval"
    "interval * (1 - m_percent / 2) \<le> nextInterval percent (RandomIntervalGenerator interval m_percent EVEN)"
    "nextInterval percent (RandomIntervalGenerator interval m_percent EVEN) < interval * (1 + m_percent / 2)"
    using assms(1,4) f by (simp_all add: mult_less_cancel_left_pos mult_le_cancel_left1)
qed

definition interval_range :: "direction \<Rightarrow> rat \<Rightarrow> rat \<Rightarrow> rat \<times> rat" where
  "interval_range d interval m_percent =
     (case d of UP \<Rightarrow> (interval, interval * (1 + m_percent)) | DOWN \<Rightarrow> (interval * (1 - m_percent), interval)
      | EVEN \<Rightarrow> (interval * (1 - m_percent / 2), interval * (1 + m_percent / 2)))"

text \<open>Property C32. Rescheduling a periodic task with a random generator sets its timer to now plus an interval in the
  documented range around the configured one (above it for \<open>UP\<close>, below for \<open>DOWN\<close>, on both sides for
  \<open>EVEN\<close>), rounded down to microseconds; no other timer moves.\<close>

theorem periodic_deadline:
  assumes "map_of (s_taskMap s) tag = Some t" and "t < length (s_tasks s)"
    and "t_generator (task_at s t) = Some (RandomIntervalGenerator interval m_percent d)"
    and "0 < interval" "0 \<le> m_percent" "m_percent < 1" and "0 \<le> percent" "percent < fractional m_percent"
  shows "\<exists>next. fst (interval_range d interval m_percent) \<le> next \<and> next \<le> snd (interval_range d interval m_percent) \<and>
    s_timers (rescheduleTask_tag percent tag s) = (s_timers s)(t \<mapsto> s_now s + \<lfloor>next * 1000000\<rfloor>)"
proof (intro exI conjI)
  let ?next = "nextInterval percent (RandomIntervalGenerator interval m_percent d)"
  note r = nextInterval_range [OF assms(4-8)]
  show l: "fst (interval_range d interval m_percent) \<le> ?next" "?next \<le> snd (interval_range d interval m_percent)"
    using r by (cases d; simp add: interval_range_def)+
  have "0 \<le> fst (interval_range d interval m_percent)"
    using assms(4-6) by (cases d) (simp_all add: interval_range_def)
  then have "\<bar>?next\<bar> = ?next" using l(1) by linarith
  then show "s_timers (rescheduleTask_tag percent tag s) = (s_timers s)(t \<mapsto> s_now s + \<lfloor>?next * 1000000\<rfloor>)"
    using assms(1-3) setTv_value(1) [of ?next]
    by (simp add: rescheduleTask_tag_def evtimer_add_def task_at_on_task task_reset_def on_task_def [of t "task_reset percent" s] add.assoc)
qed

theorem periodic_deadline_witness:
  "\<exists>next. 8 \<le> next \<and> next \<le> (12 :: rat) \<and>
     s_timers (rescheduleTask_tag (1 / 10) ''p''
       (snd (addTask 0 False 0 (create_task (new_periodic_task ''p'' (RandomIntervalGenerator 10 (2 / 5) EVEN)) (new_scheduler 0))))) 0 =
     Some \<lfloor>next * 1000000\<rfloor>"
proof -
  let ?s = "snd (addTask 0 False 0 (create_task (new_periodic_task ''p'' (RandomIntervalGenerator 10 (2 / 5) EVEN)) (new_scheduler 0)))"
  have "map_of (s_taskMap ?s) ''p'' = Some 0" "s_now ?s = 0"
    "t_generator (task_at ?s 0) = Some (RandomIntervalGenerator 10 (2 / 5) EVEN)" "0 < length (s_tasks ?s)"
    by (simp_all add: addTask_def addToMap_def create_task_def new_scheduler_def new_periodic_task_def new_task_def arm_added_def evtimer_add_def)
  then show ?thesis
    using periodic_deadline [of ?s "''p''" 0 10 "2 / 5" EVEN "1 / 10"]
    by (auto simp: interval_range_def fractional_def frac_eq_id)
qed

section \<open>Behaviour at the edges\<close>

text \<open>\<open>rescheduleTaskAt\<close> on a task that has run does not reset it: the timer is set, the job does not call the callback.\<close>

lemma reschedule_at_never_runs:
  assumes "t < length (s_tasks s)" and "t_invoked (task_at s t)" and "map_of (s_taskMap s) (t_tag (task_at s t)) = None"
  shows "s_timers (rescheduleTaskAt percent t time s) t \<noteq> None \<and>
    run_begin i t (rescheduleTaskAt percent t time s) = set_phase i Returned (rescheduleTaskAt percent t time s)"
proof -
  have "t_invoked (task_at (rescheduleTaskAt percent t time s) t)" and "s_timers (rescheduleTaskAt percent t time s) t \<noteq> None"
    using assms by (simp_all add: rescheduleTaskAt_def addTask_def addToMap_def arm_added_def task_at_on_task)
  then show ?thesis by (simp add: run_begin_def)
qed

text \<open>
  A callback of a periodic task that resets its task itself, without the scheduler, ends the period: when it returns
  the task is neither rescheduled nor removed.  So does an interruption of the callback: the task stays in the map
  with \<open>m_invoked\<close> set, and no timer.
\<close>

lemma direct_reset_ends_period:
  assumes "t_generator (task_at s t) = Some generator" and "t < length (s_tasks s)"
  shows "run_return i t (on_task t (task_reset percent) s) = set_phase i Returned (on_task t (task_reset percent) s)"
  using assms by (simp add: run_return_def task_at_on_task)

lemma interrupted_callback_ends_period:
  assumes "t_generator (task_at s t) = Some generator" and "\<not> t_invoked (task_at s t)" and "t < length (s_tasks s)"
  shows "t_invoked (task_at (set_phase i NoJob (run_begin i t s)) t) \<and>
    s_timers (set_phase i NoJob (run_begin i t s)) = s_timers s \<and> s_taskMap (set_phase i NoJob (run_begin i t s)) = s_taskMap s"
  using assms by (simp add: run_begin_def task_at_on_task)

text \<open>A one-time task that finishes removes whatever task then has its tag.\<close>

lemma finished_task_removes_namesake:
  assumes "t_generator (task_at s t) = None" and "map_of (s_taskMap s) (t_tag (task_at s t)) = Some u"
  shows "s_timers (run_epilogue percent i t s) u = None \<and> map_of (s_taskMap (run_epilogue percent i t s)) (t_tag (task_at s t)) = None"
  using assms by (auto simp: run_epilogue_def deleteTask_def map_of_eq_None_iff)

text \<open>Between the two steps of \<open>addTask\<close> a deletion comes too early: the timer is set for a task the map does not have.\<close>

lemma deletion_overtaken:
  assumes "t < length (s_tasks s)" and "map_of (s_taskMap s) (t_tag (task_at s t)) = None"
  shows "let s' = addTask_finish percent True t (deleteTask (t_tag (task_at s t)) (addTask_begin True t s))
    in s_timers s' t \<noteq> None \<and> map_of (s_taskMap s') (t_tag (task_at s t)) = None"
  using assms by (auto simp: addTask_finish_def deleteTask_def addTask_begin_def addToMap_def arm_added_def map_of_eq_None_iff evtimer_add_def)

end
