(* ===== verification/Ndnb_Encoder.thy ===== *)
theory Ndnb_Encoder
  imports Ndn_Name "HOL-Library.Signed_Division"
begin

unbundle bit_operations_syntax

text \<open>
  \<open>ndn.cxx/wire/ndnb/wire-ndnb.cc\<close>: the encoder of ndnb blocks.  An output stream is the
  blob written so far; every function returns the stream and, as the code does, the number of
  bytes it wrote.  Values are \<open>size_t\<close>, 64-bit words.  \<open>OutputIterator::Write\<close> takes a
  32-bit count; buffers of 4 GiB and more, which it would cut, are outside the model.
\<close>

datatype ndn_tt = NDN_EXT | NDN_TAG | NDN_DTAG | NDN_ATTR | NDN_DATTR | NDN_BLOB | NDN_UDATA | NDN_NO_TOKEN

fun tt_code :: "ndn_tt \<Rightarrow> byte" where
  "tt_code NDN_EXT = 0"
| "tt_code NDN_TAG = 1"
| "tt_code NDN_DTAG = 2"
| "tt_code NDN_ATTR = 3"
| "tt_code NDN_DATTR = 4"
| "tt_code NDN_BLOB = 5"
| "tt_code NDN_UDATA = 6"
| "tt_code NDN_NO_TOKEN = 7"

definition NDN_CLOSE :: byte where "NDN_CLOSE = 0"
definition NDN_TT_HBIT :: byte where "NDN_TT_HBIT = 0x80"
definition NDN_TT_MASK :: byte where "NDN_TT_MASK = 7"
definition NDN_MAX_TINY :: uint64 where "NDN_MAX_TINY = 15"

section \<open>Block headers\<close>

text \<open>The loop \<open>while (val != 0)\<close>; it fills the buffer from its end, so bytes are put in front.\<close>

function header_loop :: "uint64 \<Rightarrow> blob \<Rightarrow> blob" where
  "header_loop val buf =
     (if val \<noteq> 0
      then header_loop (drop_bit 7 val) (((ucast val AND NOT NDN_TT_HBIT) OR NDN_CLOSE) # buf)
      else buf)"
  by pat_completeness auto
termination
proof (relation "measure (\<lambda>(val, buf). unat val)")
  fix val :: uint64 and buf :: blob
  assume "val \<noteq> 0"
  then have "0 < unat val" by (simp add: unat_gt_0)
  then have "unat val div 128 < unat val" by simp
  then show "((drop_bit 7 val, (ucast val AND NOT NDN_TT_HBIT OR NDN_CLOSE) # buf), val, buf) \<in>
      measure (\<lambda>(val, buf). unat val)"
    by (simp add: unat_drop_bit_div)
qed simp

declare header_loop.simps [simp del]

definition header_bytes :: "uint64 \<Rightarrow> ndn_tt \<Rightarrow> blob" where
  "header_bytes val tt =
     header_loop (drop_bit 4 val)
       [(NDN_TT_HBIT AND NOT NDN_CLOSE) OR push_bit 3 (ucast (val AND NDN_MAX_TINY)) OR (NDN_TT_MASK AND tt_code tt)]"

definition AppendBlockHeader :: "blob \<Rightarrow> uint64 \<Rightarrow> ndn_tt \<Rightarrow> blob \<times> nat" where
  "AppendBlockHeader start val tt = (start @ header_bytes val tt, length (header_bytes val tt))"

function estimate_loop :: "uint64 \<Rightarrow> nat \<Rightarrow> nat" where
  "estimate_loop value n = (if 0 < value then estimate_loop (drop_bit 7 value) (n + 1) else n)"
  by pat_completeness auto
termination
proof (relation "measure (\<lambda>(value, n). unat value)")
  fix val :: uint64 and n :: nat
  assume "0 < val"
  then have "0 < unat val" by (simp add: word_less_nat_alt)
  then have "unat val div 128 < unat val" by simp
  then show "((drop_bit 7 val, n + 1), val, n) \<in> measure (\<lambda>(value, n). unat value)"
    by (simp add: unat_drop_bit_div)
qed simp

declare estimate_loop.simps [simp del]

definition EstimateBlockHeader :: "uint64 \<Rightarrow> nat" where
  "EstimateBlockHeader value = estimate_loop (drop_bit 4 value) 1"

section \<open>Numbers, blobs and strings\<close>

text \<open>\<open>std::ostringstream << number\<close>: the decimal digits.\<close>

fun decimal :: "nat \<Rightarrow> string" where
  "decimal n = (if n < 10 then [char_of (48 + n)] else decimal (n div 10) @ [char_of (48 + n mod 10)])"

declare decimal.simps [simp del]

definition string_bytes :: "string \<Rightarrow> blob" where
  "string_bytes cs = map byte_of_char cs"

definition AppendNumber :: "blob \<Rightarrow> uint32 \<Rightarrow> blob \<times> nat" where
  "AppendNumber start number =
     (let os = decimal (unat number);
          (start, w) = AppendBlockHeader start (of_nat (length os)) NDN_UDATA
      in (start @ string_bytes os, w + length os))"

definition EstimateNumber :: "uint32 \<Rightarrow> nat" where
  "EstimateNumber number =
     (let os = decimal (unat number) in EstimateBlockHeader (of_nat (length os)) + length os)"

definition AppendCloser :: "blob \<Rightarrow> blob \<times> nat" where
  "AppendCloser start = (start @ [NDN_CLOSE], 1)"

definition AppendTaggedBlob :: "blob \<Rightarrow> uint32 \<Rightarrow> blob \<Rightarrow> blob \<times> nat" where
  "AppendTaggedBlob start dtag buf =
     (let (start, w) = AppendBlockHeader start (ucast dtag) NDN_DTAG;
          (start, w) =
            (if 0 < length buf
             then (case AppendBlockHeader start (of_nat (length buf)) NDN_BLOB of
                     (start, w') \<Rightarrow> (start @ buf, w + w' + length buf))
             else (start, w));
          (start, w') = AppendCloser start
      in (start, w + w'))"

definition AppendTaggedBlobWithPadding :: "blob \<Rightarrow> uint32 \<Rightarrow> uint32 \<Rightarrow> blob \<Rightarrow> blob \<times> nat" where
  "AppendTaggedBlobWithPadding start dtag len buf =
     (if length buf > unat len then AppendTaggedBlob start dtag buf
      else
        let (start, w) = AppendBlockHeader start (ucast dtag) NDN_DTAG;
            (start, w) =
              (if 0 < len
               then (case AppendBlockHeader start (ucast len) NDN_BLOB of
                       (start, w') \<Rightarrow> (start @ buf @ replicate (unat len - length buf) 0, w + w' + unat len))
               else (start, w));
            (start, w') = AppendCloser start
        in (start, w + w'))"

definition EstimateTaggedBlob :: "uint32 \<Rightarrow> nat \<Rightarrow> nat" where
  "EstimateTaggedBlob dtag sz =
     (if 0 < sz then EstimateBlockHeader (ucast dtag) + EstimateBlockHeader (of_nat sz) + sz + 1
      else EstimateBlockHeader (ucast dtag) + 1)"

definition AppendString :: "blob \<Rightarrow> uint32 \<Rightarrow> string \<Rightarrow> blob \<times> nat" where
  "AppendString start dtag str =
     (let (start, w) = AppendBlockHeader start (ucast dtag) NDN_DTAG;
          (start, w') = AppendBlockHeader start (of_nat (length str)) NDN_UDATA;
          (start, w'') = AppendCloser (start @ string_bytes str)
      in (start, w + w' + length str + w''))"

definition EstimateString :: "uint32 \<Rightarrow> string \<Rightarrow> nat" where
  "EstimateString dtag str =
     EstimateBlockHeader (ucast dtag) + EstimateBlockHeader (of_nat (length str)) + length str + 1"

definition AppendTaggedNumber :: "blob \<Rightarrow> uint32 \<Rightarrow> uint32 \<Rightarrow> blob" where
  "AppendTaggedNumber os dtag number =
     (let (os, _) = AppendBlockHeader os (ucast dtag) NDN_DTAG;
          (os, _) = AppendNumber os number
      in fst (AppendCloser os))"

section \<open>Timestamps\<close>

text \<open>A \<open>boost::posix_time::time_duration\<close> at its default resolution: microseconds.\<close>

type_synonym time_interval = int

definition total_seconds :: "time_interval \<Rightarrow> int" where
  "total_seconds t = t sdiv 1000000"

definition total_nanoseconds :: "time_interval \<Rightarrow> int" where
  "total_nanoseconds t = t * 1000"

function required_bytes :: "nat \<Rightarrow> int \<Rightarrow> nat" where
  "required_bytes n ts = (if n < 7 \<and> ts \<noteq> 0 then required_bytes (n + 1) (drop_bit 8 ts) else n)"
  by pat_completeness auto
termination by (relation "measure (\<lambda>(n, ts). 7 - n)") auto

declare required_bytes.simps [simp del]

definition timestamp_low :: "time_interval \<Rightarrow> int" where
  "timestamp_low time =
     push_bit 12 (total_seconds time AND 15) +
     ((total_nanoseconds time smod 1000000000) sdiv 5 * 8 + 195312) sdiv 390625"

definition timestamp_bytes :: "time_interval \<Rightarrow> blob" where
  "timestamp_bytes time =
     (let n = required_bytes 2 (drop_bit 4 (total_seconds time));
          ts = drop_bit 4 (total_seconds time);
          low = timestamp_low time
      in map (\<lambda>i. of_int (drop_bit (8 * (n - 3 - i)) ts)) [0..<n - 2] @
         map (\<lambda>i. of_int (drop_bit (8 * (n - 1 - i)) low)) [n - 2..<n])"

definition AppendTimestampBlob :: "blob \<Rightarrow> time_interval \<Rightarrow> blob \<times> nat" where
  "AppendTimestampBlob os time =
     (let n = required_bytes 2 (drop_bit 4 (total_seconds time));
          (os, len) = AppendBlockHeader os (of_nat n) NDN_BLOB
      in (os @ timestamp_bytes time, len + n))"

definition EstimateTimestampBlob :: "time_interval \<Rightarrow> nat" where
  "EstimateTimestampBlob time =
     (let n = required_bytes 2 (drop_bit 4 (total_seconds time))
      in EstimateBlockHeader (of_nat n) + n)"

section \<open>Names\<close>

definition NDN_DTAG_Component :: uint32 where "NDN_DTAG_Component = 15"

fun serialize_components :: "blob \<Rightarrow> component list \<Rightarrow> nat \<Rightarrow> blob \<times> nat" where
  "serialize_components start [] written = (start, written)"
| "serialize_components start (c # cs) written =
     (case AppendTaggedBlob start NDN_DTAG_Component (bytes c) of
        (start, w) \<Rightarrow> serialize_components start cs (written + w))"

definition SerializeName :: "blob \<Rightarrow> name \<Rightarrow> blob \<times> nat" where
  "SerializeName start n = serialize_components start (comps n) 0"

definition SerializedSizeName :: "name \<Rightarrow> nat" where
  "SerializedSizeName n =
     foldl (\<lambda>written c. written + EstimateTaggedBlob NDN_DTAG_Component (component_size c)) 0 (comps n)"

section \<open>The written sizes are the estimates\<close>

lemma header_loop_length: "length (header_loop val buf) = estimate_loop val (length buf)"
proof (induction val buf rule: header_loop.induct)
  case (1 val buf)
  then show ?case
    by (subst header_loop.simps, subst estimate_loop.simps) (auto simp: word_neq_0_conv)
qed

lemma header_bytes_length: "length (header_bytes val tt) = EstimateBlockHeader val"
  by (simp add: header_bytes_def header_loop_length EstimateBlockHeader_def)

lemma AppendTaggedBlob_eq:
  "AppendTaggedBlob start dtag buf =
    (start @ header_bytes (ucast dtag) NDN_DTAG @
       (if buf = [] then [] else header_bytes (of_nat (length buf)) NDN_BLOB @ buf) @ [NDN_CLOSE],
     EstimateTaggedBlob dtag (length buf))"
  by (simp add: AppendTaggedBlob_def AppendBlockHeader_def AppendCloser_def EstimateTaggedBlob_def
      header_bytes_length)

lemma serialize_components_eq:
  "serialize_components start cs w =
    (start @ concat (map (\<lambda>c. fst (AppendTaggedBlob [] NDN_DTAG_Component (bytes c))) cs),
     w + sum_list (map (\<lambda>c. EstimateTaggedBlob NDN_DTAG_Component (component_size c)) cs))"
  by (induction cs arbitrary: start w) (simp_all add: AppendTaggedBlob_eq component_size_def)

lemma serialized_size_sum:
  "SerializedSizeName n = sum_list (map (\<lambda>c. EstimateTaggedBlob NDN_DTAG_Component (component_size c)) (comps n))"
proof -
  have "foldl (\<lambda>w c. w + f c) a xs = a + sum_list (map f xs)" for f :: "component \<Rightarrow> nat" and a xs
    by (induction xs arbitrary: a) simp_all
  then show ?thesis by (simp add: SerializedSizeName_def)
qed

lemma timestamp_bytes_length:
  "length (timestamp_bytes time) = required_bytes 2 (drop_bit 4 (total_seconds time))"
proof -
  have "n \<le> required_bytes n ts" for n ts
    by (induction n ts rule: required_bytes.induct) (subst required_bytes.simps, auto)
  from this [of 2 "drop_bit 4 (total_seconds time)"] show ?thesis
    by (simp add: timestamp_bytes_def Let_def)
qed

text \<open>Every append function of the encoder writes behind what the stream holds,
  returns the number of bytes it wrote, and that number is what the matching estimate
  function predicts.\<close>

theorem append_estimate:
  "(\<exists>bs. AppendBlockHeader s val tt = (s @ bs, length bs) \<and> length bs = EstimateBlockHeader val) \<and>
   (\<exists>bs. AppendNumber s number = (s @ bs, length bs) \<and> length bs = EstimateNumber number) \<and>
   (\<exists>bs. AppendTaggedBlob s dtag buf = (s @ bs, length bs) \<and> length bs = EstimateTaggedBlob dtag (length buf)) \<and>
   (\<exists>bs. AppendString s dtag str = (s @ bs, length bs) \<and> length bs = EstimateString dtag str) \<and>
   (\<exists>bs. AppendTimestampBlob s time = (s @ bs, length bs) \<and> length bs = EstimateTimestampBlob time) \<and>
   (\<exists>bs. SerializeName s n = (s @ bs, length bs) \<and> length bs = SerializedSizeName n)"
proof (intro conjI)
  have "length (concat (map (\<lambda>c. fst (AppendTaggedBlob [] NDN_DTAG_Component (bytes c))) cs)) =
      sum_list (map (\<lambda>c. EstimateTaggedBlob NDN_DTAG_Component (component_size c)) cs)" for cs
    by (induction cs)
      (auto simp: AppendTaggedBlob_eq EstimateTaggedBlob_def header_bytes_length component_size_def)
  then show "\<exists>bs. SerializeName s n = (s @ bs, length bs) \<and> length bs = SerializedSizeName n"
    by (simp add: SerializeName_def serialize_components_eq serialized_size_sum)
  show "\<exists>bs. AppendTaggedBlob s dtag buf = (s @ bs, length bs) \<and> length bs = EstimateTaggedBlob dtag (length buf)"
    by (auto simp: AppendTaggedBlob_eq EstimateTaggedBlob_def header_bytes_length)
qed (simp_all add: AppendBlockHeader_def AppendNumber_def EstimateNumber_def AppendString_def EstimateString_def
    AppendCloser_def AppendTimestampBlob_def EstimateTimestampBlob_def header_bytes_length Let_def
    string_bytes_def timestamp_bytes_length)

end
