(* ===== verification/Ndnb_Parser.thy ===== *)
theory Ndnb_Parser
  imports Ndnb_Encoder
begin

unbundle bit_operations_syntax

text \<open>
  \<open>ndn.cxx/wire/ndnb/ndnb-parser\<close>: the recursive-descent parser of ndnb blocks, over the
  input stream of \<open>ndn.cxx/common.h\<close>.  The stream is a \<open>std::istream\<close> with its
  position and its \<open>eofbit\<close> and \<open>failbit\<close>: reading at the end sets both and yields the
  value \<open>-1\<close>, which the cast makes 0xFF; a stream that is not good stays where it is;
  \<open>seekg\<close> clears \<open>eofbit\<close> and moves only a stream that has not failed.
\<close>

section \<open>Input stream\<close>

record istream =
  buffer :: blob
  position :: nat
  eofbit :: bool
  failbit :: bool

definition open_stream :: "blob \<Rightarrow> istream" where
  "open_stream bs = \<lparr> buffer = bs, position = 0, eofbit = False, failbit = False \<rparr>"

definition ReadU8 :: "istream \<Rightarrow> byte \<times> istream" where
  "ReadU8 s =
     (if eofbit s \<or> failbit s then (0xFF, s\<lparr> failbit := True \<rparr>)
      else if position s < length (buffer s)
      then (buffer s ! position s, s\<lparr> position := position s + 1 \<rparr>)
      else (0xFF, s\<lparr> eofbit := True, failbit := True \<rparr>))"

definition IsEnd :: "istream \<Rightarrow> bool" where
  "IsEnd s = eofbit s"

definition Prev :: "istream \<Rightarrow> istream" where
  "Prev s =
     (let s = s\<lparr> eofbit := False \<rparr>
      in if failbit s then s
         else if position s = 0 then s\<lparr> failbit := True \<rparr>
         else s\<lparr> position := position s - 1 \<rparr>)"

definition BufferIteratorPeekU8 :: "istream \<Rightarrow> byte \<times> istream" where
  "BufferIteratorPeekU8 i = (case ReadU8 i of (ret, i) \<Rightarrow> (ret, Prev i))"

section \<open>Syntax tree\<close>

datatype block =
    Blob blob
  | Udata blob
  | Tag blob (attrs: "block list") (nestedTags: "block list")
  | Dtag uint32 (attrs: "block list") (nestedTags: "block list")
  | Attr blob blob
  | Dattr uint32 blob
  | Ext uint32

text \<open>\<open>DynamicCast<BaseAttr>\<close> and \<open>DynamicCast<Udata>\<close>.\<close>

fun is_attr :: "block \<Rightarrow> bool" where
  "is_attr (Attr _ _) = True"
| "is_attr (Dattr _ _) = True"
| "is_attr _ = False"

fun as_udata :: "block \<Rightarrow> blob option" where
  "as_udata (Udata u) = Some u"
| "as_udata _ = None"

section \<open>Parsing\<close>

definition remaining :: "istream \<Rightarrow> nat" where
  "remaining s = length (buffer s) - position s"

lemma ReadU8_measure:
  "2 * remaining (snd (ReadU8 s)) + (if fst (ReadU8 s) AND NDN_TT_HBIT = 0 then 1 else 0) < 2 * remaining s + 1"
  by (auto simp: ReadU8_def remaining_def NDN_TT_HBIT_def)

text \<open>The header loop of \<open>ParseBlock\<close>; \<open>value\<close> is a \<open>uint32_t\<close> and wraps.\<close>

function parse_header :: "uint32 \<Rightarrow> byte \<Rightarrow> istream \<Rightarrow> uint32 \<times> byte \<times> istream" where
  "parse_header val b s =
     (if \<not> IsEnd s \<and> b AND NDN_TT_HBIT = 0
      then parse_header (push_bit 7 val + ucast b) (fst (ReadU8 s)) (snd (ReadU8 s))
      else (val, b, s))"
  by pat_completeness auto
termination
  by (relation "measure (\<lambda>(val, b, s). 2 * remaining s + (if b AND NDN_TT_HBIT = 0 then 1 else 0))")
    (use ReadU8_measure in \<open>auto simp: case_prod_beta simp del: mult_Suc_right split: if_splits\<close>)

declare parse_header.simps [simp del]

text \<open>The copying loops \<open>for (; !start.IsEnd () && i < length; i++)\<close>.\<close>

fun read_loop :: "nat \<Rightarrow> istream \<Rightarrow> blob \<times> istream" where
  "read_loop 0 s = ([], s)"
| "read_loop (Suc n) s =
     (if IsEnd s then ([], s)
      else
        let (b, s) = ReadU8 s;
            (bs, s) = read_loop n s
        in (b # bs, s))"

definition read_bytes :: "nat \<Rightarrow> istream \<Rightarrow> (blob \<times> istream) result" where
  "read_bytes len s =
     (case read_loop len s of
        (bs, s) \<Rightarrow> if length bs < len \<and> IsEnd s then Inl NdnbDecodingException else Inr (bs, s))"

text \<open>
  The body of \<open>Block::ParseBlock\<close> with the constructors of the block classes it calls;
  \<open>pblock\<close> and \<open>pbody\<close> are the recursive calls.
\<close>

definition parse_dispatch ::
  "(istream \<Rightarrow> (block \<times> istream) result) \<Rightarrow> (istream \<Rightarrow> (block list \<times> block list \<times> istream) result) \<Rightarrow>
   istream \<Rightarrow> (block \<times> istream) result" where
  "parse_dispatch pblock pbody s =
     (case parse_header 0 0 s of
        (val, b, s) \<Rightarrow>
          let val = push_bit 4 val + drop_bit 3 (ucast (b AND NOT NDN_TT_HBIT));
              tt = b AND NDN_TT_MASK
          in if tt = tt_code NDN_BLOB then
               bindE (read_bytes (unat val) s) (\<lambda>(bs, s). Inr (Blob bs, s))
             else if tt = tt_code NDN_UDATA then
               bindE (read_bytes (unat val) s) (\<lambda>(bs, s). Inr (Udata bs, s))
             else if tt = tt_code NDN_TAG then
               bindE (read_bytes (unat (val + 1)) s) (\<lambda>(tag, s).
               bindE (pbody s) (\<lambda>(ats, nested, s). Inr (Tag tag ats nested, s)))
             else if tt = tt_code NDN_ATTR then
               bindE (read_bytes (unat (val + 1)) s) (\<lambda>(attr, s).
               bindE (pblock s) (\<lambda>(blk, s).
               case as_udata blk of None \<Rightarrow> Inl NdnbDecodingException | Some u \<Rightarrow> Inr (Attr attr u, s)))
             else if tt = tt_code NDN_DTAG then
               bindE (pbody s) (\<lambda>(ats, nested, s). Inr (Dtag val ats nested, s))
             else if tt = tt_code NDN_DATTR then
               bindE (pblock s) (\<lambda>(blk, s).
               case as_udata blk of None \<Rightarrow> Inl NdnbDecodingException | Some u \<Rightarrow> Inr (Dattr val u, s))
             else if tt = tt_code NDN_EXT then Inr (Ext val, s)
             else Inl NdnbDecodingException)"

text \<open>
  The recursion.  The two loops of the \<open>Tag\<close> and \<open>Dtag\<close> constructors read attributes up
  to the first other block and then the remaining blocks.  \<open>fuel\<close> bounds the recursion;
  \<open>parse_fuel\<close> below is always enough.
\<close>

fun parse_block :: "nat \<Rightarrow> istream \<Rightarrow> (block \<times> istream) result"
  and attr_loop :: "nat \<Rightarrow> block list \<Rightarrow> istream \<Rightarrow> (block list \<times> block list \<times> istream) result"
  and nested_loop :: "nat \<Rightarrow> block list \<Rightarrow> istream \<Rightarrow> (block list \<times> istream) result"
  and parse_body :: "nat \<Rightarrow> istream \<Rightarrow> (block list \<times> block list \<times> istream) result"
where
  "parse_block 0 s = Inl OutOfFuel"
| "parse_block (Suc fuel) s = parse_dispatch (\<lambda>s. parse_block fuel s) (\<lambda>s. parse_body fuel s) s"
| "attr_loop 0 ats s = Inl OutOfFuel"
| "attr_loop (Suc fuel) ats s =
     (if IsEnd s then Inr (ats, [], s)
      else
        let (b, s) = BufferIteratorPeekU8 s
        in if b = NDN_CLOSE then Inr (ats, [], s)
           else bindE (parse_block fuel s) (\<lambda>(blk, s).
             if is_attr blk then attr_loop fuel (ats @ [blk]) s else Inr (ats, [blk], s)))"
| "nested_loop 0 nested s = Inl OutOfFuel"
| "nested_loop (Suc fuel) nested s =
     (if IsEnd s then Inr (nested, s)
      else
        let (b, s) = BufferIteratorPeekU8 s
        in if b = NDN_CLOSE then Inr (nested, s)
           else bindE (parse_block fuel s) (\<lambda>(blk, s). nested_loop fuel (nested @ [blk]) s))"
| "parse_body 0 s = Inl OutOfFuel"
| "parse_body (Suc fuel) s =
     bindE (attr_loop fuel [] s) (\<lambda>(ats, nested, s).
     bindE (nested_loop fuel nested s) (\<lambda>(nested, s).
     if IsEnd s then Inl NdnbDecodingException else Inr (ats, nested, snd (ReadU8 s))))"

text \<open>Enough fuel for any stream: three calls per byte that is left, and the last ones.\<close>

definition parse_fuel :: "istream \<Rightarrow> nat" where
  "parse_fuel s = 3 * remaining s + 3"

definition ParseBlock :: "istream \<Rightarrow> (block \<times> istream) result" where
  "ParseBlock s = parse_block (parse_fuel s) s"

section \<open>The parser terminates\<close>

lemma ReadU8_remaining: "remaining (snd (ReadU8 s)) \<le> remaining s"
  by (auto simp: ReadU8_def remaining_def)

lemma Prev_ReadU8_remaining: "remaining (Prev (snd (ReadU8 s))) \<le> remaining s"
  by (auto simp: ReadU8_def remaining_def Prev_def Let_def)

lemma parse_header_progress:
  "parse_header val b s = (val', b', s') \<Longrightarrow>
    remaining s' \<le> remaining s \<and>
    (\<not> IsEnd s \<and> b AND NDN_TT_HBIT = 0 \<longrightarrow> b' = 0xFF \<or> remaining s' < remaining s)"
proof (induction val b s rule: parse_header.induct)
  case (1 val b s)
  show ?case
  proof (cases "\<not> IsEnd s \<and> b AND NDN_TT_HBIT = 0")
    case True
    note step = 1(1) [OF True] 1(2) [unfolded parse_header.simps [of val b s] if_P [OF True]]
    have "fst (ReadU8 s) = 0xFF \<and> remaining (snd (ReadU8 s)) = remaining s \<or> remaining (snd (ReadU8 s)) < remaining s"
      by (auto simp: ReadU8_def remaining_def)
    moreover have "(0xFF :: byte) AND NDN_TT_HBIT \<noteq> 0" by (simp add: NDN_TT_HBIT_def)
    ultimately show ?thesis
      using step True by (fastforce simp: parse_header.simps [of _ "0xFF"])
  next
    case False
    then show ?thesis using 1(2) by (auto simp: parse_header.simps [of val b s])
  qed
qed

lemma read_loop_remaining: "remaining (snd (read_loop n s)) \<le> remaining s"
proof (induction n arbitrary: s)
  case (Suc n)
  then show ?case
    using ReadU8_remaining [of s] le_trans by (fastforce simp: case_prod_beta Let_def)
qed simp

lemma read_bytes_remaining: "read_bytes n s = Inr (bs, s') \<Longrightarrow> remaining s' \<le> remaining s"
  using read_loop_remaining [of n s] by (auto simp: read_bytes_def split: prod.splits if_splits)

lemma read_bytes_fuel: "read_bytes n s \<noteq> Inl OutOfFuel"
  by (auto simp: read_bytes_def split: prod.splits)

lemma dispatch_ok:
  assumes blk: "\<And>s1. remaining s1 < remaining s \<Longrightarrow> pblock s1 \<noteq> Inl OutOfFuel"
      "\<And>s1 b s2. remaining s1 < remaining s \<Longrightarrow> pblock s1 = Inr (b, s2) \<Longrightarrow> remaining s2 \<le> remaining s1"
    and body: "\<And>s1. remaining s1 < remaining s \<Longrightarrow> pbody s1 \<noteq> Inl OutOfFuel"
      "\<And>s1 a n s2. remaining s1 < remaining s \<Longrightarrow> pbody s1 = Inr (a, n, s2) \<Longrightarrow> remaining s2 \<le> remaining s1"
  shows "parse_dispatch pblock pbody s \<noteq> Inl OutOfFuel"
    and "parse_dispatch pblock pbody s = Inr (b, s') \<Longrightarrow>
      remaining s' \<le> remaining s \<and> (\<not> IsEnd s \<longrightarrow> remaining s' < remaining s)"
proof -
  obtain val c s1 where h: "parse_header 0 0 s = (val, c, s1)" by (metis prod_cases3)
  note p = parse_header_progress [OF h]
  have rb: "remaining s3 < remaining s" if "remaining s1 < remaining s" "read_bytes n s1 = Inr (bs, s3)" for n bs s3
    using read_bytes_remaining [OF that(2)] that(1) by simp
  consider (eof) "IsEnd s" | (bad) "c = 0xFF" | (ok) "\<not> IsEnd s" "remaining s1 < remaining s"
    using p by auto
  then have "parse_dispatch pblock pbody s \<noteq> Inl OutOfFuel \<and>
    (parse_dispatch pblock pbody s = Inr (b, s') \<longrightarrow>
      remaining s' \<le> remaining s \<and> (\<not> IsEnd s \<longrightarrow> remaining s' < remaining s))"
  proof cases
    case eof
    then have "parse_header 0 0 s = (0, 0, s)" by (simp add: parse_header.simps)
    then show ?thesis using eof by (auto simp: parse_dispatch_def Let_def)
  next
    case bad
    then show ?thesis using h by (simp add: parse_dispatch_def Let_def NDN_TT_MASK_def)
  next
    case ok
    note b1 = blk(1) [OF rb [OF ok(2)]] and y1 = body(1) [OF rb [OF ok(2)]]
    have b2: "remaining s3 < remaining s \<and> remaining s3 \<le> remaining s"
      if "read_bytes n s1 = Inr (bs, s2)" "pblock s2 = Inr (x, s3)" for n bs s2 x s3
      using blk(2) [OF rb [OF ok(2) that(1)] that(2)] rb [OF ok(2) that(1)] by simp
    have y2: "remaining s3 < remaining s \<and> remaining s3 \<le> remaining s"
      if "read_bytes n s1 = Inr (bs, s2)" "pbody s2 = Inr (x, y, s3)" for n bs s2 x y s3
      using body(2) [OF rb [OF ok(2) that(1)] that(2)] rb [OF ok(2) that(1)] by simp
    show ?thesis
      unfolding parse_dispatch_def h Let_def prod.case
      using ok rb [OF ok(2)] blk(1) [OF ok(2)] body(1) [OF ok(2)] blk(2) [OF ok(2)] body(2) [OF ok(2)]
      by (auto simp: bindE_Inl_iff bindE_Inr_iff read_bytes_fuel split: if_splits option.splits
          dest: b1 y1 b2 y2 rb [OF ok(2)] elim: le_less_trans)
  qed
  then show "parse_dispatch pblock pbody s \<noteq> Inl OutOfFuel"
    and "parse_dispatch pblock pbody s = Inr (b, s') \<Longrightarrow>
      remaining s' \<le> remaining s \<and> (\<not> IsEnd s \<longrightarrow> remaining s' < remaining s)"
    by blast+
qed

text \<open>The fuel claims of the four functions, by induction on the fuel.\<close>

lemma peek_remaining: "BufferIteratorPeekU8 s = (b, s') \<Longrightarrow> remaining s' \<le> remaining s"
  using Prev_ReadU8_remaining [of s] by (auto simp: BufferIteratorPeekU8_def split: prod.splits)

lemma peek_not_end: "BufferIteratorPeekU8 s = (b, s') \<Longrightarrow> \<not> IsEnd s'"
  by (auto simp: BufferIteratorPeekU8_def Prev_def IsEnd_def Let_def split: prod.splits if_splits)

lemma parser_fuel:
  "(\<forall>s. 3 * remaining s + 1 \<le> fuel \<longrightarrow>
      parse_block fuel s \<noteq> Inl OutOfFuel \<and>
      (\<forall>b s'. parse_block fuel s = Inr (b, s') \<longrightarrow>
        remaining s' \<le> remaining s \<and> (\<not> IsEnd s \<longrightarrow> remaining s' < remaining s))) \<and>
   (\<forall>s ats. 3 * remaining s + 2 \<le> fuel \<longrightarrow>
      attr_loop fuel ats s \<noteq> Inl OutOfFuel \<and>
      (\<forall>a n s'. attr_loop fuel ats s = Inr (a, n, s') \<longrightarrow> remaining s' \<le> remaining s)) \<and>
   (\<forall>s ns. 3 * remaining s + 2 \<le> fuel \<longrightarrow>
      nested_loop fuel ns s \<noteq> Inl OutOfFuel \<and>
      (\<forall>n s'. nested_loop fuel ns s = Inr (n, s') \<longrightarrow> remaining s' \<le> remaining s)) \<and>
   (\<forall>s. 3 * remaining s + 3 \<le> fuel \<longrightarrow>
      parse_body fuel s \<noteq> Inl OutOfFuel \<and>
      (\<forall>a n s'. parse_body fuel s = Inr (a, n, s') \<longrightarrow> remaining s' \<le> remaining s))"
proof (induction fuel)
  case (Suc fuel)
  note blk = Suc.IH [THEN conjunct1, rule_format]
    and att = Suc.IH [THEN conjunct2, THEN conjunct1, rule_format]
    and nes = Suc.IH [THEN conjunct2, THEN conjunct2, THEN conjunct1, rule_format]
    and bod = Suc.IH [THEN conjunct2, THEN conjunct2, THEN conjunct2, rule_format]
  have "parse_block (Suc fuel) s \<noteq> Inl OutOfFuel \<and>
      (\<forall>b s'. parse_block (Suc fuel) s = Inr (b, s') \<longrightarrow>
        remaining s' \<le> remaining s \<and> (\<not> IsEnd s \<longrightarrow> remaining s' < remaining s))"
    if "3 * remaining s + 1 \<le> Suc fuel" for s
    using dispatch_ok [of s "parse_block fuel" "parse_body fuel"] blk bod that by auto
  moreover have "attr_loop (Suc fuel) ats s \<noteq> Inl OutOfFuel \<and>
      (\<forall>a n s'. attr_loop (Suc fuel) ats s = Inr (a, n, s') \<longrightarrow> remaining s' \<le> remaining s)"
    if f: "3 * remaining s + 2 \<le> Suc fuel" for s ats
  proof -
    obtain b s1 where p: "BufferIteratorPeekU8 s = (b, s1)" by fastforce
    have r: "remaining s1 \<le> remaining s" and e: "\<not> IsEnd s1" using p peek_remaining peek_not_end by blast+
    have r1: "3 * remaining s1 + 1 \<le> fuel" using r f by simp
    have r2: "remaining s2 < remaining s1 \<and> 3 * remaining s2 + 2 \<le> fuel"
      if "parse_block fuel s1 = Inr (x, s2)" for x s2
      using blk [OF r1] that e r1 by fastforce
    show ?thesis
      using p r blk [OF r1] att r2
      by (fastforce simp: bindE_Inl_iff bindE_Inr_iff split: if_splits)
  qed
  moreover have "nested_loop (Suc fuel) ns s \<noteq> Inl OutOfFuel \<and>
      (\<forall>n s'. nested_loop (Suc fuel) ns s = Inr (n, s') \<longrightarrow> remaining s' \<le> remaining s)"
    if f: "3 * remaining s + 2 \<le> Suc fuel" for s ns
  proof -
    obtain b s1 where p: "BufferIteratorPeekU8 s = (b, s1)" by fastforce
    have r: "remaining s1 \<le> remaining s" and e: "\<not> IsEnd s1" using p peek_remaining peek_not_end by blast+
    have r1: "3 * remaining s1 + 1 \<le> fuel" using r f by simp
    have r2: "remaining s2 < remaining s1 \<and> 3 * remaining s2 + 2 \<le> fuel"
      if "parse_block fuel s1 = Inr (x, s2)" for x s2
      using blk [OF r1] that e r1 by fastforce
    show ?thesis
      using p r blk [OF r1] nes r2
      by (fastforce simp: bindE_Inl_iff bindE_Inr_iff split: if_splits)
  qed
  moreover have "parse_body (Suc fuel) s \<noteq> Inl OutOfFuel \<and>
      (\<forall>a n s'. parse_body (Suc fuel) s = Inr (a, n, s') \<longrightarrow> remaining s' \<le> remaining s)"
    if f: "3 * remaining s + 3 \<le> Suc fuel" for s
  proof (cases "attr_loop fuel [] s")
    case (Inl e)
    then show ?thesis using f att [of s "[]"] by simp
  next
    case (Inr x)
    obtain a n s1 where x: "x = (a, n, s1)" by (metis prod_cases3)
    have r: "remaining s1 \<le> remaining s" using f att [of s "[]"] Inr x by simp
    then have ns: "nested_loop fuel n s1 \<noteq> Inl OutOfFuel"
      "\<And>n' s'. nested_loop fuel n s1 = Inr (n', s') \<Longrightarrow> remaining s' \<le> remaining s"
      using f nes [of s1 n] le_trans by (simp, fastforce)
    show ?thesis
    proof (cases "nested_loop fuel n s1")
      case l: (Inl e)
      then show ?thesis using Inr x ns(1) by simp
    next
      case l: (Inr y)
      obtain n' s2 where y: "y = (n', s2)" by (rule prod.exhaust)
      have "remaining (snd (ReadU8 s2)) \<le> remaining s"
        using ns(2) ReadU8_remaining [of s2] l y by (meson le_trans)
      then show ?thesis using Inr x l y by simp
    qed
  qed
  ultimately show ?case by blast
qed simp

text \<open>More fuel does not change a result.\<close>

lemma bindE_mono:
  assumes "m \<noteq> Inl e \<Longrightarrow> m' = m" and "\<And>x. m = Inr x \<Longrightarrow> f x \<noteq> Inl e \<Longrightarrow> f' x = f x"
    and "bindE m f \<noteq> Inl e"
  shows "bindE m' f' = bindE m f"
  using assms by (cases m) auto

lemma dispatch_mono:
  assumes "\<And>s. pb s \<noteq> Inl OutOfFuel \<Longrightarrow> pb' s = pb s" and "\<And>s. py s \<noteq> Inl OutOfFuel \<Longrightarrow> py' s = py s"
    and "parse_dispatch pb py s \<noteq> Inl OutOfFuel"
  shows "parse_dispatch pb' py' s = parse_dispatch pb py s"
proof -
  obtain val c s1 where h: "parse_header 0 0 s = (val, c, s1)" by (metis prod_cases3)
  show ?thesis
    using assms(3) unfolding parse_dispatch_def h Let_def prod.case
    by (auto intro!: bindE_mono [of _ OutOfFuel] assms(1,2) split: if_splits)
qed

lemma parser_mono:
  "(\<forall>s. parse_block fuel s \<noteq> Inl OutOfFuel \<longrightarrow> parse_block (Suc fuel) s = parse_block fuel s) \<and>
   (\<forall>s a. attr_loop fuel a s \<noteq> Inl OutOfFuel \<longrightarrow> attr_loop (Suc fuel) a s = attr_loop fuel a s) \<and>
   (\<forall>s n. nested_loop fuel n s \<noteq> Inl OutOfFuel \<longrightarrow> nested_loop (Suc fuel) n s = nested_loop fuel n s) \<and>
   (\<forall>s. parse_body fuel s \<noteq> Inl OutOfFuel \<longrightarrow> parse_body (Suc fuel) s = parse_body fuel s)"
proof (induction fuel)
  case (Suc fuel)
  note blk = Suc.IH [THEN conjunct1, rule_format]
    and att = Suc.IH [THEN conjunct2, THEN conjunct1, rule_format]
    and nes = Suc.IH [THEN conjunct2, THEN conjunct2, THEN conjunct1, rule_format]
    and bod = Suc.IH [THEN conjunct2, THEN conjunct2, THEN conjunct2, rule_format]
  have "parse_block (Suc (Suc fuel)) s = parse_block (Suc fuel) s" if "parse_block (Suc fuel) s \<noteq> Inl OutOfFuel" for s
    using dispatch_mono [of "parse_block fuel" "parse_block (Suc fuel)" "parse_body fuel" "parse_body (Suc fuel)" s,
        OF blk bod] that
    unfolding parse_block.simps(2) [of fuel s] parse_block.simps(2) [of "Suc fuel" s] by blast
  moreover have "attr_loop (Suc (Suc fuel)) a s = attr_loop (Suc fuel) a s" if "attr_loop (Suc fuel) a s \<noteq> Inl OutOfFuel" for a s
    using that by (subst (1 2) attr_loop.simps, subst (asm) attr_loop.simps)
      (auto simp del: attr_loop.simps parse_block.simps split: if_splits prod.splits
        intro!: bindE_mono [of _ OutOfFuel] blk att)
  moreover have "nested_loop (Suc (Suc fuel)) n s = nested_loop (Suc fuel) n s" if "nested_loop (Suc fuel) n s \<noteq> Inl OutOfFuel" for n s
    using that by (subst (1 2) nested_loop.simps, subst (asm) nested_loop.simps)
      (auto simp del: nested_loop.simps parse_block.simps split: if_splits prod.splits
        intro!: bindE_mono [of _ OutOfFuel] blk nes)
  moreover have "parse_body (Suc (Suc fuel)) s = parse_body (Suc fuel) s" if "parse_body (Suc fuel) s \<noteq> Inl OutOfFuel" for s
    using that by (subst (1 2) parse_body.simps, subst (asm) parse_body.simps)
      (auto simp del: parse_body.simps attr_loop.simps nested_loop.simps split: if_splits prod.splits
        intro!: bindE_mono [of _ OutOfFuel] att nes)
  ultimately show ?case by blast
qed simp

lemma parse_block_more_fuel:
  assumes "parse_block fuel s \<noteq> Inl OutOfFuel" and "fuel \<le> fuel'"
  shows "parse_block fuel' s = parse_block fuel s"
  using assms(2)
proof (induction fuel' rule: dec_induct)
  case (step n)
  then show ?case using parser_mono [of n] assms(1) by auto
qed simp

section \<open>Reading what is there\<close>

definition reads :: "istream \<Rightarrow> blob \<Rightarrow> bool" where
  "reads s xs \<longleftrightarrow> \<not> eofbit s \<and> \<not> failbit s \<and> position s \<le> length (buffer s) \<and> drop (position s) (buffer s) = xs"

definition advance :: "nat \<Rightarrow> istream \<Rightarrow> istream" where
  "advance n s = s\<lparr> position := position s + n \<rparr>"

lemma advance_advance [simp]: "advance m (advance n s) = advance (n + m) s"
  by (simp add: advance_def)

lemma advance_0 [simp]: "advance 0 s = s"
  by (simp add: advance_def)

lemma reads_open: "reads (open_stream bs) bs"
  by (simp add: reads_def open_stream_def)

lemma reads_advance: "reads s (xs @ ys) \<Longrightarrow> reads (advance (length xs) s) ys"
  unfolding reads_def advance_def
  by (auto simp: drop_drop [symmetric] add.commute dest: arg_cong [of _ _ length] simp del: drop_drop)

lemma reads_ReadU8: "reads s (x # xs) \<Longrightarrow> ReadU8 s = (x, advance 1 s)"
  by (auto simp: reads_def ReadU8_def advance_def nth_via_drop dest: drop_eq_Nil2 [THEN iffD2])

lemma reads_not_end: "reads s xs \<Longrightarrow> \<not> IsEnd s"
  by (simp add: reads_def IsEnd_def)

lemma reads_peek: "reads s (x # xs) \<Longrightarrow> BufferIteratorPeekU8 s = (x, s)"
  by (simp add: BufferIteratorPeekU8_def reads_ReadU8) (simp add: reads_def Prev_def advance_def)

lemma reads_loop: "reads s (xs @ ys) \<Longrightarrow> read_loop (length xs) s = (xs, advance (length xs) s)"
proof (induction xs arbitrary: s)
  case (Cons x xs)
  then show ?case
    using reads_advance [of s "[x]"] by (simp add: reads_not_end reads_ReadU8)
qed simp

lemma reads_bytes: "reads s (xs @ ys) \<Longrightarrow> read_bytes (length xs) s = Inr (xs, advance (length xs) s)"
  by (simp add: read_bytes_def reads_loop)

section \<open>Headers are read back\<close>

lemma not_hbit: "x AND NOT (0x80 :: byte) = take_bit 7 x"
proof -
  have "NOT (0x80 :: byte) = mask 7" by (simp add: mask_eq_exp_minus_1)
  then show ?thesis by (simp add: take_bit_eq_mask)
qed

lemma not_HBIT: "x AND NOT NDN_TT_HBIT = take_bit 7 x"
  unfolding NDN_TT_HBIT_def by (rule not_hbit)

lemma digit_step:
  "push_bit 7 (ucast (drop_bit 7 v)) + ucast (take_bit 7 (ucast v :: byte)) = (ucast (v :: uint64) :: uint32)"
proof -
  have 1: "push_bit 7 (ucast (drop_bit 7 v)) = push_bit 7 (drop_bit 7 (ucast v :: uint32))"
    by (rule bit_word_eqI) (auto simp: bit_simps)
  have 2: "ucast (take_bit 7 (ucast v :: byte)) = take_bit 7 (ucast v :: uint32)"
    by (rule bit_word_eqI) (auto simp: bit_simps)
  show ?thesis unfolding 1 2 by (rule bits_ident)
qed

lemma last_step:
  fixes v :: uint64 and f c :: byte
  assumes "f = push_bit 7 1 OR push_bit 3 (ucast (take_bit 4 v)) OR take_bit 3 c"
  shows "push_bit 4 (ucast (drop_bit 4 v)) + drop_bit 3 (ucast (take_bit 7 f)) = (ucast v :: uint32)"
    and "take_bit 3 f = take_bit 3 c" and "bit f 7"
proof -
  have 1: "push_bit 4 (ucast (drop_bit 4 v)) = push_bit 4 (drop_bit 4 (ucast v :: uint32))"
    by (rule bit_word_eqI) (auto simp: bit_simps)
  have 2: "drop_bit 3 (ucast (take_bit 7 f)) = take_bit 4 (ucast v :: uint32)"
    unfolding assms by (rule bit_word_eqI) (auto simp: bit_simps)
  show "push_bit 4 (ucast (drop_bit 4 v)) + drop_bit 3 (ucast (take_bit 7 f)) = (ucast v :: uint32)"
     unfolding 1 2 by (rule bits_ident)
  show "take_bit 3 f = take_bit 3 c" unfolding assms by (rule bit_word_eqI) (auto simp: bit_simps)
  show "bit f 7" unfolding assms by (simp add: bit_simps)
qed
lemma hbit_iff: "(b :: byte) AND NDN_TT_HBIT = 0 \<longleftrightarrow> \<not> bit b 7"
  using and_exp_eq_0_iff_not_bit [of b 7] by (simp add: NDN_TT_HBIT_def)

definition horner :: "uint32 \<Rightarrow> blob \<Rightarrow> uint32" where
  "horner a ds = foldl (\<lambda>v d. push_bit 7 v + ucast d) a ds"

lemma parse_header_digits:
  "reads s (ds @ f # rest) \<Longrightarrow> \<forall>d\<in>set (b # ds). \<not> bit d 7 \<Longrightarrow> bit f 7 \<Longrightarrow>
    parse_header a b s = (horner a (b # ds), f, advance (length ds + 1) s)"
proof (induction ds arbitrary: a b s)
  case Nil
  then show ?case
    by (simp add: parse_header.simps [of a] parse_header.simps [of _ f] hbit_iff reads_not_end reads_ReadU8 horner_def)
next
  case (Cons d ds)
  have r: "reads (advance 1 s) (ds @ f # rest)" using reads_advance [of s "[d]"] Cons.prems(1) by simp
  have "parse_header a b s = parse_header (push_bit 7 a + ucast b) d (advance 1 s)"
    using Cons.prems by (subst parse_header.simps) (simp add: hbit_iff reads_not_end reads_ReadU8)
  also have "\<dots> = (horner (push_bit 7 a + ucast b) (d # ds), f, advance (length ds + 1) (advance 1 s))"
    using Cons.prems r by (intro Cons.IH) auto
  finally show ?case by (simp add: horner_def)
qed

lemma header_loop_digits:
  "\<exists>ds. header_loop v buf = ds @ buf \<and> (\<forall>d\<in>set ds. \<not> bit d 7) \<and> horner 0 ds = ucast v"
proof (induction v buf rule: header_loop.induct)
  case (1 v buf)
  show ?case
  proof (cases "v = 0")
    case True
    then show ?thesis by (simp add: header_loop.simps horner_def)
  next
    case False
    let ?d = "take_bit 7 (ucast v) :: byte"
    have d: "(ucast v AND NOT NDN_TT_HBIT) OR NDN_CLOSE = ?d"
      by (simp add: NDN_CLOSE_def not_HBIT)
    obtain ds where ds: "header_loop (drop_bit 7 v) (?d # buf) = ds @ ?d # buf"
        "\<forall>d\<in>set ds. \<not> bit d 7" "horner 0 ds = ucast (drop_bit 7 v)"
      using 1 [OF False] unfolding d by auto
    have "horner 0 (ds @ [?d]) = ucast v" using ds(3) digit_step [of v] by (simp add: horner_def)
    moreover have "header_loop v buf = (ds @ [?d]) @ buf"
      using ds(1) False by (subst header_loop.simps) (simp add: d)
    moreover have "\<not> bit ?d 7" by (simp add: bit_simps)
    ultimately show ?thesis using ds(2) by (intro exI [of _ "ds @ [?d]"]) auto
  qed
qed

text \<open>The value and the type that \<open>ParseBlock\<close> extracts from the header.\<close>

lemma header_read:
  assumes "reads s (header_bytes v tt @ rest)"
  obtains val b where "parse_header 0 0 s = (val, b, advance (length (header_bytes v tt)) s)"
    "push_bit 4 val + drop_bit 3 (ucast (b AND NOT NDN_TT_HBIT)) = (ucast v :: uint32)"
    "b AND NDN_TT_MASK = tt_code tt"
proof -
  define f :: byte where "f = push_bit 7 1 OR push_bit 3 (ucast (take_bit 4 v)) OR take_bit 3 (tt_code tt)"
  have m: "NDN_TT_MASK = mask 3" "NDN_MAX_TINY = mask 4" "NDN_TT_HBIT AND NOT NDN_CLOSE = push_bit 7 1"
    by (simp_all add: NDN_TT_MASK_def NDN_MAX_TINY_def NDN_TT_HBIT_def NDN_CLOSE_def mask_eq_exp_minus_1)
  have "push_bit 3 (ucast (v AND mask 4)) = (push_bit 3 (ucast (take_bit 4 v)) :: byte)"
    by (simp add: take_bit_eq_mask)
  then have hb: "header_bytes v tt = header_loop (drop_bit 4 v) [f]"
    unfolding header_bytes_def f_def m by (simp add: take_bit_eq_mask and.commute)
  obtain ds where ds: "header_bytes v tt = ds @ [f]" "\<forall>d\<in>set ds. \<not> bit d 7" "horner 0 ds = ucast (drop_bit 4 v)"
    using header_loop_digits [of "drop_bit 4 v" "[f]"] hb by auto
  note ls = last_step [OF f_def]
  have "parse_header 0 0 s = (horner 0 (0 # ds), f, advance (length ds + 1) s)"
    using assms ds ls(3) by (intro parse_header_digits) auto
  moreover have "horner 0 (0 # ds) = ucast (drop_bit 4 v)" using ds(3) by (simp add: horner_def)
  moreover have "take_bit 3 (tt_code tt) = tt_code tt" by (cases tt) simp_all
  ultimately show ?thesis
    using that [of "horner 0 (0 # ds)" f] ls ds(1) m(1)
    by (simp add: not_HBIT take_bit_eq_mask)
qed

section \<open>Blocks are read back\<close>

text \<open>The encoding of a syntax tree, in terms of the encoder's block headers.\<close>

fun enc_block :: "block \<Rightarrow> blob" where
  "enc_block (Blob bs) = header_bytes (of_nat (length bs)) NDN_BLOB @ bs"
| "enc_block (Udata bs) = header_bytes (of_nat (length bs)) NDN_UDATA @ bs"
| "enc_block (Tag t ats ns) =
     header_bytes (of_nat (length t - 1)) NDN_TAG @ t @
     concat (map enc_block ats) @ concat (map enc_block ns) @ [NDN_CLOSE]"
| "enc_block (Dtag d ats ns) =
     header_bytes (ucast d) NDN_DTAG @ concat (map enc_block ats) @ concat (map enc_block ns) @ [NDN_CLOSE]"
| "enc_block (Attr a u) =
     header_bytes (of_nat (length a - 1)) NDN_ATTR @ a @ header_bytes (of_nat (length u)) NDN_UDATA @ u"
| "enc_block (Dattr d u) = header_bytes (ucast d) NDN_DATTR @ header_bytes (of_nat (length u)) NDN_UDATA @ u"
| "enc_block (Ext v) = header_bytes (ucast v) NDN_EXT"

text \<open>
  The trees that have an encoding: lengths fit the 32-bit header value, tag and attribute
  names are not empty, and the attributes of an element come before its other blocks.
\<close>

fun wf_block :: "block \<Rightarrow> bool" where
  "wf_block (Blob bs) \<longleftrightarrow> length bs < 2 ^ 32"
| "wf_block (Udata bs) \<longleftrightarrow> length bs < 2 ^ 32"
| "wf_block (Tag t ats ns) \<longleftrightarrow>
     t \<noteq> [] \<and> length t < 2 ^ 32 \<and> (\<forall>b\<in>set ats. is_attr b \<and> wf_block b) \<and>
     (ns \<noteq> [] \<longrightarrow> \<not> is_attr (hd ns)) \<and> (\<forall>b\<in>set ns. wf_block b)"
| "wf_block (Dtag d ats ns) \<longleftrightarrow>
     (\<forall>b\<in>set ats. is_attr b \<and> wf_block b) \<and>
     (ns \<noteq> [] \<longrightarrow> \<not> is_attr (hd ns)) \<and> (\<forall>b\<in>set ns. wf_block b)"
| "wf_block (Attr a u) \<longleftrightarrow> a \<noteq> [] \<and> length a < 2 ^ 32 \<and> length u < 2 ^ 32"
| "wf_block (Dattr d u) \<longleftrightarrow> length u < 2 ^ 32"
| "wf_block (Ext v) \<longleftrightarrow> True"

lemma header_loop_hd: "buf \<noteq> [] \<Longrightarrow> v \<noteq> 0 \<or> hd buf \<noteq> 0 \<Longrightarrow> header_loop v buf \<noteq> [] \<and> hd (header_loop v buf) \<noteq> 0"
proof (induction v buf rule: header_loop.induct)
  case (1 v buf)
  show ?case
  proof (cases "v = 0")
    case True
    then show ?thesis using 1 by (simp add: header_loop.simps)
  next
    case False
    let ?d = "(ucast v AND NOT NDN_TT_HBIT) OR NDN_CLOSE :: byte"
    have "drop_bit 7 v \<noteq> 0 \<or> ?d \<noteq> 0"
    proof (rule ccontr)
      assume "\<not> ?thesis"
      then have z: "drop_bit 7 v = 0" "take_bit 7 (ucast v :: byte) = 0"
        by (simp_all add: not_HBIT NDN_CLOSE_def)
      have "take_bit 7 v = ucast (take_bit 7 (ucast v :: byte))"
        by (rule bit_word_eqI) (auto simp: bit_simps)
      then have "v = 0" using bits_ident [of 7 v] z by simp
      then show False using False by simp
    qed
    then show ?thesis using 1(1) [OF False] False by (subst (1 2) header_loop.simps) simp
  qed
qed

lemma header_bytes_hd: "header_bytes v tt \<noteq> [] \<and> hd (header_bytes v tt) \<noteq> NDN_CLOSE"
proof -
  have h: "(NDN_TT_HBIT AND NOT NDN_CLOSE) OR x OR y \<noteq> 0" for x y :: byte
  proof
    assume "(NDN_TT_HBIT AND NOT NDN_CLOSE) OR x OR y = 0"
    then have "\<not> bit ((NDN_TT_HBIT AND NOT NDN_CLOSE) OR x OR y) 7" by simp
    then show False by (simp add: NDN_TT_HBIT_def NDN_CLOSE_def bit_or_iff bit_numeral_rec)
  qed
  show ?thesis unfolding header_bytes_def NDN_CLOSE_def [symmetric]
    using header_loop_hd [of "[_]" "drop_bit 4 v"] h by (simp add: NDN_CLOSE_def)
qed

lemma enc_block_hd: "enc_block b \<noteq> [] \<and> hd (enc_block b) \<noteq> NDN_CLOSE"
  by (cases b) (simp_all add: header_bytes_hd)

lemma ucast_of_nat_32: "(ucast (of_nat n :: uint64) :: uint32) = of_nat n"
  by (rule unsigned_word_eqI) (simp add: unsigned_ucast_eq unsigned_of_nat take_bit_take_bit)

lemma ucast_ucast_32 [simp]: "(ucast (ucast (d :: uint32) :: uint64) :: uint32) = d"
  by (rule bit_word_eqI) (simp add: bit_simps)

lemma len_value: "n < 2 ^ 32 \<Longrightarrow> unat (of_nat n :: uint32) = n"
  by (simp add: unat_of_nat)

lemma len_value_plus: "0 < n \<Longrightarrow> n < 2 ^ 32 \<Longrightarrow> unat (of_nat (n - 1) + 1 :: uint32) = n"
  using len_value [of n] by (cases n) (simp_all add: add.commute)

lemma dispatch_header:
  assumes "reads s (header_bytes v tt @ rest)"
  defines "s1 \<equiv> advance (length (header_bytes v tt)) s" and "val \<equiv> ucast v :: uint32"
  shows "parse_dispatch pb py s =
    (case tt of
       NDN_BLOB \<Rightarrow> bindE (read_bytes (unat val) s1) (\<lambda>(bs, s). Inr (Blob bs, s))
     | NDN_UDATA \<Rightarrow> bindE (read_bytes (unat val) s1) (\<lambda>(bs, s). Inr (Udata bs, s))
     | NDN_TAG \<Rightarrow> bindE (read_bytes (unat (val + 1)) s1) (\<lambda>(tag, s).
         bindE (py s) (\<lambda>(ats, nested, s). Inr (Tag tag ats nested, s)))
     | NDN_ATTR \<Rightarrow> bindE (read_bytes (unat (val + 1)) s1) (\<lambda>(attr, s).
         bindE (pb s) (\<lambda>(blk, s).
         case as_udata blk of None \<Rightarrow> Inl NdnbDecodingException | Some u \<Rightarrow> Inr (Attr attr u, s)))
     | NDN_DTAG \<Rightarrow> bindE (py s1) (\<lambda>(ats, nested, s). Inr (Dtag val ats nested, s))
     | NDN_DATTR \<Rightarrow> bindE (pb s1) (\<lambda>(blk, s).
         case as_udata blk of None \<Rightarrow> Inl NdnbDecodingException | Some u \<Rightarrow> Inr (Dattr val u, s))
     | NDN_EXT \<Rightarrow> Inr (Ext val, s1)
     | NDN_NO_TOKEN \<Rightarrow> Inl NdnbDecodingException)"
proof -
  obtain w b where h: "parse_header 0 0 s = (w, b, s1)"
      "push_bit 4 w + drop_bit 3 (ucast (b AND NOT NDN_TT_HBIT)) = val" "b AND NDN_TT_MASK = tt_code tt"
    using header_read [OF assms(1)] unfolding s1_def val_def by blast
  show ?thesis unfolding parse_dispatch_def h prod.case Let_def by (cases tt) simp_all
qed

text \<open>A parser that, from some fuel on, returns \<open>x\<close> and the given stream.\<close>

definition settles :: "(nat \<Rightarrow> 'a result) \<Rightarrow> 'a \<Rightarrow> bool" where
  "settles p x \<longleftrightarrow> (\<exists>f0. \<forall>f\<ge>f0. p f = Inr x)"

lemma settles_Suc: "settles (\<lambda>f. p (Suc f)) x \<Longrightarrow> settles p x"
  unfolding settles_def by (metis Suc_le_D Suc_le_mono)

lemma settles_const [simp]: "settles (\<lambda>f. Inr x) x"
  by (simp add: settles_def)

lemma settles_bind:
  assumes "settles p x" and "settles (\<lambda>f. k f x) y"
  shows "settles (\<lambda>f. bindE (p f) (k f)) y"
proof -
  obtain f1 f2 where "\<forall>f\<ge>f1. p f = Inr x" "\<forall>f\<ge>f2. k f x = Inr y"
    using assms by (auto simp: settles_def)
  then show ?thesis unfolding settles_def by (intro exI [of _ "max f1 f2"]) simp
qed

definition reads_back :: "block \<Rightarrow> bool" where
  "reads_back b \<longleftrightarrow>
     (\<forall>s rest. reads s (enc_block b @ rest) \<longrightarrow>
        settles (\<lambda>f. parse_block f s) (b, advance (length (enc_block b)) s))"

lemma peek_enc: "reads s (enc_block b @ rest) \<Longrightarrow> \<exists>x. BufferIteratorPeekU8 s = (x, s) \<and> x \<noteq> NDN_CLOSE"
  using enc_block_hd [of b] by (cases "enc_block b") (auto dest: reads_peek)

lemma reads_backD:
  "reads_back b \<Longrightarrow> reads s (enc_block b @ rest) \<Longrightarrow>
    settles (\<lambda>f. parse_block f s) (b, advance (length (enc_block b)) s)"
  unfolding reads_back_def by blast

lemma nested_back:
  assumes "\<forall>b\<in>set ns. reads_back b" and "reads s (concat (map enc_block ns) @ NDN_CLOSE # rest)"
  shows "settles (\<lambda>f. nested_loop f acc s) (acc @ ns, advance (length (concat (map enc_block ns))) s)"
  using assms
proof (induction ns arbitrary: acc s)
  case Nil
  then show ?case by (intro settles_Suc [of "\<lambda>f. nested_loop f acc s"]) (simp add: reads_not_end reads_peek)
next
  case (Cons b ns)
  let ?s = "advance (length (enc_block b)) s"
  have b: "settles (\<lambda>f. parse_block f s) (b, ?s)"
    using Cons.prems reads_backD [of b s "concat (map enc_block ns) @ NDN_CLOSE # rest"] by simp
  have "reads ?s (concat (map enc_block ns) @ NDN_CLOSE # rest)"
    using Cons.prems(2) reads_advance [of s "enc_block b"] by simp
  then have n: "settles (\<lambda>f. nested_loop f (acc @ [b]) ?s)
      ((acc @ [b]) @ ns, advance (length (concat (map enc_block ns))) ?s)"
    using Cons.prems(1) by (intro Cons.IH) auto
  obtain x where x: "BufferIteratorPeekU8 s = (x, s)" "x \<noteq> NDN_CLOSE"
    using Cons.prems(2) peek_enc [of s b] by auto
  have "settles (\<lambda>f. bindE (parse_block f s) (\<lambda>(blk, s). nested_loop f (acc @ [blk]) s))
      (acc @ b # ns, advance (length (concat (map enc_block (b # ns)))) s)"
    using n by (intro settles_bind [OF b]) simp
  then show ?case
    using reads_not_end [OF Cons.prems(2)] x
    by (intro settles_Suc [of "\<lambda>f. nested_loop f acc s"]) simp
qed

lemma attr_back:
  assumes "\<forall>b\<in>set ats. is_attr b \<and> reads_back b" and "ns \<noteq> [] \<Longrightarrow> \<not> is_attr (hd ns) \<and> reads_back (hd ns)"
    and "reads s (concat (map enc_block ats) @ concat (map enc_block ns) @ NDN_CLOSE # rest)"
  shows "settles (\<lambda>f. attr_loop f acc s)
    (acc @ ats, take 1 ns, advance (length (concat (map enc_block ats)) + length (concat (map enc_block (take 1 ns)))) s)"
  using assms
proof (induction ats arbitrary: acc s)
  case Nil
  show ?case
  proof (cases ns)
    case Nil2: Nil
    then show ?thesis using Nil.prems(3)
      by (intro settles_Suc [of "\<lambda>f. attr_loop f acc s"]) (simp add: reads_not_end reads_peek)
  next
    case (Cons b ns')
    have b: "settles (\<lambda>f. parse_block f s) (b, advance (length (enc_block b)) s)"
      using Nil.prems(2,3) Cons reads_backD [of b s "concat (map enc_block ns') @ NDN_CLOSE # rest"] by simp
    obtain x where x: "BufferIteratorPeekU8 s = (x, s)" "x \<noteq> NDN_CLOSE"
      using Nil.prems(3) Cons peek_enc [of s b] by auto
    have "settles (\<lambda>f. bindE (parse_block f s) (\<lambda>(blk, s).
        if is_attr blk then attr_loop f (acc @ [blk]) s else Inr (acc, [blk], s)))
        (acc, [b], advance (length (enc_block b)) s)"
      using Nil.prems(2) Cons by (intro settles_bind [OF b]) simp
    then show ?thesis
      using reads_not_end [OF Nil.prems(3)] x Cons
      by (intro settles_Suc [of "\<lambda>f. attr_loop f acc s"]) simp
  qed
next
  case (Cons b ats)
  let ?s = "advance (length (enc_block b)) s"
  have b: "settles (\<lambda>f. parse_block f s) (b, ?s)"
    using Cons.prems
      reads_backD [of b s "concat (map enc_block ats) @ concat (map enc_block ns) @ NDN_CLOSE # rest"] by simp
  have "reads ?s (concat (map enc_block ats) @ concat (map enc_block ns) @ NDN_CLOSE # rest)"
    using Cons.prems(3) reads_advance [of s "enc_block b"] by simp
  then have n: "settles (\<lambda>f. attr_loop f (acc @ [b]) ?s) ((acc @ [b]) @ ats, take 1 ns,
      advance (length (concat (map enc_block ats)) + length (concat (map enc_block (take 1 ns)))) ?s)"
    using Cons.prems(1,2) by (intro Cons.IH) auto
  obtain x where x: "BufferIteratorPeekU8 s = (x, s)" "x \<noteq> NDN_CLOSE"
    using Cons.prems(3) peek_enc [of s b] by auto
  have "settles (\<lambda>f. bindE (parse_block f s) (\<lambda>(blk, s).
      if is_attr blk then attr_loop f (acc @ [blk]) s else Inr (acc, [blk], s)))
      (acc @ b # ats, take 1 ns,
       advance (length (concat (map enc_block (b # ats))) + length (concat (map enc_block (take 1 ns)))) s)"
    using n Cons.prems(1) by (intro settles_bind [OF b]) (simp add: add.assoc)
  then show ?case
    using reads_not_end [OF Cons.prems(3)] x
    by (intro settles_Suc [of "\<lambda>f. attr_loop f acc s"]) simp
qed

lemma body_back:
  assumes ats: "\<forall>b\<in>set ats. is_attr b \<and> reads_back b" and ns: "\<forall>b\<in>set ns. reads_back b"
    and hd: "ns \<noteq> [] \<Longrightarrow> \<not> is_attr (hd ns)"
    and r: "reads s (concat (map enc_block ats) @ concat (map enc_block ns) @ NDN_CLOSE # rest)"
  shows "settles (\<lambda>f. parse_body f s)
    (ats, ns, advance (length (concat (map enc_block ats)) + length (concat (map enc_block ns)) + 1) s)"
proof -
  let ?A = "concat (map enc_block ats)" and ?N = "\<lambda>ns. concat (map enc_block ns)"
  let ?s1 = "advance (length ?A + length (?N (take 1 ns))) s"
  let ?s2 = "advance (length ?A + length (?N ns)) s"
  have sp: "?N ns = ?N (take 1 ns) @ ?N (drop 1 ns)" by (metis append_take_drop_id concat_append map_append)
  have a: "settles (\<lambda>f. attr_loop f [] s) ([] @ ats, take 1 ns, ?s1)"
    using ats ns hd r by (intro attr_back) auto
  have r1: "reads ?s1 (?N (drop 1 ns) @ NDN_CLOSE # rest)"
    using r reads_advance [of s "?A @ ?N (take 1 ns)"] by (simp add: sp)
  have n: "settles (\<lambda>f. nested_loop f (take 1 ns) ?s1)
      (take 1 ns @ drop 1 ns, advance (length (?N (drop 1 ns))) ?s1)"
    using ns r1 by (intro nested_back) (auto dest: in_set_dropD)
  have e: "take 1 ns @ drop 1 ns = ns" "advance (length (?N (drop 1 ns))) ?s1 = ?s2"
    by (simp, simp add: sp [THEN arg_cong [of _ _ length]] add.assoc)
  have r2: "reads ?s2 (NDN_CLOSE # rest)"
    using r reads_advance [of s "?A @ ?N ns"] by simp
  have "settles (\<lambda>f. bindE (attr_loop f [] s) (\<lambda>(ats, nested, s).
      bindE (nested_loop f nested s) (\<lambda>(nested, s).
      if IsEnd s then Inl NdnbDecodingException else Inr (ats, nested, snd (ReadU8 s)))))
      (ats, ns, advance 1 ?s2)"
    using n [unfolded e] reads_not_end [OF r2] reads_ReadU8 [OF r2]
    by (intro settles_bind [OF a]) (simp, intro settles_bind, auto)
  then show ?thesis by (intro settles_Suc [of "\<lambda>f. parse_body f s"]) simp
qed

lemma udata_back:
  assumes "length u < 2 ^ 32"
  shows "reads_back (Udata u)"
  unfolding reads_back_def
proof (intro allI impI)
  fix s rest
  assume r: "reads s (enc_block (Udata u) @ rest)"
  then have "reads s (header_bytes (of_nat (length u)) NDN_UDATA @ u @ rest)" by simp
  note d = dispatch_header [OF this] and r1 = reads_bytes [OF reads_advance [OF this]]
  show "settles (\<lambda>f. parse_block f s) (Udata u, advance (length (enc_block (Udata u))) s)"
    using d r1 assms
    by (intro settles_Suc [of "\<lambda>f. parse_block f s"]) (simp add: ucast_of_nat_32 len_value)
qed

lemma block_back: "wf_block b \<Longrightarrow> reads_back b"
proof (induction b rule: wf_block.induct)
  case (1 bs)
  show ?case unfolding reads_back_def
  proof (intro allI impI)
    fix s rest
    assume "reads s (enc_block (Blob bs) @ rest)"
    then have "reads s (header_bytes (of_nat (length bs)) NDN_BLOB @ bs @ rest)" by simp
    note d = dispatch_header [OF this] and r1 = reads_bytes [OF reads_advance [OF this]]
    show "settles (\<lambda>f. parse_block f s) (Blob bs, advance (length (enc_block (Blob bs))) s)"
      using d r1 1 by (intro settles_Suc [of "\<lambda>f. parse_block f s"]) (simp add: ucast_of_nat_32 len_value)
  qed
next
  case (2 bs)
  then show ?case by (simp add: udata_back)
next
  case (3 t ats ns)
  show ?case unfolding reads_back_def
  proof (intro allI impI)
    fix s rest
    let ?h = "header_bytes (of_nat (length t - 1)) NDN_TAG"
    let ?b = "concat (map enc_block ats) @ concat (map enc_block ns) @ NDN_CLOSE # rest"
    assume "reads s (enc_block (Tag t ats ns) @ rest)"
    then have r: "reads s (?h @ t @ ?b)" by simp
    note d = dispatch_header [OF r] and r1 = reads_bytes [OF reads_advance [OF r]]
    have "reads (advance (length ?h + length t) s) ?b" using reads_advance [of s "?h @ t" ?b] r by simp
    then have b: "settles (\<lambda>f. parse_body f (advance (length ?h + length t) s)) (ats, ns,
        advance (length (concat (map enc_block ats)) + length (concat (map enc_block ns)) + 1) (advance (length ?h + length t) s))"
      using 3 by (intro body_back) auto
    show "settles (\<lambda>f. parse_block f s) (Tag t ats ns, advance (length (enc_block (Tag t ats ns))) s)"
    proof -
      have "parse_block (Suc f) s = bindE (parse_body f (advance (length ?h + length t) s))
          (\<lambda>(ats, nested, s). Inr (Tag t ats nested, s))" for f
        using d [of "parse_block f" "parse_body f"] r1 3(3) len_value_plus [of "length t"]
        by (simp add: ucast_of_nat_32)
      then show ?thesis
        by (intro settles_Suc [of "\<lambda>f. parse_block f s"])
          (simp only:, intro settles_bind [OF b], simp add: add.assoc)
    qed
  qed
next
  case (4 dt ats ns)
  show ?case unfolding reads_back_def
  proof (intro allI impI)
    fix s rest
    let ?h = "header_bytes (ucast dt) NDN_DTAG"
    let ?b = "concat (map enc_block ats) @ concat (map enc_block ns) @ NDN_CLOSE # rest"
    assume "reads s (enc_block (Dtag dt ats ns) @ rest)"
    then have r: "reads s (?h @ ?b)" by simp
    note d = dispatch_header [OF r]
    have b: "settles (\<lambda>f. parse_body f (advance (length ?h) s)) (ats, ns,
        advance (length (concat (map enc_block ats)) + length (concat (map enc_block ns)) + 1) (advance (length ?h) s))"
      using 4 reads_advance [OF r] by (intro body_back) auto
    show "settles (\<lambda>f. parse_block f s) (Dtag dt ats ns, advance (length (enc_block (Dtag dt ats ns))) s)"
    proof -
      have "parse_block (Suc f) s = bindE (parse_body f (advance (length ?h) s))
          (\<lambda>(ats, nested, s). Inr (Dtag dt ats nested, s))" for f
        using d [of "parse_block f" "parse_body f"] by simp
      then show ?thesis
        by (intro settles_Suc [of "\<lambda>f. parse_block f s"])
          (simp only:, intro settles_bind [OF b], simp add: add.assoc)
    qed
  qed
next
  case (5 a u)
  show ?case unfolding reads_back_def
  proof (intro allI impI)
    fix s rest
    let ?h = "header_bytes (of_nat (length a - 1)) NDN_ATTR" and ?u = "enc_block (Udata u) @ rest"
    assume "reads s (enc_block (Attr a u) @ rest)"
    then have r: "reads s (?h @ a @ ?u)" by simp
    note d = dispatch_header [OF r] and r1 = reads_bytes [OF reads_advance [OF r]]
    have "reads (advance (length ?h + length a) s) ?u" using reads_advance [of s "?h @ a" ?u] r by simp
    then have b: "settles (\<lambda>f. parse_block f (advance (length ?h + length a) s))
        (Udata u, advance (length (enc_block (Udata u))) (advance (length ?h + length a) s))"
      using 5 by (intro reads_backD [OF udata_back]) auto
    show "settles (\<lambda>f. parse_block f s) (Attr a u, advance (length (enc_block (Attr a u))) s)"
    proof -
      have "parse_block (Suc f) s = bindE (parse_block f (advance (length ?h + length a) s)) (\<lambda>(blk, s).
          case as_udata blk of None \<Rightarrow> Inl NdnbDecodingException | Some u \<Rightarrow> Inr (Attr a u, s))" for f
        using d [of "parse_block f" "parse_body f"] r1 5 len_value_plus [of "length a"]
        by (simp add: ucast_of_nat_32)
      then show ?thesis
        by (intro settles_Suc [of "\<lambda>f. parse_block f s"])
          (simp only:, intro settles_bind [OF b], simp add: add.assoc)
    qed
  qed
next
  case (6 da u)
  show ?case unfolding reads_back_def
  proof (intro allI impI)
    fix s rest
    let ?h = "header_bytes (ucast da) NDN_DATTR" and ?u = "enc_block (Udata u) @ rest"
    assume "reads s (enc_block (Dattr da u) @ rest)"
    then have r: "reads s (?h @ ?u)" by simp
    note d = dispatch_header [OF r]
    have b: "settles (\<lambda>f. parse_block f (advance (length ?h) s))
        (Udata u, advance (length (enc_block (Udata u))) (advance (length ?h) s))"
      using 6 reads_advance [OF r] by (intro reads_backD [OF udata_back]) auto
    show "settles (\<lambda>f. parse_block f s) (Dattr da u, advance (length (enc_block (Dattr da u))) s)"
    proof -
      have "parse_block (Suc f) s = bindE (parse_block f (advance (length ?h) s)) (\<lambda>(blk, s).
          case as_udata blk of None \<Rightarrow> Inl NdnbDecodingException | Some u \<Rightarrow> Inr (Dattr da u, s))" for f
        using d [of "parse_block f" "parse_body f"] unfolding ucast_ucast_32 by simp
      then show ?thesis
        by (intro settles_Suc [of "\<lambda>f. parse_block f s"])
          (simp only:, intro settles_bind [OF b], simp add: add.assoc)
    qed
  qed
next
  case (7 v)
  show ?case unfolding reads_back_def
  proof (intro allI impI)
    fix s rest
    assume "reads s (enc_block (Ext v) @ rest)"
    then have "reads s (header_bytes (ucast v) NDN_EXT @ rest)" by simp
    note d = dispatch_header [OF this]
    show "settles (\<lambda>f. parse_block f s) (Ext v, advance (length (enc_block (Ext v))) s)"
      using d by (intro settles_Suc [of "\<lambda>f. parse_block f s"]) simp
  qed
qed

lemma ParseBlock_total: "ParseBlock s \<noteq> Inl OutOfFuel"
  using parser_fuel [of "parse_fuel s"] by (simp add: ParseBlock_def parse_fuel_def)

lemma ParseBlock_back:
  assumes "wf_block b" and "reads s (enc_block b @ rest)"
  shows "ParseBlock s = Inr (b, advance (length (enc_block b)) s)"
proof -
  obtain f0 where f: "\<forall>f\<ge>f0. parse_block f s = Inr (b, advance (length (enc_block b)) s)"
    using reads_backD [OF block_back [OF assms(1)] assms(2)] by (auto simp: settles_def)
  have "parse_block (max f0 (parse_fuel s)) s = parse_block (parse_fuel s) s"
    using ParseBlock_total [of s] by (intro parse_block_more_fuel) (simp_all add: ParseBlock_def)
  then show ?thesis using f by (simp add: ParseBlock_def)
qed

text \<open>Property C28.  The parser always returns: on every stream, however malformed, the fuel it
  is given is enough, and any larger amount gives the same result.\<close>

theorem parser_terminates:
  "ParseBlock s \<noteq> Inl OutOfFuel \<and> (\<forall>k. parse_block (parse_fuel s + k) s = ParseBlock s)"
proof (intro conjI allI)
  show "ParseBlock s \<noteq> Inl OutOfFuel" by (rule ParseBlock_total)
  show "parse_block (parse_fuel s + k) s = ParseBlock s" for k
    unfolding ParseBlock_def
    by (rule parse_block_more_fuel [OF ParseBlock_total [unfolded ParseBlock_def] le_add1])
qed

text \<open>Property C6.  The encoding of every well-formed syntax tree parses back to that tree, and
  the stream is left exactly behind it, whatever follows.\<close>

theorem parse_encode:
  assumes "wf_block b"
  shows "ParseBlock (open_stream (enc_block b @ rest)) =
    Inr (b, advance (length (enc_block b)) (open_stream (enc_block b @ rest)))"
  by (rule ParseBlock_back [OF assms reads_open])

theorem parse_encode_witness:
  "ParseBlock (open_stream (enc_block (Dtag 14 [] [Dtag 15 [] [Blob [1, 2]], Udata [0x30]]) @ [9])) =
    Inr (Dtag 14 [] [Dtag 15 [] [Blob [1, 2]], Udata [0x30]],
      advance (length (enc_block (Dtag 14 [] [Dtag 15 [] [Blob [1, 2]], Udata [0x30]])))
        (open_stream (enc_block (Dtag 14 [] [Dtag 15 [] [Blob [1, 2]], Udata [0x30]]) @ [9])))"
  by (rule parse_encode) simp

text \<open>
  A blob that is cut by exactly one byte at the top level is accepted, with the value 0xFF of the
  failed read in place of the missing byte.
\<close>

lemma truncated_blob_accepted:
  "\<exists>s. ParseBlock (open_stream [0x95, 1]) = Inr (Blob [1, 0xFF], s)"
proof -
  let ?s = "open_stream [0x95, 1]"
  have h: "header_bytes 2 NDN_BLOB = [0x95]"
    by (simp add: header_bytes_def header_loop.simps NDN_TT_HBIT_def NDN_CLOSE_def NDN_MAX_TINY_def NDN_TT_MASK_def)
  then have r: "reads ?s (header_bytes 2 NDN_BLOB @ [1])" using reads_open [of "[0x95, 1]"] by simp
  have "read_bytes 2 (advance (Suc 0) ?s) =
      Inr ([1, 0xFF], (advance 2 ?s)\<lparr> eofbit := True, failbit := True \<rparr>)"
    by (simp add: read_bytes_def IsEnd_def ReadU8_def advance_def open_stream_def numeral_2_eq_2)
  then show ?thesis
    using dispatch_header [OF r] h by (simp add: ParseBlock_def parse_fuel_def numeral_3_eq_3)
qed

end
