(* ===== verification/Der_Codec.thy ===== *)
theory Der_Codec
  imports Ndnb_Parser
begin

unbundle bit_operations_syntax

text \<open>
  \<open>ndn.cxx/helpers/der\<close> and \<open>ndn.cxx/helpers/oid\<close>: the tree of DER nodes, its encoder and
  decoder.  A node keeps its encoded header; a sequence also caches its size and a flag that
  says that the cache is out of date.  The pointers to parents are the position in the tree.
  Sizes are \<open>int\<close>s; trees of 2 GiB and more are outside the model.
\<close>

section \<open>Nodes and headers\<close>

definition DER_BOOLEAN :: byte where "DER_BOOLEAN = 1"
definition DER_INTEGER :: byte where "DER_INTEGER = 2"
definition DER_BIT_STRING :: byte where "DER_BIT_STRING = 3"
definition DER_OCTET_STRING :: byte where "DER_OCTET_STRING = 4"
definition DER_NULL :: byte where "DER_NULL = 5"
definition DER_OBJECT_IDENTIFIER :: byte where "DER_OBJECT_IDENTIFIER = 6"
definition DER_SEQUENCE :: byte where "DER_SEQUENCE = 48"
definition DER_PRINTABLE_STRING :: byte where "DER_PRINTABLE_STRING = 19"
definition DER_GENERALIZED_TIME :: byte where "DER_GENERALIZED_TIME = 24"

lemmas der_types = DER_BOOLEAN_def DER_INTEGER_def DER_BIT_STRING_def DER_OCTET_STRING_def DER_NULL_def
  DER_OBJECT_IDENTIFIER_def DER_SEQUENCE_def DER_PRINTABLE_STRING_def DER_GENERALIZED_TIME_def

datatype der_node =
    DerLeaf byte blob blob
  | DerSeq blob bool int "der_node list"

text \<open>\<open>DerNode::encodeHeader\<close>; the loop fills a buffer from its end.\<close>

fun size_loop :: "nat \<Rightarrow> blob \<Rightarrow> blob" where
  "size_loop val buf = (if val \<noteq> 0 then size_loop (val div 256) (of_nat (val mod 256) # buf) else buf)"

declare size_loop.simps [simp del]

definition encodeHeader :: "byte \<Rightarrow> int \<Rightarrow> blob result" where
  "encodeHeader t sz =
     (if sz \<ge> 127 then
        let buf = size_loop (nat sz) [] in Inr (t # (push_bit 7 1 OR of_nat (length buf)) # buf)
      else if sz \<ge> 0 then Inr [t, of_int sz]
      else Inl NegativeLengthException)"

text \<open>\<open>DerNode::decodeHeader\<close>; the size is an \<open>int\<close>, here as a 32-bit word.\<close>

fun length_loop :: "nat \<Rightarrow> uint32 \<Rightarrow> blob \<Rightarrow> istream \<Rightarrow> uint32 \<times> blob \<times> istream" where
  "length_loop lenCount sz header s =
     (let (b, s) = ReadU8 s;
          header = header @ [b];
          sz = sz * 256 + ucast b
      in if lenCount - 1 > 0 then length_loop (lenCount - 1) sz header s else (sz, header, s))"

declare length_loop.simps [simp del]

definition decodeHeader :: "istream \<Rightarrow> byte \<times> blob \<times> int \<times> istream" where
  "decodeHeader s =
     (let (t, s) = ReadU8 s;
          (sizeLen, s) = ReadU8 s
      in if sizeLen AND push_bit 7 1 = 0 then (t, [t, sizeLen], uint sizeLen, s)
         else case length_loop (unat (sizeLen AND 127)) 0 [t, sizeLen] s of
                (sz, header, s) \<Rightarrow> (t, header, sint sz, s))"

text \<open>
  \<open>DerNode::decode\<close>.  \<open>istream::read\<close> into a local array: where the stream is too short the
  rest of the array is never written.
\<close>

definition read_exact :: "nat \<Rightarrow> istream \<Rightarrow> (blob \<times> istream) result" where
  "read_exact n s =
     (if eofbit s \<or> failbit s \<or> length (buffer s) < position s + n then Inl UndefinedBehaviour
      else Inr (take n (drop (position s) (buffer s)), s\<lparr> position := position s + n \<rparr>))"

definition der_decode :: "istream \<Rightarrow> (der_node \<times> istream) result" where
  "der_decode s =
     (case decodeHeader s of
        (t, header, payloadSize, s) \<Rightarrow>
          if payloadSize > 0
          then bindE (read_exact (nat payloadSize) s) (\<lambda>(buf, s). Inr (DerLeaf t header buf, s))
          else Inr (DerLeaf t header [], s))"

definition PeekU8 :: "istream \<Rightarrow> byte \<times> istream" where
  "PeekU8 s =
     (if eofbit s \<or> failbit s then (0xFF, s\<lparr> failbit := True \<rparr>)
      else if position s < length (buffer s) then (buffer s ! position s, s)
      else (0xFF, s\<lparr> eofbit := True \<rparr>))"

section \<open>Sizes\<close>

text \<open>
  \<open>getSize\<close> and \<open>updateSize\<close>: they refresh the cached sizes and headers, so they return the
  changed node as well.
\<close>

fun getSize :: "der_node \<Rightarrow> (int \<times> der_node) result"
  and sum_sizes :: "der_node list \<Rightarrow> (int \<times> der_node list) result"
where
  "getSize (DerLeaf t h p) = Inr (int (length h) + int (length p), DerLeaf t h p)"
| "getSize (DerSeq h changed sz ns) =
     bindE (if changed then bindE (sum_sizes ns) (\<lambda>(sz, ns). Inr (sz, ns)) else Inr (sz, ns)) (\<lambda>(sz, ns).
       bindE (encodeHeader DER_SEQUENCE sz) (\<lambda>h.
         Inr (sz + int (length h), DerSeq h False sz ns)))"
| "sum_sizes [] = Inr (0, [])"
| "sum_sizes (n # ns) =
     bindE (getSize n) (\<lambda>(k, n). bindE (sum_sizes ns) (\<lambda>(sz, ns). Inr (k + sz, n # ns)))"

text \<open>
  \<open>addChild\<close> at a position of the tree.  With \<open>notifyParent\<close>, its default, the flags of the node and its
  parents are set; the notification stops at a node whose flag was already set.  The second result says whether
  the parent is notified.
\<close>

fun addChild :: "nat list \<Rightarrow> der_node \<Rightarrow> bool \<Rightarrow> der_node \<Rightarrow> der_node \<times> bool" where
  "addChild pos c notifyParent (DerLeaf t h p) = (DerLeaf t h p, False)"
| "addChild [] c notifyParent (DerSeq h changed sz ns) =
     (if \<not> notifyParent then (DerSeq h changed sz (ns @ [c]), False)
      else (DerSeq h True sz (ns @ [c]), \<not> changed))"
| "addChild (i # pos) c notifyParent (DerSeq h changed sz ns) =
     (if i < length ns then
        case addChild pos c notifyParent (ns ! i) of
          (n, notify) \<Rightarrow> (DerSeq h (changed \<or> notify) sz (ns[i := n]), notify \<and> \<not> changed)
      else (DerSeq h changed sz ns, False))"

definition new_sequence :: der_node where
  "new_sequence = DerSeq [] False 0 []"

definition add_child :: "der_node \<Rightarrow> der_node \<Rightarrow> der_node" where
  "add_child n c = fst (addChild [] c True n)"

section \<open>Encoding\<close>

fun nodes :: "der_node \<Rightarrow> nat" where
  "nodes (DerLeaf t h p) = 1"
| "nodes (DerSeq h changed sz ns) = 1 + sum_list (map nodes ns)"

lemma nodes_pos: "0 < nodes n"
  by (cases n) simp_all

lemma sizes_keep_nodes:
  "getSize n = Inr (k, n') \<Longrightarrow> nodes n' = nodes n"
  "sum_sizes ns = Inr (k, ns') \<Longrightarrow> map nodes ns' = map nodes ns"
proof (induction n and ns arbitrary: k n' and k ns' rule: getSize_sum_sizes.induct)
  case (2 h changed sz ns)
  then show ?case by (cases changed) (auto simp: bindE_Inr_iff)
qed (auto simp: bindE_Inr_iff)

text \<open>\<open>encode\<close>; a sequence refreshes the sizes below it first.\<close>

function (sequential) der_encode :: "der_node \<Rightarrow> (blob \<times> der_node) result"
  and encode_children :: "der_node list \<Rightarrow> (blob \<times> der_node list) result"
where
  "der_encode (DerLeaf t h p) = Inr (h @ p, DerLeaf t h p)"
| "der_encode (DerSeq h changed sz ns) =
     bindE (sum_sizes ns) (\<lambda>(sz, ns).
       bindE (encodeHeader DER_SEQUENCE sz) (\<lambda>h.
         bindE (encode_children ns) (\<lambda>(bs, ns). Inr (h @ bs, DerSeq h False sz ns))))"
| "encode_children [] = Inr ([], [])"
| "encode_children (n # ns) =
     bindE (der_encode n) (\<lambda>(bs, n). bindE (encode_children ns) (\<lambda>(cs, ns). Inr (bs @ cs, n # ns)))"
  by pat_completeness auto
termination
  by (relation "measure (case_sum (\<lambda>n. 2 * nodes n) (\<lambda>ns. 2 * sum_list (map nodes ns) + 1))")
    (auto dest: sizes_keep_nodes simp: nodes_pos)

text \<open>\<open>getRaw\<close>: the headers as they are.\<close>

fun getRaw :: "der_node \<Rightarrow> blob" where
  "getRaw (DerLeaf t h p) = h @ p"
| "getRaw (DerSeq h changed sz ns) = h @ concat (map getRaw ns)"

section \<open>Parsing\<close>

text \<open>
  \<open>DerNode::parse\<close> and the constructor of a sequence, which adds the sizes of the children it
  has parsed.  The fuel is bounded by the remaining input; \<open>der_parse\<close> gives enough.
\<close>

definition leaf_type :: "byte \<Rightarrow> bool" where
  "leaf_type t \<longleftrightarrow> t \<in> {DER_BOOLEAN, DER_INTEGER, DER_BIT_STRING, DER_OCTET_STRING, DER_NULL, DER_OBJECT_IDENTIFIER,
     DER_PRINTABLE_STRING, DER_GENERALIZED_TIME}"

fun parse_node :: "nat \<Rightarrow> istream \<Rightarrow> (der_node \<times> istream) result"
  and sequence_loop :: "nat \<Rightarrow> int \<Rightarrow> int \<Rightarrow> der_node list \<Rightarrow> istream \<Rightarrow> (der_node list \<times> istream) result"
where
  "parse_node 0 s = Inl OutOfFuel"
| "parse_node (Suc fuel) s =
     (case PeekU8 s of
        (t, s) \<Rightarrow>
          if leaf_type t then der_decode s
          else if t = DER_SEQUENCE then
            case decodeHeader s of
              (t, header, sz, s) \<Rightarrow> bindE (sequence_loop fuel sz 0 [] s) (\<lambda>(ns, s). Inr (DerSeq header False sz ns, s))
          else Inl DerDecodingException)"
| "sequence_loop 0 sz accSize ns s = Inl OutOfFuel"
| "sequence_loop (Suc fuel) sz accSize ns s =
     (if accSize < sz then
        bindE (parse_node fuel s) (\<lambda>(n, s). bindE (getSize n) (\<lambda>(k, n).
          sequence_loop fuel sz (accSize + k) (ns @ [n]) s))
      else Inr (ns, s))"

definition der_parse :: "istream \<Rightarrow> (der_node \<times> istream) result" where
  "der_parse s = parse_node (2 * remaining s + 1) s"

section \<open>Node constructors\<close>

definition der_leaf :: "byte \<Rightarrow> blob \<Rightarrow> der_node result" where
  "der_leaf t payload = bindE (encodeHeader t (int (length payload))) (\<lambda>h. Inr (DerLeaf t h payload))"

definition der_bool :: "bool \<Rightarrow> der_node result" where
  "der_bool value = der_leaf DER_BOOLEAN [if value then 0xFF else 0x00]"

definition der_integer :: "blob \<Rightarrow> der_node result" where
  "der_integer b = der_leaf DER_INTEGER b"

definition der_bit_string :: "blob \<Rightarrow> byte \<Rightarrow> der_node result" where
  "der_bit_string b paddingLen = der_leaf DER_BIT_STRING (paddingLen # b)"

definition der_octet_string :: "blob \<Rightarrow> der_node result" where
  "der_octet_string b = der_leaf DER_OCTET_STRING b"

definition der_null :: "der_node result" where
  "der_null = der_leaf DER_NULL []"

definition der_printable_string :: "string \<Rightarrow> der_node result" where
  "der_printable_string str = der_leaf DER_PRINTABLE_STRING (string_bytes str)"

text \<open>
  \<open>DerGtime\<close>: \<open>to_iso\<close> is \<open>boost::posix_time::to_iso_string\<close>; the \<open>T\<close> between date and time
  is cut out.  Without a \<open>T\<close> the index is -1 and both substrings are the whole string.
\<close>

definition der_gtime :: "('t \<Rightarrow> string) \<Rightarrow> 't \<Rightarrow> der_node result" where
  "der_gtime to_iso time =
     (let pTimeStr = to_iso time;
          index = length (takeWhile (\<lambda>c. c \<noteq> CHR ''T'') pTimeStr)
      in der_leaf DER_GENERALIZED_TIME (string_bytes
           (if index < length pTimeStr then take index pTimeStr @ drop (index + 1) pTimeStr @ ''Z''
            else pTimeStr @ pTimeStr @ ''Z'')))"

section \<open>The encoding of a tree\<close>

text \<open>The trees behind the nodes, without headers and caches.\<close>

datatype der_tree = Leaf byte blob | Seq "der_tree list"

fun erase :: "der_node \<Rightarrow> der_tree" where
  "erase (DerLeaf t h p) = Leaf t p"
| "erase (DerSeq h changed sz ns) = Seq (map erase ns)"

definition header_of :: "byte \<Rightarrow> nat \<Rightarrow> blob" where
  "header_of t n = (if 127 \<le> n then t # (push_bit 7 1 OR of_nat (length (size_loop n []))) # size_loop n [] else [t, of_nat n])"

fun tree_bytes :: "der_tree \<Rightarrow> blob" where
  "tree_bytes (Leaf t p) = header_of t (length p) @ p"
| "tree_bytes (Seq ts) = header_of DER_SEQUENCE (length (concat (map tree_bytes ts))) @ concat (map tree_bytes ts)"

lemma encodeHeader_of: "encodeHeader t (int n) = Inr (header_of t n)"
  by (auto simp: encodeHeader_def header_of_def Let_def)

text \<open>Nodes whose leaves have the header of their payload, as every constructor makes them.\<close>

fun node_ok :: "der_node \<Rightarrow> bool" where
  "node_ok (DerLeaf t h p) \<longleftrightarrow> h = header_of t (length p)"
| "node_ok (DerSeq h changed sz ns) \<longleftrightarrow> (\<forall>n\<in>set ns. node_ok n)"

definition kids :: "der_node list \<Rightarrow> blob" where
  "kids ns = concat (map tree_bytes (map erase ns))"

lemma kids_simps [simp]:
  "kids [] = []" "kids (n # ns) = tree_bytes (erase n) @ kids ns" "kids (ns @ ms) = kids ns @ kids ms"
  by (simp_all add: kids_def)

lemma kids_cong: "map erase ns' = map erase ns \<Longrightarrow> kids ns' = kids ns"
  by (simp only: kids_def)

lemma seq_bytes: "tree_bytes (erase (DerSeq h changed sz ns)) = header_of DER_SEQUENCE (length (kids ns)) @ kids ns"
  by (simp only: erase.simps tree_bytes.simps kids_def)

declare tree_bytes.simps(2) [simp del]

text \<open>The cache invariant: where the flag is not set, the cached size is right and nothing below
  is out of date.\<close>

fun flagged :: "der_node \<Rightarrow> bool" where
  "flagged (DerLeaf t h p) = False"
| "flagged (DerSeq h changed sz ns) = changed"

fun cache_ok :: "der_node \<Rightarrow> bool" where
  "cache_ok (DerLeaf t h p) \<longleftrightarrow> True"
| "cache_ok (DerSeq h changed sz ns) \<longleftrightarrow>
     (\<forall>n\<in>set ns. cache_ok n) \<and>
     (\<not> changed \<longrightarrow> (\<forall>n\<in>set ns. \<not> flagged n) \<and> sz = int (length (kids ns)))"

lemma sizes_spec:
  "node_ok n \<Longrightarrow> cache_ok n \<Longrightarrow> \<exists>n'. getSize n = Inr (int (length (tree_bytes (erase n))), n') \<and>
     node_ok n' \<and> cache_ok n' \<and> \<not> flagged n' \<and> erase n' = erase n"
  "\<forall>n\<in>set ns. node_ok n \<and> cache_ok n \<Longrightarrow>
     \<exists>ns'. sum_sizes ns = Inr (int (length (kids ns)), ns') \<and>
     (\<forall>n\<in>set ns'. node_ok n \<and> cache_ok n \<and> \<not> flagged n) \<and> map erase ns' = map erase ns"
proof (induction n and ns rule: getSize_sum_sizes.induct)
  case (2 h changed sz ns)
  show ?case
  proof (cases changed)
    case True
    then obtain ns' where ns': "sum_sizes ns = Inr (int (length (kids ns)), ns')"
        "\<forall>n\<in>set ns'. node_ok n \<and> cache_ok n \<and> \<not> flagged n" "map erase ns' = map erase ns"
      using 2 by auto
    then show ?thesis
      using True kids_cong [OF ns'(3)] unfolding seq_bytes by (simp add: encodeHeader_of)
  next
    case False
    then show ?thesis using 2(2,3) unfolding seq_bytes by (simp add: encodeHeader_of)
  qed
next
  case (4 n ns)
  then obtain n' ns' where "getSize n = Inr (int (length (tree_bytes (erase n))), n')"
      "node_ok n' \<and> cache_ok n' \<and> \<not> flagged n' \<and> erase n' = erase n"
      "sum_sizes ns = Inr (int (length (kids ns)), ns')"
      "(\<forall>n\<in>set ns'. node_ok n \<and> cache_ok n \<and> \<not> flagged n) \<and> map erase ns' = map erase ns"
    by fastforce
  then show ?case by simp
qed auto

lemma encode_spec:
  "node_ok n \<Longrightarrow> cache_ok n \<Longrightarrow> \<exists>n'. der_encode n = Inr (tree_bytes (erase n), n') \<and> erase n' = erase n \<and>
     getRaw n' = tree_bytes (erase n)"
  "\<forall>n\<in>set ns. node_ok n \<and> cache_ok n \<Longrightarrow>
     \<exists>ns'. encode_children ns = Inr (kids ns, ns') \<and> map erase ns' = map erase ns \<and> concat (map getRaw ns') = kids ns"
proof (induction n and ns rule: der_encode_encode_children.induct)
  case (2 h changed sz ns)
  then have "\<forall>n\<in>set ns. node_ok n \<and> cache_ok n" by auto
  from sizes_spec(2) [OF this] obtain ns1 where ns1:
      "sum_sizes ns = Inr (int (length (kids ns)), ns1)"
      "\<forall>n\<in>set ns1. node_ok n \<and> cache_ok n \<and> \<not> flagged n" "map erase ns1 = map erase ns" by auto
  have "\<forall>n\<in>set ns1. node_ok n \<and> cache_ok n" using ns1(2) by auto
  from 2(1) [OF ns1(1) refl encodeHeader_of this] obtain ns2 where ns2:
      "encode_children ns1 = Inr (kids ns1, ns2)" "map erase ns2 = map erase ns1" "concat (map getRaw ns2) = kids ns1" by auto
  show ?case using ns1 ns2 kids_cong [OF ns1(3)] unfolding seq_bytes by (simp add: encodeHeader_of)
next
  case (4 n ns)
  then obtain n' where n': "der_encode n = Inr (tree_bytes (erase n), n')" "erase n' = erase n"
      "getRaw n' = tree_bytes (erase n)" by auto
  obtain ns' where "encode_children ns = Inr (kids ns, ns')" "map erase ns' = map erase ns" "concat (map getRaw ns') = kids ns"
    using 4(2) [OF n'(1) refl] 4(3) by auto
  then show ?case using n' by simp
qed auto

section \<open>The size cache\<close>

lemma addChild_ok:
  "node_ok n \<Longrightarrow> node_ok c \<Longrightarrow> node_ok (fst (addChild pos c notify n))"
proof (induction pos c notify n rule: addChild.induct)
  case (3 i pos c notify h changed sz ns)
  then show ?case by (auto simp: case_prod_beta dest: set_update_subset_insert [THEN subsetD])
qed auto

text \<open>A node changes only where its parent is notified or was flagged already.\<close>

lemma addChild_cache:
  "cache_ok n \<Longrightarrow> cache_ok c \<Longrightarrow>
    cache_ok (fst (addChild pos c True n)) \<and>
    (\<not> snd (addChild pos c True n) \<longrightarrow> fst (addChild pos c True n) = n \<or> flagged n \<and> flagged (fst (addChild pos c True n))) \<and>
    (snd (addChild pos c True n) \<longrightarrow> \<not> flagged n)"
proof (induction pos c True n rule: addChild.induct)
  case (3 i pos c h changed sz ns)
  show ?case
  proof (cases "i < length ns")
    case True
    let ?n = "fst (addChild pos c True (ns ! i))" and ?b = "snd (addChild pos c True (ns ! i))"
    have i: "ns ! i \<in> set ns" using True by simp
    have IH: "cache_ok ?n" "\<not> ?b \<longrightarrow> ?n = ns ! i \<or> flagged (ns ! i) \<and> flagged ?n" "?b \<longrightarrow> \<not> flagged (ns ! i)"
      using 3 True i by auto
    have "\<not> changed \<and> \<not> ?b \<Longrightarrow> ns[i := ?n] = ns" using IH(2) 3(2) i True by (auto simp: list_update_same_conv)
    moreover have "\<forall>m\<in>set (ns[i := ?n]). cache_ok m"
      using IH(1) 3(2) set_update_subset_insert [of ns i ?n] by auto
    ultimately show ?thesis
      using True 3(2) by (auto simp: case_prod_beta)
  qed (use 3 in auto)
qed auto

text \<open>The nodes that a program can build: leaves from the constructors, empty sequences, and
  children added anywhere, with sizes read in between.\<close>

section \<open>The decoder reads what the encoder writes\<close>

lemma length_loop_reads:
  assumes "bs \<noteq> []" and "reads s (bs @ rest)"
  shows "length_loop (length bs) v h s =
    (foldl (\<lambda>v b. v * 256 + ucast b) v bs, h @ bs, advance (length bs) s)"
  using assms
proof (induction bs arbitrary: v h s)
  case (Cons b bs)
  have r: "ReadU8 s = (b, advance 1 s)" using Cons.prems(2) by (intro reads_ReadU8) simp
  show ?case
  proof (cases "bs = []")
    case True
    then show ?thesis using r by (subst length_loop.simps) simp
  next
    case False
    then have "0 < length (b # bs) - 1" by simp
    moreover have "reads (advance 1 s) (bs @ rest)" using Cons.prems(2) reads_advance [of s "[b]"] by simp
    ultimately show ?thesis
      using r Cons.IH [OF False] by (subst length_loop.simps) simp
  qed
qed simp

lemma size_loop_step:
  "v \<noteq> 0 \<Longrightarrow> size_loop v buf = size_loop (v div 256) (of_nat (v mod 256) # buf)"
  by (subst size_loop.simps) simp

lemma size_loop_append: "size_loop v buf = size_loop v [] @ buf"
proof (induction v arbitrary: buf rule: less_induct)
  case (less v)
  show ?case
  proof (cases "v = 0")
    case False
    then have IH: "size_loop (v div 256) b = size_loop (v div 256) [] @ b" for b
      by (intro less) simp
    show ?thesis unfolding size_loop_step [OF False] by (subst (1 2) IH) simp
  qed (simp add: size_loop.simps)
qed

text \<open>The bytes of a size, most significant first.\<close>

lemma size_loop_snoc: "v \<noteq> 0 \<Longrightarrow> size_loop v [] = size_loop (v div 256) [] @ [of_nat (v mod 256)]"
  by (subst size_loop_step, simp, subst size_loop_append, rule refl)

lemma size_loop_length: "v < 256 ^ k \<Longrightarrow> length (size_loop v []) \<le> k"
proof (induction k arbitrary: v)
  case 0
  then show ?case by (simp add: size_loop.simps)
next
  case (Suc k)
  then show ?case
  proof (cases "v = 0")
    case False
    then show ?thesis using Suc.IH [of "v div 256"] Suc.prems
      by (simp add: size_loop_snoc less_mult_imp_div_less mult.commute)
  qed (simp add: size_loop.simps)
qed

lemma size_loop_value: "foldl (\<lambda>v b. v * 256 + ucast b) 0 (size_loop v []) = (of_nat v :: uint32)"
proof (induction v rule: less_induct)
  case (less v)
  show ?case
  proof (cases "v = 0")
    case False
    have "(ucast (of_nat (v mod 256) :: byte) :: uint32) = of_nat (v mod 256)"
      by (rule word_unat_eq_iff [THEN iffD2]) (simp add: unsigned_ucast_eq unsigned_of_nat take_bit_nat_eq_self take_bit_nat_def)
    moreover have "(of_nat v :: uint32) = of_nat (v div 256) * 256 + of_nat (v mod 256)"
      by (metis div_mult_mod_eq of_nat_add of_nat_mult of_nat_numeral)
    ultimately show ?thesis using False less [of "v div 256"] by (simp add: size_loop_snoc)
  qed (simp add: size_loop.simps)
qed

lemma long_form:
  assumes "k \<le> 4"
  shows "(push_bit 7 1 OR of_nat k :: byte) AND push_bit 7 1 \<noteq> 0"
    and "unat ((push_bit 7 1 OR of_nat k :: byte) AND 127) = k"
proof -
  have "k = 0 \<or> k = 1 \<or> k = 2 \<or> k = 3 \<or> k = 4" using assms by arith
  then show "(push_bit 7 1 OR of_nat k :: byte) AND push_bit 7 1 \<noteq> 0"
    and "unat ((push_bit 7 1 OR of_nat k :: byte) AND 127) = k" by auto
qed

lemma short_form: "n < 127 \<Longrightarrow> (of_nat n :: byte) AND 128 = 0"
proof -
  assume "n < 127"
  then have "\<not> bit (unat (of_nat n :: byte)) 7"
    by (simp add: unsigned_of_nat take_bit_nat_eq_self bit_iff_odd)
  then have "\<not> bit (of_nat n :: byte) 7" by (simp add: bit_unsigned_iff)
  then show ?thesis using and_exp_eq_0_iff_not_bit [of "of_nat n :: byte" 7] by (simp add: push_bit_eq_mult)
qed

lemma sint_size: "n < 2 ^ 31 \<Longrightarrow> sint (of_nat n :: uint32) = int n"
  by (simp add: sint_uint unsigned_of_nat signed_take_bit_int_eq_self take_bit_nat_eq_self)

lemma reads_two:
  assumes "reads s (a # b # rest)"
  shows "ReadU8 s = (a, advance 1 s)" and "ReadU8 (advance 1 s) = (b, advance 2 s)"
proof -
  show "ReadU8 s = (a, advance 1 s)" using assms by (rule reads_ReadU8)
  have "reads (advance 1 s) (b # rest)" using reads_advance [of s "[a]"] assms by simp
  from reads_ReadU8 [OF this] show "ReadU8 (advance 1 s) = (b, advance 2 s)" by (simp add: numeral_2_eq_2)
qed

lemma decodeHeader_reads:
  assumes "n < 2 ^ 31" and r: "reads s (header_of t n @ rest)"
  shows "decodeHeader s = (t, header_of t n, int n, advance (length (header_of t n)) s)"
proof (cases "127 \<le> n")
  case True
  let ?bs = "size_loop n []" and ?b = "push_bit 7 1 OR of_nat (length (size_loop n [])) :: byte"
  have h: "header_of t n = t # ?b # ?bs" using True by (simp add: header_of_def)
  have "length ?bs \<le> 4" using assms(1) by (intro size_loop_length) simp
  note k = long_form [OF this]
  have ne: "?bs \<noteq> []" using True by (simp add: size_loop_snoc)
  have "reads s (t # ?b # ?bs @ rest)" using r h by simp
  note reads_two [OF this]
  moreover have "length_loop (length ?bs) 0 [t, ?b] (advance 2 s) = (of_nat n, [t, ?b] @ ?bs, advance (2 + length ?bs) s)"
    using length_loop_reads [OF ne, of "advance 2 s" rest] reads_advance [of s "[t, ?b]"] r h
    by (simp add: size_loop_value numeral_2_eq_2)
  ultimately show ?thesis using k h assms(1) by (simp add: decodeHeader_def sint_size)
next
  case False
  then have h: "header_of t n = [t, of_nat n]" by (simp add: header_of_def)
  then have "reads s (t # of_nat n # rest)" using r by simp
  from reads_two [OF this] show ?thesis
    using False h by (simp add: decodeHeader_def short_form numeral_2_eq_2 unsigned_of_nat take_bit_nat_eq_self)
qed

lemma reads_PeekU8: "reads s (x # xs) \<Longrightarrow> PeekU8 s = (x, s)"
  by (auto simp: reads_def PeekU8_def nth_via_drop dest: drop_eq_Nil2 [THEN iffD2])

lemma reads_exact: "reads s (xs @ ys) \<Longrightarrow> read_exact (length xs) s = Inr (xs, advance (length xs) s)"
proof -
  assume r: "reads s (xs @ ys)"
  then have "length (buffer s) - position s = length xs + length ys"
    by (metis reads_def length_append length_drop)
  then show ?thesis using r by (auto simp: reads_def read_exact_def advance_def)
qed

text \<open>The nodes that the decoder builds.\<close>

fun canonical :: "der_tree \<Rightarrow> der_node" where
  "canonical (Leaf t p) = DerLeaf t (header_of t (length p)) p"
| "canonical (Seq ts) =
     (let n = length (concat (map tree_bytes ts)) in DerSeq (header_of DER_SEQUENCE n) False (int n) (map canonical ts))"

lemma erase_canonical [simp]: "erase (canonical t) = t"
  by (induction t) (auto simp: Let_def intro: map_idI)

lemma canonical_size: "getSize (canonical t) = Inr (int (length (tree_bytes t)), canonical t)"
  by (cases t) (simp_all add: Let_def encodeHeader_of tree_bytes.simps(2))

fun leaf_types :: "der_tree \<Rightarrow> bool" where
  "leaf_types (Leaf t p) \<longleftrightarrow> leaf_type t"
| "leaf_types (Seq ts) \<longleftrightarrow> (\<forall>t\<in>set ts. leaf_types t)"

lemma header_of_split: "\<exists>h. header_of t n = t # h"
  by (simp add: header_of_def)

lemma header_of_length: "2 \<le> length (header_of t n)"
  by (simp add: header_of_def)

lemma tree_bytes_length: "2 \<le> length (tree_bytes t)"
  by (cases t) (use header_of_length in \<open>auto simp: tree_bytes.simps(2) trans_le_add1\<close>)

lemma sequence_not_leaf: "\<not> leaf_type DER_SEQUENCE"
  by (simp add: leaf_type_def der_types)

definition parses :: "der_tree \<Rightarrow> bool" where
  "parses t \<longleftrightarrow> (\<forall>f s rest. reads s (tree_bytes t @ rest) \<longrightarrow> 2 * length (tree_bytes t) < f \<longrightarrow>
     parse_node f s = Inr (canonical t, advance (length (tree_bytes t)) s))"

lemma parses_children:
  assumes "\<forall>t\<in>set ts. parses t" and "reads s (concat (map tree_bytes ts) @ rest)"
    and "2 * length (concat (map tree_bytes ts)) + 1 < f"
    and "sz = acc + int (length (concat (map tree_bytes ts)))"
  shows "sequence_loop f sz acc ns s =
    Inr (ns @ map canonical ts, advance (length (concat (map tree_bytes ts))) s)"
  using assms
proof (induction ts arbitrary: f acc ns s)
  case Nil
  then show ?case by (cases f) simp_all
next
  case (Cons t ts)
  let ?k = "length (tree_bytes t)"
  obtain f' where f: "f = Suc f'" using Cons.prems(3) by (cases f) simp_all
  have r: "reads s (tree_bytes t @ concat (map tree_bytes ts) @ rest)" using Cons.prems(2) by simp
  have "parse_node f' s = Inr (canonical t, advance ?k s)"
  proof -
    have "parses t" and "2 * ?k < f'" using Cons.prems(1,3) f by auto
    then show ?thesis using r unfolding parses_def by blast
  qed
  moreover have "sequence_loop f' sz (acc + int ?k) (ns @ [canonical t]) (advance ?k s) =
      Inr ((ns @ [canonical t]) @ map canonical ts, advance (length (concat (map tree_bytes ts))) (advance ?k s))"
    using Cons.prems f reads_advance [OF r] tree_bytes_length [of t] by (intro Cons.IH) auto
  moreover have "acc < sz" using Cons.prems(4) tree_bytes_length [of t] by simp
  ultimately show ?case using f by (simp add: canonical_size)
qed

lemma tree_parses: "leaf_types t \<Longrightarrow> length (tree_bytes t) < 2 ^ 31 \<Longrightarrow> parses t"
proof (induction t)
  case (Leaf t p)
  show ?case unfolding parses_def
  proof (intro allI impI)
    fix f s rest assume r: "reads s (tree_bytes (Leaf t p) @ rest)" and f: "2 * length (tree_bytes (Leaf t p)) < f"
    let ?h = "header_of t (length p)"
    obtain f' where f': "f = Suc f'" using f by (cases f) simp_all
    have r': "reads s (?h @ p @ rest)" using r by simp
    then have "PeekU8 s = (t, s)" using header_of_split [of t "length p"] by (auto intro: reads_PeekU8)
    moreover have "decodeHeader s = (t, ?h, int (length p), advance (length ?h) s)"
      using Leaf r' by (intro decodeHeader_reads) auto
    moreover have "read_exact (length p) (advance (length ?h) s) = Inr (p, advance (length ?h + length p) s)"
      using reads_exact [OF reads_advance [OF r']] by simp
    ultimately show "parse_node f s = Inr (canonical (Leaf t p), advance (length (tree_bytes (Leaf t p))) s)"
      using f' Leaf by (cases "p = []") (simp_all add: der_decode_def)
  qed
next
  case (Seq ts)
  let ?c = "concat (map tree_bytes ts)"
  let ?h = "header_of DER_SEQUENCE (length ?c)"
  have "\<forall>t\<in>set ts. parses t"
  proof
    fix t assume t: "t \<in> set ts"
    then have "length (tree_bytes t) \<le> length ?c" by (auto dest!: split_list)
    then show "parses t" using Seq t by (auto simp: tree_bytes.simps(2))
  qed
  note kids = parses_children [OF this]
  show ?case unfolding parses_def
  proof (intro allI impI)
    fix f s rest assume r: "reads s (tree_bytes (Seq ts) @ rest)" and f: "2 * length (tree_bytes (Seq ts)) < f"
    obtain f' where f': "f = Suc f'" using f by (cases f) simp_all
    have r': "reads s (?h @ ?c @ rest)" using r by (simp add: tree_bytes.simps(2))
    then have "PeekU8 s = (DER_SEQUENCE, s)"
      using header_of_split [of DER_SEQUENCE "length ?c"] by (auto intro: reads_PeekU8)
    moreover have "decodeHeader s = (DER_SEQUENCE, ?h, int (length ?c), advance (length ?h) s)"
      using Seq.prems r' by (intro decodeHeader_reads) (auto simp: tree_bytes.simps(2))
    moreover have "sequence_loop f' (int (length ?c)) 0 [] (advance (length ?h) s) =
        Inr ([] @ map canonical ts, advance (length ?c) (advance (length ?h) s))"
      using f f' reads_advance [OF r'] header_of_length [of DER_SEQUENCE "length ?c"]
      by (intro kids) (auto simp: tree_bytes.simps(2))
    ultimately show "parse_node f s = Inr (canonical (Seq ts), advance (length (tree_bytes (Seq ts))) s)"
      using f' by (simp add: sequence_not_leaf Let_def tree_bytes.simps(2))
  qed
qed

section \<open>The parser ends\<close>

lemma length_loop_remaining: "remaining (snd (snd (length_loop k v h s))) \<le> remaining s"
proof (induction k arbitrary: v h s)
  case 0
  then show ?case using ReadU8_remaining [of s] by (subst length_loop.simps) (simp add: case_prod_beta)
next
  case (Suc k)
  have "remaining (snd (snd (length_loop k v' h' (snd (ReadU8 s))))) \<le> remaining s" for v' h'
    using Suc [of v' h' "snd (ReadU8 s)"] ReadU8_remaining [of s] by linarith
  then show ?case using ReadU8_remaining [of s] by (subst length_loop.simps) (simp add: case_prod_beta Let_def)
qed

lemma decodeHeader_remaining: "remaining (snd (snd (snd (decodeHeader s)))) \<le> remaining (snd (ReadU8 s))"
proof -
  let ?s = "snd (ReadU8 (snd (ReadU8 s)))"
  have a: "remaining ?s \<le> remaining (snd (ReadU8 s))" by (rule ReadU8_remaining)
  have "remaining (snd (snd (length_loop k v h ?s))) \<le> remaining (snd (ReadU8 s))" for k v h
    using length_loop_remaining [of k v h ?s] a by linarith
  with a show ?thesis by (simp add: decodeHeader_def case_prod_beta Let_def)
qed

lemma peek_consumes:
  assumes "PeekU8 s = (b, s1)" and "b \<noteq> 0xFF"
  shows "remaining (snd (ReadU8 s1)) < remaining s"
  using assms by (auto simp: PeekU8_def ReadU8_def remaining_def split: if_splits)

lemma decoded_header_consumes:
  assumes "PeekU8 s = (b, s1)" and "b \<noteq> 0xFF" and "decodeHeader s1 = (t, h, sz, s2)"
  shows "remaining s2 < remaining s"
  using peek_consumes [OF assms(1,2)] decodeHeader_remaining [of s1] assms(3) by simp

lemma der_decode_consumes:
  assumes "PeekU8 s = (b, s1)" and "b \<noteq> 0xFF"
  shows "der_decode s1 \<noteq> Inl OutOfFuel" and "der_decode s1 = Inr (n, s2) \<Longrightarrow> remaining s2 < remaining s"
proof -
  obtain t h sz s3 where d: "decodeHeader s1 = (t, h, sz, s3)" by (cases "decodeHeader s1") auto
  note less = decoded_header_consumes [OF assms d]
  show "der_decode s1 \<noteq> Inl OutOfFuel" using d by (auto simp: der_decode_def read_exact_def)
  show "remaining s2 < remaining s" if "der_decode s1 = Inr (n, s2)"
    using that d less by (auto simp: der_decode_def read_exact_def remaining_def bindE_Inr_iff split: if_splits)
qed

lemma sizes_not_fuel:
  "getSize n \<noteq> Inl OutOfFuel" "sum_sizes ns \<noteq> Inl OutOfFuel"
proof (induction n and ns rule: getSize_sum_sizes.induct)
  case (2 h changed sz ns)
  then show ?case by (cases changed; cases "sum_sizes ns") (auto simp: encodeHeader_def Let_def split: if_splits)
next
  case (4 n ns)
  then show ?case by (cases "getSize n"; cases "sum_sizes ns") auto
qed auto

lemma type_not_FF: "leaf_type b \<or> b = DER_SEQUENCE \<Longrightarrow> b \<noteq> 0xFF"
  by (auto simp: leaf_type_def der_types)

lemma parser_ends:
  "(\<forall>s. 2 * remaining s < f \<longrightarrow> parse_node f s \<noteq> Inl OutOfFuel \<and>
      (\<forall>n s'. parse_node f s = Inr (n, s') \<longrightarrow> remaining s' < remaining s)) \<and>
   (\<forall>sz acc ns s. 2 * remaining s + 1 < f \<longrightarrow> sequence_loop f sz acc ns s \<noteq> Inl OutOfFuel \<and>
      (\<forall>ns' s'. sequence_loop f sz acc ns s = Inr (ns', s') \<longrightarrow> remaining s' \<le> remaining s))"
proof (induction f)
  case (Suc f)
  note node = Suc.IH [THEN conjunct1, rule_format] and loop = Suc.IH [THEN conjunct2, rule_format]
  have "parse_node (Suc f) s \<noteq> Inl OutOfFuel \<and>
      (\<forall>n s'. parse_node (Suc f) s = Inr (n, s') \<longrightarrow> remaining s' < remaining s)" if m: "2 * remaining s < Suc f" for s
  proof -
    obtain b s1 where p: "PeekU8 s = (b, s1)" by (cases "PeekU8 s")
    obtain t h sz s2 where d: "decodeHeader s1 = (t, h, sz, s2)" by (cases "decodeHeader s1") auto
    have r: "remaining s2 < remaining s" if "b = DER_SEQUENCE"
      using decoded_header_consumes [OF p type_not_FF d] that by simp
    have l: "sequence_loop f sz 0 [] s2 \<noteq> Inl OutOfFuel \<and>
        (\<forall>ns' s'. sequence_loop f sz 0 [] s2 = Inr (ns', s') \<longrightarrow> remaining s' \<le> remaining s2)" if "b = DER_SEQUENCE"
      using loop [of s2 sz 0 "[]"] r [OF that] m by auto
    consider (leaf) "leaf_type b" | (seq) "b = DER_SEQUENCE" | (other) "\<not> leaf_type b" "b \<noteq> DER_SEQUENCE" by blast
    then show ?thesis
    proof cases
      case leaf
      then have "parse_node (Suc f) s = der_decode s1" using p by simp
      then show ?thesis using leaf der_decode_consumes [OF p type_not_FF] by auto
    next
      case seq
      then have "parse_node (Suc f) s = bindE (sequence_loop f sz 0 [] s2) (\<lambda>(ns, s). Inr (DerSeq h False sz ns, s))"
        using p d sequence_not_leaf by simp
      then show ?thesis
        using l [OF seq] r [OF seq] by (cases "sequence_loop f sz 0 [] s2") fastforce+
    qed (use p in simp)
  qed
  moreover have "sequence_loop (Suc f) sz acc ns s \<noteq> Inl OutOfFuel \<and>
      (\<forall>ns' s'. sequence_loop (Suc f) sz acc ns s = Inr (ns', s') \<longrightarrow> remaining s' \<le> remaining s)"
    if m: "2 * remaining s + 1 < Suc f" for sz acc ns s
  proof (cases "parse_node f s")
    case (Inl e)
    then show ?thesis using node [of s] m by auto
  next
    case (Inr r)
    obtain n s1 where r: "r = (n, s1)" by (cases r)
    then have "remaining s1 < remaining s" using node [of s] m Inr by auto
    then have "sequence_loop f sz (acc + k) (ns @ [n']) s1 \<noteq> Inl OutOfFuel \<and>
        (\<forall>ns' s'. sequence_loop f sz (acc + k) (ns @ [n']) s1 = Inr (ns', s') \<longrightarrow> remaining s' \<le> remaining s)" for k n'
      using loop [of s1 sz "acc + k" "ns @ [n']"] m by fastforce
    then show ?thesis using Inr r sizes_not_fuel(1) [of n] by (cases "getSize n") auto
  qed
  ultimately show ?case by blast
qed simp

lemma canonical_raw: "getRaw (canonical t) = tree_bytes t"
proof (induction t)
  case (Seq ts)
  then have "concat (map (getRaw \<circ> canonical) ts) = concat (map tree_bytes ts)"
    by (intro arg_cong [of _ _ concat] map_cong) simp_all
  then show ?case by (simp add: Let_def tree_bytes.simps(2))
qed simp

lemma size_errors:
  "getSize n = Inl e \<Longrightarrow> e = NegativeLengthException" "sum_sizes ns = Inl e \<Longrightarrow> e = NegativeLengthException"
proof (induction n and ns rule: getSize_sum_sizes.induct)
  case (2 h changed sz ns)
  then show ?case by (cases changed; cases "sum_sizes ns") (auto simp: encodeHeader_def Let_def split: if_splits)
next
  case (4 n ns)
  then show ?case by (cases "getSize n"; cases "sum_sizes ns") auto
qed auto

lemma decode_errors: "der_decode s = Inl e \<Longrightarrow> e = UndefinedBehaviour"
  by (auto simp: der_decode_def read_exact_def split: prod.splits if_splits)

lemma parse_errors:
  "parse_node f s = Inl e \<Longrightarrow> e \<in> {DerDecodingException, UndefinedBehaviour, NegativeLengthException, OutOfFuel}"
  "sequence_loop f sz acc ns s = Inl e \<Longrightarrow> e \<in> {DerDecodingException, UndefinedBehaviour, NegativeLengthException, OutOfFuel}"
proof (induction f s and f sz acc ns s arbitrary: e and e rule: parse_node_sequence_loop.induct)
  case (2 fuel s)
  obtain b s1 where p: "PeekU8 s = (b, s1)" by (cases "PeekU8 s")
  obtain t h sz s2 where d: "decodeHeader s1 = (t, h, sz, s2)" by (cases "decodeHeader s1") auto
  have IH: "a \<in> {DerDecodingException, UndefinedBehaviour, NegativeLengthException, OutOfFuel}"
    if "\<not> leaf_type b" "b = DER_SEQUENCE" "sequence_loop fuel sz 0 [] s2 = Inl a" for a
    using "2.IH" [OF p [symmetric] that(1,2) d [symmetric] refl refl that(3)] .
  show ?case
  proof (cases "b = DER_SEQUENCE")
    case True
    then show ?thesis
      using "2.prems" IH p d sequence_not_leaf by (cases "sequence_loop fuel sz 0 [] s2") auto
  next
    case False
    then show ?thesis using "2.prems" p decode_errors [of s1] by (auto split: if_splits)
  qed
next
  case (4 fuel sz acc ns s)
  show ?case
  proof (cases "acc < sz")
    case True
    show ?thesis
    proof (cases "parse_node fuel s")
      case (Inl a)
      then show ?thesis using 4 True by auto
    next
      case (Inr r)
      obtain n s1 where r: "r = (n, s1)" by (cases r)
      show ?thesis
      proof (cases "getSize n")
        case (Inl a)
        then show ?thesis using 4 True Inr r size_errors(1) [of n a] by auto
      next
        case (Inr q)
        obtain k n' where q: "q = (k, n')" by (cases q)
        show ?thesis
          using 4(2) [OF True \<open>parse_node fuel s = Inr r\<close> r [symmetric] Inr q [symmetric]] 4(3) True Inr r q \<open>parse_node fuel s = Inr r\<close>
          by simp
      qed
    qed
  qed (use 4 in auto)
qed auto

section \<open>The nodes a program builds\<close>

lemma canonical_ok: "node_ok (canonical t) \<and> cache_ok (canonical t) \<and> \<not> flagged (canonical t)"
proof (induction t)
  case (Seq ts)
  have "kids (map canonical ts) = concat (map tree_bytes ts)" by (simp add: kids_def comp_def)
  then show ?case using Seq by (auto simp: Let_def)
qed simp

lemma parse_back:
  assumes "node_ok n" and "cache_ok n" and "leaf_types (erase n)" and "der_encode n = Inr (bs, n')" and "length bs < 2 ^ 31"
  shows "bs = tree_bytes (erase n) \<and>
    der_parse (open_stream (bs @ rest)) = Inr (canonical (erase n), advance (length bs) (open_stream (bs @ rest)))"
proof -
  have bs: "bs = tree_bytes (erase n)" using encode_spec(1) [OF assms(1,2)] assms(4) by auto
  then have "parses (erase n)" using assms by (intro tree_parses) auto
  moreover have "2 * length bs < 2 * remaining (open_stream (bs @ rest)) + 1"
    by (simp add: remaining_def open_stream_def)
  ultimately show ?thesis using reads_open [of "bs @ rest"] bs unfolding parses_def der_parse_def by blast
qed

text \<open>
  The nodes that the constructors, \<open>addChild\<close> with its default notification, \<open>getSize\<close>, \<open>encode\<close> and the
  parser, on an encoding of such a node, give a program.
\<close>

inductive built_node :: "der_node \<Rightarrow> bool" where
  built_leaf: "der_leaf t p = Inr n \<Longrightarrow> built_node n"
| built_seq: "built_node new_sequence"
| built_add: "built_node n \<Longrightarrow> built_node c \<Longrightarrow> built_node (fst (addChild pos c True n))"
| built_size: "built_node n \<Longrightarrow> getSize n = Inr (k, n') \<Longrightarrow> built_node n'"
| built_parse: "built_node n \<Longrightarrow> leaf_types (erase n) \<Longrightarrow> der_encode n = Inr (bs, n') \<Longrightarrow> length bs < 2 ^ 31 \<Longrightarrow>
    der_parse (open_stream (bs @ rest)) = Inr (m, s) \<Longrightarrow> built_node m"

lemma built_node_ok: "built_node n \<Longrightarrow> node_ok n \<and> cache_ok n"
proof (induction rule: built_node.induct)
  case (built_leaf t p n)
  then show ?case by (auto simp: der_leaf_def encodeHeader_of)
next
  case (built_add n c pos)
  then show ?case using addChild_ok addChild_cache by blast
next
  case (built_size n k n')
  then show ?case using sizes_spec(1) [of n] by auto
next
  case (built_parse n bs n' rest m s)
  then show ?case using parse_back [of n bs n' rest] canonical_ok [of "erase n"] by auto
qed (simp add: new_sequence_def)

section \<open>Properties\<close>

text \<open>Property C35. For every node that the constructors, \<open>addChild\<close> with notification (its default), and the parser
  on the encoding of such a node build, at any depth and with sizes read in between, \<open>getSize\<close> returns the number of
  bytes that \<open>encode\<close> writes, so the cached sizes are never out of date; after encoding \<open>getRaw\<close> returns the bytes
  written.  Children added without notification, sizes parsed from malformed input and writes through the
  mutable accessors are excluded; the first two do break the cache, as the lemmas below show.\<close>

theorem der_size_cache:
  assumes "built_node n"
  shows "\<exists>bs m k. der_encode n = Inr (bs, m) \<and> getSize n = Inr (int (length bs), k) \<and> getRaw m = bs"
  using built_node_ok [OF assms] encode_spec(1) [of n] sizes_spec(1) [of n] by blast

theorem der_size_cache_witness:
  "\<exists>bs m k. der_encode (fst (addChild [0] new_sequence True (fst (addChild [] new_sequence True new_sequence)))) = Inr (bs, m) \<and>
     getSize (fst (addChild [0] new_sequence True (fst (addChild [] new_sequence True new_sequence)))) = Inr (int (length bs), k) \<and>
     getRaw m = bs"
  by (intro der_size_cache built_add built_seq)

text \<open>A child added without notification is not counted, and a sequence whose last child is longer than the
  size in its header keeps that size.\<close>

lemma unnotified_size:
  "getSize (fst (addChild [] (DerLeaf DER_NULL [5, 0] []) False new_sequence)) = Inr (2, DerSeq [0x30, 0] False 0 [DerLeaf DER_NULL [5, 0] []])"
  "\<exists>m. der_encode (fst (addChild [] (DerLeaf DER_NULL [5, 0] []) False new_sequence)) = Inr ([0x30, 2, 5, 0], m)"
  by (simp_all add: new_sequence_def encodeHeader_def DER_SEQUENCE_def)

lemma overlong_child_size:
  "case bindE (der_parse (open_stream [0x30, 1, 5, 0])) (\<lambda>(n, s). bindE (getSize n) (\<lambda>(k, n). bindE (der_encode n) (\<lambda>(bs, m).
     Inr (k, bs)))) of
   Inr (k, bs) \<Rightarrow> k = 3 \<and> bs = [0x30, 2, 5, 0] | Inl e \<Rightarrow> False"
  by code_simp

text \<open>C15. Decoding the encoding of a node, whatever bytes follow it, stops right behind it and gives
  a node with the same types, payloads and structure and the same raw bytes, for nodes of the types
  that \<open>parse\<close> knows and encodings shorter than 2 GiB.\<close>

theorem der_roundtrip:
  assumes "built_node n" and "leaf_types (erase n)" and "der_encode n = Inr (bs, n')" and "length bs < 2 ^ 31"
  shows "\<exists>m. der_parse (open_stream (bs @ rest)) = Inr (m, advance (length bs) (open_stream (bs @ rest))) \<and>
    erase m = erase n \<and> getRaw m = bs"
  using parse_back [OF _ _ assms(2-), of rest] built_node_ok [OF assms(1)]
  by (intro exI [of _ "canonical (erase n)"]) (metis canonical_raw erase_canonical)

theorem der_roundtrip_witness:
  "\<exists>n bs n' m. built_node n \<and> der_encode n = Inr (bs, n') \<and> length bs = 7 \<and>
     der_parse (open_stream (bs @ [9])) = Inr (m, advance (length bs) (open_stream (bs @ [9]))) \<and> erase m = erase n"
proof -
  let ?s = "fst (addChild [] (DerLeaf DER_NULL [5, 0] []) True new_sequence)"
  let ?n = "fst (addChild [] (DerLeaf DER_BOOLEAN [1, 1] [0xFF]) True ?s)"
  have "der_leaf DER_NULL [] = Inr (DerLeaf DER_NULL [5, 0] [])"
      "der_leaf DER_BOOLEAN [0xFF] = Inr (DerLeaf DER_BOOLEAN [1, 1] [0xFF])"
    by (simp_all add: der_leaf_def encodeHeader_def der_types)
  then have b: "built_node ?n" by (blast intro: built_leaf built_seq built_add)
  have t: "leaf_types (erase ?n)" by (simp add: new_sequence_def leaf_type_def)
  obtain n' where e: "der_encode ?n = Inr ([48, 5, 5, 0, 1, 1, 0xFF], n')"
    by (simp add: new_sequence_def encodeHeader_def der_types)
  show ?thesis using der_roundtrip [OF b t e, of "[9]"] b e by (intro exI [of _ ?n]) auto
qed

text \<open>C29. \<open>DerNode::parse\<close> returns on every input, however malformed: either a node, having read at
  least one byte and none twice, or an exception for an unknown type or a negative size, or it runs
  into the end of the input inside a payload.\<close>

theorem der_parse_ends:
  "case der_parse s of
     Inr (n, s') \<Rightarrow> remaining s' < remaining s
   | Inl e \<Rightarrow> e \<in> {DerDecodingException, NegativeLengthException, UndefinedBehaviour}"
  using parser_ends [of "2 * remaining s + 1"] parse_errors(1) [of "2 * remaining s + 1" s]
  by (auto simp: der_parse_def split: sum.split)

text \<open>A size of 127 is written in the long form, two bytes where DER requires one.\<close>

lemma size_127_long_form: "encodeHeader t 127 = Inr [t, 0x81, 127] \<and> encodeHeader t 126 = Inr [t, 126]"
  by (simp add: encodeHeader_def size_loop_snoc size_loop.simps)



end
