(* ===== verification/Der_Values.thy ===== *)
theory Der_Values
  imports Der_Codec "HOL-Library.Signed_Division"
begin

unbundle bit_operations_syntax

text \<open>
  \<open>helpers/oid\<close>, the object identifier nodes of \<open>helpers/der/der.cc\<close> and
  \<open>helpers/der/visitor/simple-visitor.cc\<close>, which reads the value of a leaf.  An \<open>int\<close> of an object
  identifier is an \<open>int\<close> here; where the code would leave the 32-bit range or read behind the
  payload, the model returns \<open>UndefinedBehaviour\<close>.
\<close>

section \<open>Object identifiers\<close>

type_synonym oid = "int list"

text \<open>\<open>atoi\<close>: white space, a sign, digits; the rest is ignored.\<close>

definition is_space :: "char \<Rightarrow> bool" where
  "is_space c \<longleftrightarrow> of_char c = (32 :: nat) \<or> ((9 :: nat) \<le> of_char c \<and> of_char c \<le> (13 :: nat))"

definition is_decimal :: "char \<Rightarrow> bool" where
  "is_decimal c \<longleftrightarrow> (48 :: nat) \<le> of_char c \<and> of_char c \<le> (57 :: nat)"

definition digits_value :: "string \<Rightarrow> int" where
  "digits_value s = foldl (\<lambda>v c. 10 * v + (int (of_char c) - 48)) 0 (takeWhile is_decimal s)"

definition c_atoi :: "string \<Rightarrow> int result" where
  "c_atoi s =
     (let s = dropWhile is_space s;
          v = (if s \<noteq> [] \<and> hd s = CHR ''-'' then - digits_value (tl s)
               else if s \<noteq> [] \<and> hd s = CHR ''+'' then digits_value (tl s) else digits_value s)
      in if - (2 ^ 31) \<le> v \<and> v < 2 ^ 31 then Inr v else Inl UndefinedBehaviour)"

text \<open>\<open>OID::OID (string)\<close> and the same loop in \<open>DerOid::DerOid (string)\<close>: \<open>str\<close> ends with a dot.\<close>

function split_dots :: "string \<Rightarrow> oid result" where
  "split_dots str =
     (let item = takeWhile (\<lambda>c. c \<noteq> CHR ''.'') str
      in if length item = length str then Inr []
         else bindE (c_atoi item) (\<lambda>v. bindE (split_dots (drop (length item + 1) str)) (\<lambda>vs. Inr (v # vs))))"
  by pat_completeness auto
termination
proof (relation "measure length")
  fix str :: string and item v
  assume "item = takeWhile (\<lambda>c. c \<noteq> CHR ''.'') str" "length item \<noteq> length str"
  then show "(drop (length item + 1) str, str) \<in> measure length" by (cases str) auto
qed simp

declare split_dots.simps [simp del]

definition oid_of_string :: "string \<Rightarrow> oid result" where
  "oid_of_string s = split_dots (s @ ''.'')"

text \<open>The decimal form of an \<open>int\<close>, as \<open>operator<<\<close> writes it.\<close>

fun decimal :: "nat \<Rightarrow> string" where
  "decimal n = (if n < 10 then [char_of (48 + n)] else decimal (n div 10) @ [char_of (48 + n mod 10)])"

declare decimal.simps [simp del]

definition print_int :: "int \<Rightarrow> string" where
  "print_int v = (if v < 0 then ''-'' @ decimal (nat (- v)) else decimal (nat v))"

fun oid_toString :: "oid \<Rightarrow> string" where
  "oid_toString [] = ''''"
| "oid_toString [v] = print_int v"
| "oid_toString (v # vs) = print_int v @ ''.'' @ oid_toString vs"

fun oid_equal :: "oid \<Rightarrow> oid \<Rightarrow> bool" where
  "oid_equal (a # as) (b # bs) \<longleftrightarrow> (if a \<noteq> b then False else oid_equal as bs)"
| "oid_equal as bs \<longleftrightarrow> as = [] \<and> bs = []"

section \<open>Object identifier nodes\<close>

fun base128_loop :: "nat \<Rightarrow> blob \<Rightarrow> blob" where
  "base128_loop val buf =
     (if val \<noteq> 0 then base128_loop (val div 128) ((of_nat (val mod 128) OR push_bit 7 1) # buf) else buf)"

declare base128_loop.simps [simp del]

text \<open>\<open>DerOid::encode128\<close>; a negative value is below 128 and loses all but its low seven bits.\<close>

definition encode128 :: "int \<Rightarrow> blob" where
  "encode128 val =
     (if 128 > val then [of_int (val mod 128)]
      else base128_loop (nat val div 128) [of_int (val mod 128)])"

definition prepareEncoding :: "oid \<Rightarrow> der_node result" where
  "prepareEncoding val =
     bindE (if length val \<ge> 1 then
              if 0 \<le> val ! 0 \<and> 2 \<ge> val ! 0 then Inr (val ! 0 * 40) else Inl DerEncodingException
            else Inl DerEncodingException) (\<lambda>firstNumber.
       bindE (if length val \<ge> 2 then
                if 0 \<le> val ! 1 \<and> 39 \<ge> val ! 1 then Inr (firstNumber + val ! 1) else Inl DerEncodingException
              else Inr firstNumber) (\<lambda>firstNumber.
         let output = encode128 firstNumber @ concat (map encode128 (drop 2 val))
         in der_leaf DER_OBJECT_IDENTIFIER output))"

definition der_oid :: "oid \<Rightarrow> der_node result" where
  "der_oid val = prepareEncoding val"

definition der_oid_of_string :: "string \<Rightarrow> der_node result" where
  "der_oid_of_string s = bindE (split_dots (s @ ''.'')) prepareEncoding"

text \<open>\<open>DerOid::decode128\<close>, with the offset as it is after the call.\<close>

function decode128_loop :: "blob \<Rightarrow> nat \<Rightarrow> int \<Rightarrow> (int \<times> nat) result" where
  "decode128_loop payload offset val =
     (if offset \<ge> length payload then Inl UndefinedBehaviour
      else if payload ! offset AND 0x80 \<noteq> 0 then
        if 128 * val + uint (payload ! offset) < 2 ^ 31
        then decode128_loop payload (offset + 1) (128 * val + uint (payload ! offset) - 128)
        else Inl UndefinedBehaviour
      else if val * 128 + uint (payload ! offset) < 2 ^ 31
        then Inr (val * 128 + uint (payload ! offset), offset + 1)
        else Inl UndefinedBehaviour)"
  by pat_completeness auto
termination
  by (relation "measure (\<lambda>(payload, offset, val). length payload - offset)") auto

declare decode128_loop.simps [simp del]

definition decode128 :: "blob \<Rightarrow> nat \<Rightarrow> (int \<times> nat) result" where
  "decode128 payload offset = decode128_loop payload offset 0"

lemma decode128_loop_advances: "decode128_loop p off v = Inr (r, off') \<Longrightarrow> off < off'"
proof (induction p off v rule: decode128_loop.induct)
  case (1 p off v)
  then show ?case
    by (subst (asm) decode128_loop.simps) (auto split: if_splits)
qed

section \<open>The values of leaves\<close>

text \<open>What \<open>boost::any\<close> holds; \<open>AnyPtrBlob\<close> is a \<open>Ptr<Blob>\<close>, \<open>AnyInt\<close> the default visitor's 0.\<close>

datatype 't any_value =
    AnyEmpty
  | AnyInt int
  | AnyBool bool
  | AnyBlob blob
  | AnyString string
  | AnyPtrBlob blob
  | AnyOid oid
  | AnyTime 't

function oid_loop :: "blob \<Rightarrow> nat \<Rightarrow> oid result" where
  "oid_loop payload offset =
     (if offset < length payload then
        case decode128 payload offset of
          Inl e \<Rightarrow> Inl e
        | Inr (v, offset) \<Rightarrow> bindE (oid_loop payload offset) (\<lambda>vs. Inr (v # vs))
      else Inr [])"
  by pat_completeness auto
termination
  by (relation "measure (\<lambda>(payload, offset). length payload - offset)")
    (auto simp: decode128_def dest!: decode128_loop_advances)

declare oid_loop.simps [simp del]

definition visit_oid :: "blob \<Rightarrow> oid result" where
  "visit_oid payload =
     (if payload = [] then Inl UndefinedBehaviour
      else let first = sint (payload ! 0)
           in bindE (oid_loop payload 1) (\<lambda>vs. Inr (first sdiv 40 # first smod 40 # vs)))"

text \<open>\<open>SimpleVisitor\<close>; \<open>from_iso\<close> is \<open>boost::posix_time::from_iso_string\<close>, which may throw.\<close>

definition visit_gtime :: "(string \<Rightarrow> 't result) \<Rightarrow> blob \<Rightarrow> 't result" where
  "visit_gtime from_iso payload =
     (let str = map char_of_byte payload
      in if length str < 8 then Inl StdOutOfRange
         else from_iso (take 8 str @ ''T'' @ take 6 (drop 8 str)))"

definition simple_visit :: "(string \<Rightarrow> 't result) \<Rightarrow> der_node \<Rightarrow> 't any_value result" where
  "simple_visit from_iso n =
     (case n of
        DerSeq h c sz ns \<Rightarrow> Inr AnyEmpty
      | DerLeaf t h payload \<Rightarrow>
          if t = DER_BOOLEAN then
            if payload = [] then Inl UndefinedBehaviour else Inr (AnyBool (payload ! 0 \<noteq> 0))
          else if t = DER_INTEGER \<or> t = DER_BIT_STRING then Inr (AnyBlob payload)
          else if t = DER_PRINTABLE_STRING then Inr (AnyString (map char_of_byte payload))
          else if t = DER_OCTET_STRING then Inr (AnyPtrBlob payload)
          else if t = DER_OBJECT_IDENTIFIER then bindE (visit_oid payload) (\<lambda>v. Inr (AnyOid v))
          else if t = DER_GENERALIZED_TIME then bindE (visit_gtime from_iso payload) (\<lambda>v. Inr (AnyTime v))
          else Inr AnyEmpty)"

section \<open>Object identifiers are read back\<close>

lemma base128_step:
  "v \<noteq> 0 \<Longrightarrow> base128_loop v buf = base128_loop (v div 128) ((of_nat (v mod 128) OR push_bit 7 1) # buf)"
  by (subst base128_loop.simps) simp

lemma base128_append: "base128_loop v buf = base128_loop v [] @ buf"
proof (induction v arbitrary: buf rule: less_induct)
  case (less v)
  show ?case
  proof (cases "v = 0")
    case False
    then have IH: "base128_loop (v div 128) b = base128_loop (v div 128) [] @ b" for b
      by (intro less) simp
    show ?thesis unfolding base128_step [OF False] by (subst (1 2) IH) simp
  qed (simp add: base128_loop.simps)
qed

lemma base128_snoc:
  "v \<noteq> 0 \<Longrightarrow> base128_loop v [] = base128_loop (v div 128) [] @ [of_nat (v mod 128) OR push_bit 7 1]"
  by (subst base128_step, simp, subst base128_append, rule refl)

text \<open>A continuation byte carries seven bits and the flag.\<close>

lemma flag_byte:
  assumes "d < 128"
  shows "uint ((of_nat d :: byte) OR 128) = int d + 128" and "((of_nat d :: byte) OR 128) AND 128 \<noteq> 0"
    and "(of_nat d :: byte) AND 128 = 0"
proof -
  have b: "\<not> bit (of_nat d :: byte) 7"
  proof -
    have "\<not> bit (unat (of_nat d :: byte)) 7"
      using assms by (simp add: unsigned_of_nat take_bit_nat_eq_self bit_iff_odd)
    then show ?thesis by (simp add: bit_unsigned_iff)
  qed
  then show z: "(of_nat d :: byte) AND 128 = 0"
    using and_exp_eq_0_iff_not_bit [of "of_nat d :: byte" 7] by simp
  then have e: "(of_nat d :: byte) OR 128 = of_nat (d + 128)"
    by (simp add: disjunctive_add_eq_or [symmetric])
  have "unat (of_nat (d + 128) :: byte) = d + 128" using assms by (simp only: unat_of_nat) simp
  then show "uint ((of_nat d :: byte) OR 128) = int d + 128" unfolding e uint_nat by simp
  have "bit ((of_nat d :: byte) OR 2 ^ 7) 7" by (simp only: bit_or_iff bit_exp_iff) simp
  then show "((of_nat d :: byte) OR 128) AND 128 \<noteq> 0"
    using and_exp_eq_0_iff_not_bit [of "of_nat d OR 128 :: byte" 7] by simp
qed

definition add_digit :: "int \<Rightarrow> byte \<Rightarrow> int" where
  "add_digit v d = 128 * v + uint d - 128"

lemma base128_value:
  "foldl add_digit 0 (base128_loop v []) = int v \<and>
   (\<forall>d\<in>set (base128_loop v []). d AND 128 \<noteq> 0 \<and> 128 \<le> uint d)"
proof (induction v rule: less_induct)
  case (less v)
  show ?case
  proof (cases "v = 0")
    case False
    have IH: "foldl add_digit 0 (base128_loop (v div 128) []) = int (v div 128) \<and>
        (\<forall>d\<in>set (base128_loop (v div 128) []). d AND 128 \<noteq> 0 \<and> 128 \<le> uint d)"
      using False by (intro less) simp
    have d: "add_digit (int (v div 128)) (of_nat (v mod 128) OR 128) = int v"
      using flag_byte(1) [of "v mod 128"] by (simp add: add_digit_def zmod_int zdiv_int)
    show ?thesis
      using False IH d flag_byte [of "v mod 128"] by (simp add: base128_snoc)
  qed (simp add: base128_loop.simps)
qed

lemma add_digit_grows: "0 \<le> v \<Longrightarrow> \<forall>d\<in>set ds. 128 \<le> uint d \<Longrightarrow> v \<le> foldl add_digit v ds"
proof (induction ds arbitrary: v)
  case (Cons d ds)
  then have "v \<le> add_digit v d" by (simp add: add_digit_def)
  then show ?case using Cons.IH [of "add_digit v d"] Cons.prems by simp
qed simp

lemma decode128_digits:
  assumes "\<forall>d\<in>set ds. d AND 128 \<noteq> 0 \<and> 128 \<le> uint d" and "0 \<le> v" and "foldl add_digit v ds < 2 ^ 24"
    and "drop off p = ds @ b # rest"
  shows "decode128_loop p off v = decode128_loop p (off + length ds) (foldl add_digit v ds)"
  using assms
proof (induction ds arbitrary: v off)
  case (Cons d ds)
  have off: "off < length p" using Cons.prems(4) by (metis drop_all append_Cons list.simps(3) not_less)
  have d: "p ! off = d" using Cons.prems(4) by (simp add: nth_via_drop)
  have dr: "drop (off + 1) p = ds @ b # rest" using Cons.prems(4) by (metis append_Cons drop_Suc tl_drop Suc_eq_plus1 list.sel(3))
  have g: "v \<le> add_digit v d" "0 \<le> add_digit v d" using Cons.prems(1,2) by (auto simp: add_digit_def)
  have le: "add_digit v d \<le> foldl add_digit (add_digit v d) ds"
    using Cons.prems(1) g by (intro add_digit_grows) auto
  have "128 * v + uint d = add_digit v d + 128" by (simp add: add_digit_def)
  with le have s: "128 * v + uint d < 2 ^ 31" using Cons.prems(3) by simp
  have "decode128_loop p off v = decode128_loop p (off + 1) (add_digit v d)"
    using off d s Cons.prems(1) by (subst decode128_loop.simps) (simp add: add_digit_def)
  also have "\<dots> = decode128_loop p (off + 1 + length ds) (foldl add_digit (add_digit v d) ds)"
    using Cons.prems dr g by (intro Cons.IH) auto
  finally show ?case by simp
qed simp

lemma encode128_split:
  assumes "0 \<le> v"
  shows "encode128 v = base128_loop (nat v div 128) [] @ [of_nat (nat v mod 128)]"
proof -
  have "v mod 128 = int (nat v mod 128)" using assms by (simp add: zmod_int)
  then have "of_int (v mod 128) = (of_nat (nat v mod 128) :: byte)" by (simp only: of_int_of_nat_eq)
  then show ?thesis
    using assms base128_loop.simps [of 0] base128_append [of "nat v div 128" "[of_nat (nat v mod 128)]"]
    by (auto simp: encode128_def)
qed

lemma decode128_encode128:
  assumes "0 \<le> v" and "v < 2 ^ 31" and p: "drop off p = encode128 v @ rest"
  shows "decode128 p off = Inr (v, off + length (encode128 v))"
proof -
  let ?ds = "base128_loop (nat v div 128) []" and ?b = "of_nat (nat v mod 128) :: byte"
  have b: "?b AND 128 = 0" by (rule flag_byte(3)) simp
  have b': "uint ?b = int (nat v mod 128)" unfolding uint_nat by (simp add: unat_of_nat)
  have f: "foldl add_digit 0 ?ds = int (nat v div 128)" using base128_value by blast
  have q: "nat v div 128 < 2 ^ 24" using assms by (simp add: less_mult_imp_div_less nat_less_iff)
  have p': "drop off p = ?ds @ ?b # rest" using p by (simp add: encode128_split [OF assms(1)])
  have "decode128_loop p off 0 = decode128_loop p (off + length ?ds) (int (nat v div 128))"
    using decode128_digits [OF _ _ _ p', of 0] base128_value [of "nat v div 128"] f q by simp
  moreover have d: "drop (off + length ?ds) p = ?b # rest"
    using p' by (metis add.commute append_eq_conv_conj drop_drop)
  then have "off + length ?ds < length p" and "p ! (off + length ?ds) = ?b"
    by (metis drop_all list.simps(3) not_less, simp add: nth_via_drop)
  moreover have "int (nat v div 128) * 128 + int (nat v mod 128) = v" using assms(1)
    by (metis div_mult_mod_eq int_nat_eq of_nat_add of_nat_mult of_nat_numeral)
  ultimately show ?thesis
    using b b' assms(2) by (simp add: decode128_def decode128_loop.simps [of p "off + length ?ds"] encode128_split [OF assms(1)])
qed

definition oid_ok :: "oid \<Rightarrow> bool" where
  "oid_ok v \<longleftrightarrow> 2 \<le> length v \<and> 0 \<le> v ! 0 \<and> v ! 0 \<le> 2 \<and> 0 \<le> v ! 1 \<and> v ! 1 \<le> 39 \<and>
     (\<forall>x\<in>set (drop 2 v). 0 \<le> x \<and> x < 2 ^ 31)"

definition oid_payload :: "oid \<Rightarrow> blob" where
  "oid_payload v = of_int (v ! 0 * 40 + v ! 1) # concat (map encode128 (drop 2 v))"

lemma encode128_pos: "encode128 v \<noteq> []"
  by (simp add: encode128_def base128_append [of _ "[_]"])

lemma oid_loop_reads:
  "\<forall>x\<in>set vs. 0 \<le> x \<and> x < 2 ^ 31 \<Longrightarrow> drop off p = concat (map encode128 vs) \<Longrightarrow> oid_loop p off = Inr vs"
proof (induction vs arbitrary: off)
  case (Cons v vs)
  have off: "off < length p"
    using Cons.prems(2) encode128_pos [of v] by (metis append_is_Nil_conv concat.simps(2) drop_all list.simps(9) not_less)
  have d: "decode128 p off = Inr (v, off + length (encode128 v))"
    using Cons.prems by (intro decode128_encode128) auto
  have "drop (off + length (encode128 v)) p = concat (map encode128 vs)"
    using Cons.prems(2) by (simp add: add.commute [of off] drop_drop [symmetric] del: drop_drop)
  then show ?case using off d Cons by (subst oid_loop.simps) simp
qed (subst oid_loop.simps, simp)

lemma der_oid_payload:
  assumes "oid_ok v"
  shows "der_oid v = Inr (DerLeaf DER_OBJECT_IDENTIFIER (header_of DER_OBJECT_IDENTIFIER (length (oid_payload v))) (oid_payload v))"
proof -
  have "encode128 (v ! 0 * 40 + v ! 1) = [of_int (v ! 0 * 40 + v ! 1)]"
    using assms by (simp add: oid_ok_def encode128_def)
  then show ?thesis
    using assms by (simp add: oid_ok_def der_oid_def prepareEncoding_def Let_def der_leaf_def oid_payload_def encodeHeader_of [of _ "Suc _", simplified])
qed

lemma visit_oid_payload:
  assumes "oid_ok v"
  shows "visit_oid (oid_payload v) = Inr v"
proof -
  obtain a b vs where v: "v = a # b # vs"
    using assms by (cases v; cases "tl v") (auto simp: oid_ok_def)
  have r: "0 \<le> a" "a \<le> 2" "0 \<le> b" "b \<le> 39" using assms by (auto simp: oid_ok_def v)
  have s: "sint (of_int (a * 40 + b) :: byte) = a * 40 + b"
    using r by (simp only: signed_of_int) (simp add: signed_take_bit_int_eq_self)
  have q: "(a * 40 + b) sdiv 40 = a" "(a * 40 + b) smod 40 = b"
    using r by (simp_all add: signed_divide_int_def signed_modulo_int_def sgn_if)
  have "oid_loop (oid_payload v) 1 = Inr vs"
    using assms by (intro oid_loop_reads) (auto simp: oid_ok_def oid_payload_def v)
  then show ?thesis using s q by (simp add: visit_oid_def oid_payload_def v)
qed

section \<open>Object identifiers in text\<close>

lemma decimal_chars: "(\<forall>c\<in>set (decimal n). is_decimal c) \<and> decimal n \<noteq> []"
proof (induction n rule: decimal.induct)
  case (1 n)
  have "is_decimal (char_of (48 + k))" if "k < 10" for k :: nat
    using that by (simp add: is_decimal_def of_char_of)
  then show ?case using 1 by (subst (1 2) decimal.simps) auto
qed

lemma digits_append: "\<forall>c\<in>set (s @ t). is_decimal c \<Longrightarrow>
  digits_value (s @ t) = foldl (\<lambda>v c. 10 * v + (int (of_char c) - 48)) (digits_value s) t"
  by (simp add: digits_value_def takeWhile_eq_all_conv [THEN iffD2])

lemma digits_decimal: "digits_value (decimal n) = int n"
proof (induction n rule: decimal.induct)
  case (1 n)
  have c: "int (of_char (char_of (48 + k))) = 48 + int k" if "k < 10" for k :: nat
    using that by (simp add: of_char_of)
  have d: "is_decimal (char_of (48 + k))" if "k < 10" for k :: nat
    using that by (simp add: is_decimal_def of_char_of)
  show ?case
  proof (cases "n < 10")
    case True
    then show ?thesis using c [OF True] d [OF True] by (subst decimal.simps) (simp add: digits_value_def)
  next
    case False
    have m: "n mod 10 < 10" by simp
    have "digits_value (decimal n) = digits_value (decimal (n div 10) @ [char_of (48 + n mod 10)])"
      using False by (subst decimal.simps) simp
    also have "\<dots> = 10 * digits_value (decimal (n div 10)) + int (n mod 10)"
      using decimal_chars [of "n div 10"] d [OF m] c [OF m] by (subst digits_append) auto
    finally show ?thesis using 1 [OF False] by (simp add: zdiv_int zmod_int)
  qed
qed

lemma decimal_not_special: "is_decimal c \<Longrightarrow> c \<noteq> CHR ''.'' \<and> c \<noteq> CHR ''-'' \<and> c \<noteq> CHR ''+'' \<and> \<not> is_space c"
proof -
  assume "is_decimal c"
  then have d: "(48 :: nat) \<le> of_char c" "of_char c \<le> (57 :: nat)" by (simp_all add: is_decimal_def)
  then have "\<not> is_space c" unfolding is_space_def by linarith
  moreover have "c \<noteq> CHR ''.''" "c \<noteq> CHR ''-''" "c \<noteq> CHR ''+''" using d(1) by (intro notI, simp)+
  ultimately show ?thesis by blast
qed

lemma print_int_chars: "CHR ''.'' \<notin> set (print_int v)"
proof -
  have "CHR ''.'' \<notin> set (decimal n)" for n
    using decimal_chars [of n] decimal_not_special [of "CHR ''.''"] by blast
  then show ?thesis by (simp add: print_int_def)
qed

lemma atoi_print_int:
  assumes "- (2 ^ 31) \<le> v" and "v < 2 ^ 31"
  shows "c_atoi (print_int v) = Inr v"
proof (cases "v < 0")
  case True
  then show ?thesis
    using assms by (simp add: print_int_def c_atoi_def is_space_def digits_decimal)
next
  case False
  obtain c s where cs: "decimal (nat v) = c # s" "is_decimal c"
    using decimal_chars [of "nat v"] by (cases "decimal (nat v)") auto
  then have "dropWhile is_space (decimal (nat v)) = decimal (nat v)" "hd (decimal (nat v)) = c"
    using decimal_not_special [of c] by simp_all
  then show ?thesis
    using False assms cs decimal_not_special [of c] digits_decimal [of "nat v"]
    by (simp add: print_int_def c_atoi_def Let_def)
qed

lemma split_dots_item:
  assumes "CHR ''.'' \<notin> set item"
  shows "split_dots (item @ ''.'' @ rest) =
    bindE (c_atoi item) (\<lambda>v. bindE (split_dots rest) (\<lambda>vs. Inr (v # vs)))"
proof -
  have "takeWhile (\<lambda>c. c \<noteq> CHR ''.'') (item @ ''.'' @ rest) = item"
    using assms by (subst takeWhile_append2) auto
  then show ?thesis by (subst split_dots.simps) simp
qed

lemma split_dots_toString:
  assumes "vs \<noteq> []" and "\<forall>v\<in>set vs. - (2 ^ 31) \<le> v \<and> v < 2 ^ 31"
  shows "split_dots (oid_toString vs @ ''.'') = Inr vs"
  using assms
proof (induction vs rule: oid_toString.induct)
  case (2 v)
  have "split_dots [] = Inr []" by (subst split_dots.simps) simp
  then show ?case using 2 split_dots_item [OF print_int_chars, of v "[]"] by (simp add: atoi_print_int)
next
  case (3 v w vs)
  then show ?case using split_dots_item [OF print_int_chars, of v "oid_toString (w # vs) @ ''.''"]
    by (simp add: atoi_print_int)
qed simp

lemma oid_equal_iff: "oid_equal a b \<longleftrightarrow> a = b"
  by (induction a b rule: oid_equal.induct) auto

end
