(* ===== verification/Ndn_Certificate.thy ===== *)
theory Ndn_Certificate
  imports Der_Values Ndn_Packets
begin

unbundle bit_operations_syntax

text \<open>
  \<open>ndn.cxx/security/certificate\<close> and the visitors that read it
  (\<open>helpers/der/visitor/certificate-data-visitor.cc\<close>, \<open>publickey-visitor.cc\<close>): public keys, subject
  descriptions, extensions, the certificate with its DER encoding, identity certificates with the
  name of their key, and introduction certificates.  \<open>to_iso\<close> and \<open>from_iso\<close> stand for Boost's
  conversions between times and text, \<open>sha256\<close> for the digest of Crypto++.
\<close>

section \<open>Times\<close>

text \<open>\<open>boost::posix_time::ptime\<close> with its special values and its order.\<close>

datatype ptime = NotADateTime | NegInfin | PTime int | PosInfin

fun ptime_less :: "ptime \<Rightarrow> ptime \<Rightarrow> bool" where
  "ptime_less NotADateTime _ = False"
| "ptime_less _ NotADateTime = False"
| "ptime_less NegInfin t = (t \<noteq> NegInfin)"
| "ptime_less (PTime a) (PTime b) = (a < b)"
| "ptime_less (PTime a) t = (t = PosInfin)"
| "ptime_less PosInfin t = False"

section \<open>Values held by a visitor\<close>

fun any_oid :: "'t any_value \<Rightarrow> oid result" where
  "any_oid (AnyOid v) = Inr v"
| "any_oid _ = Inl BadAnyCast"

fun any_string :: "'t any_value \<Rightarrow> string result" where
  "any_string (AnyString v) = Inr v"
| "any_string _ = Inl BadAnyCast"

fun any_bool :: "'t any_value \<Rightarrow> bool result" where
  "any_bool (AnyBool v) = Inr v"
| "any_bool _ = Inl BadAnyCast"

fun any_blob :: "'t any_value \<Rightarrow> blob result" where
  "any_blob (AnyBlob v) = Inr v"
| "any_blob _ = Inl BadAnyCast"

fun any_ptr_blob :: "'t any_value \<Rightarrow> blob result" where
  "any_ptr_blob (AnyPtrBlob v) = Inr v"
| "any_ptr_blob _ = Inl BadAnyCast"

fun any_time :: "'t any_value \<Rightarrow> 't result" where
  "any_time (AnyTime v) = Inr v"
| "any_time _ = Inl BadAnyCast"

text \<open>\<open>children[i]\<close> is not checked.\<close>

definition child :: "der_node list \<Rightarrow> nat \<Rightarrow> der_node result" where
  "child ns i = (if i < length ns then Inr (ns ! i) else Inl UndefinedBehaviour)"

definition visit_child :: "(string \<Rightarrow> 't result) \<Rightarrow> ('t any_value \<Rightarrow> 'v result) \<Rightarrow> der_node list \<Rightarrow> nat \<Rightarrow> 'v result" where
  "visit_child from_iso cast ns i = bindE (child ns i) (\<lambda>n. bindE (simple_visit from_iso n) cast)"

section \<open>Public keys\<close>

record publickey =
  pk_algorithm :: oid
  pk_key :: blob

definition publickey_toDER :: "publickey \<Rightarrow> der_node result" where
  "publickey_toDER k = bindE (der_parse (open_stream (pk_key k))) (\<lambda>(n, s). Inr n)"

text \<open>
  \<open>PublickeyVisitor\<close> with the cast of its result: another node than a sequence gives \<open>boost::any (0)\<close>;
  a first child that is no sequence gives a null pointer.
\<close>

definition publickey_visit :: "(string \<Rightarrow> ptime result) \<Rightarrow> der_node \<Rightarrow> publickey result" where
  "publickey_visit from_iso n =
     (case n of
        DerLeaf t h p \<Rightarrow> Inl BadAnyCast
      | DerSeq h changed sz ns \<Rightarrow>
          bindE (child ns 0) (\<lambda>algoSeq.
            case algoSeq of
              DerLeaf t h p \<Rightarrow> Inl UndefinedBehaviour
            | DerSeq h changed sz as \<Rightarrow>
                bindE (visit_child from_iso any_oid as 0) (\<lambda>algorithm.
                  Inr \<lparr> pk_algorithm = algorithm, pk_key = getRaw n \<rparr>)))"

definition publickey_fromDER :: "(string \<Rightarrow> ptime result) \<Rightarrow> blob \<Rightarrow> publickey result" where
  "publickey_fromDER from_iso b = bindE (der_parse (open_stream b)) (\<lambda>(root, s). publickey_visit from_iso root)"

datatype digest_algorithm = DIGEST_SHA256

definition getDigest :: "(blob \<Rightarrow> blob) \<Rightarrow> digest_algorithm \<Rightarrow> publickey \<Rightarrow> blob result" where
  "getDigest sha256 digestAlgo k = (if DIGEST_SHA256 = digestAlgo then Inr (sha256 (pk_key k)) else Inl SecException)"

section \<open>Subject descriptions and extensions\<close>

record subdescrypt =
  sd_oid :: oid
  sd_value :: string

record extension =
  ex_oid :: oid
  ex_critical :: bool
  ex_value :: blob

definition subdescrypt_of_string :: "string \<Rightarrow> string \<Rightarrow> subdescrypt result" where
  "subdescrypt_of_string o_str v = bindE (oid_of_string o_str) (\<lambda>x. Inr \<lparr> sd_oid = x, sd_value = v \<rparr>)"

definition extension_of_string :: "string \<Rightarrow> bool \<Rightarrow> blob \<Rightarrow> extension result" where
  "extension_of_string o_str critical v =
     bindE (oid_of_string o_str) (\<lambda>x. Inr \<lparr> ex_oid = x, ex_critical = critical, ex_value = v \<rparr>)"

definition subdescrypt_toDER :: "subdescrypt \<Rightarrow> der_node result" where
  "subdescrypt_toDER d =
     bindE (der_oid (sd_oid d)) (\<lambda>oid.
       bindE (der_printable_string (sd_value d)) (\<lambda>val.
         Inr (add_child (add_child new_sequence oid) val)))"

definition extension_toDER :: "extension \<Rightarrow> der_node result" where
  "extension_toDER e =
     bindE (der_oid (ex_oid e)) (\<lambda>extnID.
       bindE (der_bool (ex_critical e)) (\<lambda>critical.
         bindE (der_octet_string (ex_value e)) (\<lambda>extnValue.
           bindE (getSize (add_child (add_child (add_child new_sequence extnID) critical) extnValue)) (\<lambda>(sz, root).
             Inr root))))"

definition extension_toDERBlob :: "extension \<Rightarrow> blob result" where
  "extension_toDERBlob e = bindE (extension_toDER e) (\<lambda>n. bindE (der_encode n) (\<lambda>(bs, n). Inr bs))"

section \<open>Certificates\<close>

record certificate = ndn_data +
  c_subjectList :: "subdescrypt list"
  c_notBefore :: ptime
  c_notAfter :: ptime
  c_key :: publickey
  c_extnList :: "extension list"

definition new_publickey :: publickey where
  "new_publickey = \<lparr> pk_algorithm = [], pk_key = [] \<rparr>"

definition new_certificate :: certificate where
  "new_certificate =
     ndn_data.extend new_data
       \<lparr> c_subjectList = [], c_notBefore = PosInfin, c_notAfter = NegInfin, c_key = new_publickey, c_extnList = [] \<rparr>"

definition isTooEarly :: "ptime \<Rightarrow> 'a certificate_scheme \<Rightarrow> bool" where
  "isTooEarly now c \<longleftrightarrow> (if ptime_less now (c_notBefore c) then True else False)"

definition isTooLate :: "ptime \<Rightarrow> 'a certificate_scheme \<Rightarrow> bool" where
  "isTooLate now c \<longleftrightarrow> (if ptime_less (c_notAfter c) now then True else False)"

definition addSubjectDescription :: "subdescrypt \<Rightarrow> certificate \<Rightarrow> certificate" where
  "addSubjectDescription d c = c\<lparr> c_subjectList := c_subjectList c @ [d] \<rparr>"

definition addExtension :: "extension \<Rightarrow> certificate \<Rightarrow> certificate" where
  "addExtension e c = c\<lparr> c_extnList := c_extnList c @ [e] \<rparr>"

text \<open>The loops that add the encoding of every element of a list to a sequence.\<close>

fun add_all :: "('a \<Rightarrow> der_node result) \<Rightarrow> der_node \<Rightarrow> 'a list \<Rightarrow> der_node result" where
  "add_all toDER root [] = Inr root"
| "add_all toDER root (x # xs) = bindE (toDER x) (\<lambda>n. add_all toDER (add_child root n) xs)"

definition certificate_root :: "(ptime \<Rightarrow> string) \<Rightarrow> certificate \<Rightarrow> der_node result" where
  "certificate_root to_iso c =
     bindE (der_gtime to_iso (c_notBefore c)) (\<lambda>notBefore.
       bindE (der_gtime to_iso (c_notAfter c)) (\<lambda>notAfter.
         let validity = add_child (add_child new_sequence notBefore) notAfter;
             root = add_child new_sequence validity
         in bindE (add_all subdescrypt_toDER new_sequence (c_subjectList c)) (\<lambda>subjectList.
              bindE (publickey_toDER (c_key c)) (\<lambda>key.
                let root = add_child (add_child root subjectList) key
                in if c_extnList c \<noteq> [] then
                     bindE (add_all extension_toDER new_sequence (c_extnList c)) (\<lambda>extnList.
                       Inr (add_child root extnList))
                   else Inr root))))"

text \<open>\<open>Certificate::encode\<close> at the time \<open>now\<close>.\<close>

definition certificate_encode :: "(ptime \<Rightarrow> string) \<Rightarrow> int \<Rightarrow> certificate \<Rightarrow> certificate result" where
  "certificate_encode to_iso now c =
     bindE (certificate_root to_iso c) (\<lambda>root.
       bindE (der_encode root) (\<lambda>(b, root).
         Inr (c\<lparr> d_content := make_content b now CONTENT_KEY maxFreshness (Component []) \<rparr>)))"

section \<open>Reading a certificate\<close>

definition validity_visit :: "(string \<Rightarrow> ptime result) \<Rightarrow> der_node \<Rightarrow> certificate \<Rightarrow> certificate result" where
  "validity_visit from_iso n c =
     (case n of
        DerLeaf t h p \<Rightarrow> Inr c
      | DerSeq h changed sz ns \<Rightarrow>
          bindE (visit_child from_iso any_time ns 0) (\<lambda>notBefore.
            bindE (visit_child from_iso any_time ns 1) (\<lambda>notAfter.
              Inr (c\<lparr> c_notBefore := notBefore, c_notAfter := notAfter \<rparr>))))"

definition subdescrypt_visit :: "(string \<Rightarrow> ptime result) \<Rightarrow> der_node \<Rightarrow> certificate \<Rightarrow> certificate result" where
  "subdescrypt_visit from_iso n c =
     (case n of
        DerLeaf t h p \<Rightarrow> Inr c
      | DerSeq h changed sz ns \<Rightarrow>
          bindE (visit_child from_iso any_oid ns 0) (\<lambda>oid.
            bindE (visit_child from_iso any_string ns 1) (\<lambda>val.
              Inr (addSubjectDescription \<lparr> sd_oid = oid, sd_value = val \<rparr> c))))"

definition extn_entry_visit :: "(string \<Rightarrow> ptime result) \<Rightarrow> der_node \<Rightarrow> certificate \<Rightarrow> certificate result" where
  "extn_entry_visit from_iso n c =
     (case n of
        DerLeaf t h p \<Rightarrow> Inr c
      | DerSeq h changed sz ns \<Rightarrow>
          bindE (visit_child from_iso any_oid ns 0) (\<lambda>oid.
            bindE (visit_child from_iso any_bool ns 1) (\<lambda>critical.
              bindE (visit_child from_iso any_ptr_blob ns 2) (\<lambda>val.
                Inr (addExtension \<lparr> ex_oid = oid, ex_critical = critical, ex_value = val \<rparr> c)))))"

text \<open>The loops of \<open>CertSubjectVisitor\<close> and \<open>CertExtensionVisitor\<close>.\<close>

fun visit_all :: "(der_node \<Rightarrow> certificate \<Rightarrow> certificate result) \<Rightarrow> der_node list \<Rightarrow> certificate \<Rightarrow> certificate result" where
  "visit_all v [] c = Inr c"
| "visit_all v (n # ns) c = bindE (v n c) (visit_all v ns)"

definition subject_visit :: "(string \<Rightarrow> ptime result) \<Rightarrow> der_node \<Rightarrow> certificate \<Rightarrow> certificate result" where
  "subject_visit from_iso n c =
     (case n of
        DerLeaf t h p \<Rightarrow> Inr c
      | DerSeq h changed sz ns \<Rightarrow> visit_all (subdescrypt_visit from_iso) ns c)"

definition extension_visit :: "(string \<Rightarrow> ptime result) \<Rightarrow> der_node \<Rightarrow> certificate \<Rightarrow> certificate result" where
  "extension_visit from_iso n c =
     (case n of
        DerLeaf t h p \<Rightarrow> Inr c
      | DerSeq h changed sz ns \<Rightarrow> visit_all (extn_entry_visit from_iso) ns c)"

definition certificate_visit :: "(string \<Rightarrow> ptime result) \<Rightarrow> der_node \<Rightarrow> certificate \<Rightarrow> certificate result" where
  "certificate_visit from_iso n c =
     (case n of
        DerLeaf t h p \<Rightarrow> Inr c
      | DerSeq h changed sz ns \<Rightarrow>
          bindE (bindE (child ns 0) (\<lambda>m. validity_visit from_iso m c)) (\<lambda>c.
            bindE (bindE (child ns 1) (\<lambda>m. subject_visit from_iso m c)) (\<lambda>c.
              bindE (bindE (child ns 2) (publickey_visit from_iso)) (\<lambda>key.
                let c = c\<lparr> c_key := key \<rparr>
                in if length ns > 3 then bindE (child ns 3) (\<lambda>m. extension_visit from_iso m c) else Inr c))))"

definition certificate_decode :: "(string \<Rightarrow> ptime result) \<Rightarrow> certificate \<Rightarrow> certificate result" where
  "certificate_decode from_iso c =
     bindE (der_parse (open_stream (m_content (d_content c)))) (\<lambda>(node, s). certificate_visit from_iso node c)"

text \<open>
  \<open>Certificate::Certificate (Data)\<close>: a copy of the packet with a new signature object, then decoded.
  A packet without signature would be dereferenced.
\<close>

definition certificate_of_data :: "(string \<Rightarrow> ptime result) \<Rightarrow> ndn_data \<Rightarrow> certificate result" where
  "certificate_of_data from_iso d =
     (case d_signature d of
        None \<Rightarrow> Inl UndefinedBehaviour
      | Some dataSig \<Rightarrow>
          bindE (copy_locator (m_keyLocator dataSig)) (\<lambda>loc.
            let newSig = \<lparr> m_signatureBits = m_signatureBits dataSig,
                           m_publisherKeyDigest = m_publisherKeyDigest dataSig, m_keyLocator = loc \<rparr>
            in certificate_decode from_iso
                 (ndn_data.extend
                   \<lparr> d_name = d_name d, d_signature = Some newSig, d_content = d_content d, d_wire = d_wire d \<rparr>
                   \<lparr> c_subjectList = [], c_notBefore = NotADateTime, c_notAfter = NotADateTime,
                     c_key = new_publickey, c_extnList = [] \<rparr>)))"

section \<open>The tree of a certificate\<close>

definition good :: "der_node \<Rightarrow> der_tree \<Rightarrow> bool" where
  "good n t \<longleftrightarrow> node_ok n \<and> cache_ok n \<and> erase n = t"

definition good_seq :: "der_node \<Rightarrow> der_tree list \<Rightarrow> bool" where
  "good_seq n ts \<longleftrightarrow> good n (Seq ts) \<and> (\<exists>h c sz ns. n = DerSeq h c sz ns)"

lemma good_new: "good_seq new_sequence []"
  unfolding good_seq_def good_def new_sequence_def by simp blast

lemma good_add: "good_seq n ts \<Longrightarrow> good c t \<Longrightarrow> good_seq (add_child n c) (ts @ [t])"
  by (auto simp: good_seq_def good_def add_child_def)

lemma good_seqD: "good_seq n ts \<Longrightarrow> good n (Seq ts)"
  by (simp add: good_seq_def)

lemma good_leaf: "\<exists>n. der_leaf t p = Inr n \<and> good n (Leaf t p)"
  by (simp add: der_leaf_def encodeHeader_of good_def)

lemma good_size: "good n t \<Longrightarrow> \<exists>k m. getSize n = Inr (k, m) \<and> good m t"
  using sizes_spec(1) [of n] by (auto simp: good_def)

lemma good_canonical: "good (canonical t) t"
proof (induction t)
  case (Seq ts)
  have "kids (map canonical ts) = concat (map tree_bytes ts)" by (simp add: kids_def comp_def)
  moreover have "\<not> flagged (canonical t)" for t by (cases t) (simp_all add: Let_def)
  ultimately show ?case using Seq by (auto simp: good_def Let_def intro: map_idI)
qed (simp add: good_def)

lemma good_encode: "good n t \<Longrightarrow> \<exists>m. der_encode n = Inr (tree_bytes t, m)"
  using encode_spec(1) [of n] by (auto simp: good_def)

lemma parse_tree_bytes:
  assumes "leaf_types t" and "length (tree_bytes t) < 2 ^ 31"
  shows "\<exists>s. der_parse (open_stream (tree_bytes t)) = Inr (canonical t, s)"
proof -
  have "2 * length (tree_bytes t) < 2 * remaining (open_stream (tree_bytes t)) + 1"
    by (simp add: remaining_def open_stream_def)
  then show ?thesis
    using tree_parses [OF assms] reads_open [of "tree_bytes t"] unfolding parses_def der_parse_def
    by (metis append_Nil2)
qed

definition subdescrypt_tree :: "subdescrypt \<Rightarrow> der_tree" where
  "subdescrypt_tree d =
     Seq [Leaf DER_OBJECT_IDENTIFIER (oid_payload (sd_oid d)), Leaf DER_PRINTABLE_STRING (string_bytes (sd_value d))]"

definition extension_tree :: "extension \<Rightarrow> der_tree" where
  "extension_tree e =
     Seq [Leaf DER_OBJECT_IDENTIFIER (oid_payload (ex_oid e)), Leaf DER_BOOLEAN [if ex_critical e then 0xFF else 0x00],
          Leaf DER_OCTET_STRING (ex_value e)]"

definition time_tree :: "(ptime \<Rightarrow> string) \<Rightarrow> ptime \<Rightarrow> der_tree" where
  "time_tree to_iso t = Leaf DER_GENERALIZED_TIME (string_bytes (take 8 (to_iso t) @ drop 9 (to_iso t) @ ''Z''))"

definition certificate_tree :: "(ptime \<Rightarrow> string) \<Rightarrow> der_tree \<Rightarrow> certificate \<Rightarrow> der_tree" where
  "certificate_tree to_iso k c =
     Seq ([Seq [time_tree to_iso (c_notBefore c), time_tree to_iso (c_notAfter c)],
           Seq (map subdescrypt_tree (c_subjectList c)), k] @
          (if c_extnList c \<noteq> [] then [Seq (map extension_tree (c_extnList c))] else []))"

text \<open>
  What Boost documents of the two conversions, for a time with whole seconds: the form
  \<open>YYYYMMDDTHHMMSS\<close>, and that it is read back.
\<close>

definition iso_time :: "(ptime \<Rightarrow> string) \<Rightarrow> (string \<Rightarrow> ptime result) \<Rightarrow> ptime \<Rightarrow> bool" where
  "iso_time to_iso from_iso t \<longleftrightarrow>
     length (to_iso t) = 15 \<and> takeWhile (\<lambda>c. c \<noteq> CHR ''T'') (to_iso t) = take 8 (to_iso t) \<and>
     to_iso t ! 8 = CHR ''T'' \<and> from_iso (to_iso t) = Inr t"

lemma der_oid_good: "oid_ok v \<Longrightarrow> \<exists>n. der_oid v = Inr n \<and> good n (Leaf DER_OBJECT_IDENTIFIER (oid_payload v))"
  by (simp add: der_oid_payload good_def)

lemma subdescrypt_good: "oid_ok (sd_oid d) \<Longrightarrow> \<exists>n. subdescrypt_toDER d = Inr n \<and> good n (subdescrypt_tree d)"
proof -
  assume "oid_ok (sd_oid d)"
  then obtain a where a: "der_oid (sd_oid d) = Inr a" "good a (Leaf DER_OBJECT_IDENTIFIER (oid_payload (sd_oid d)))"
    using der_oid_good by blast
  obtain b where b: "der_printable_string (sd_value d) = Inr b"
      "good b (Leaf DER_PRINTABLE_STRING (string_bytes (sd_value d)))"
    using good_leaf by (auto simp: der_printable_string_def)
  show ?thesis
    using a b good_add [OF good_add [OF good_new a(2)] b(2), THEN good_seqD]
    by (simp add: subdescrypt_toDER_def subdescrypt_tree_def)
qed

lemma extension_good: "oid_ok (ex_oid e) \<Longrightarrow> \<exists>n. extension_toDER e = Inr n \<and> good n (extension_tree e)"
proof -
  assume "oid_ok (ex_oid e)"
  then obtain a where a: "der_oid (ex_oid e) = Inr a" "good a (Leaf DER_OBJECT_IDENTIFIER (oid_payload (ex_oid e)))"
    using der_oid_good by blast
  obtain b where b: "der_bool (ex_critical e) = Inr b" "good b (Leaf DER_BOOLEAN [if ex_critical e then 0xFF else 0x00])"
    using good_leaf by (auto simp: der_bool_def)
  obtain d where d: "der_octet_string (ex_value e) = Inr d" "good d (Leaf DER_OCTET_STRING (ex_value e))"
    using good_leaf by (auto simp: der_octet_string_def)
  have "good (add_child (add_child (add_child new_sequence a) b) d) (extension_tree e)"
    using good_add [OF good_add [OF good_add [OF good_new a(2)] b(2)] d(2), THEN good_seqD]
    by (simp add: extension_tree_def)
  from good_size [OF this] obtain k m where
    "getSize (add_child (add_child (add_child new_sequence a) b) d) = Inr (k, m)" "good m (extension_tree e)" by blast
  then show ?thesis using a b d by (simp add: extension_toDER_def)
qed

lemma time_good:
  assumes "iso_time to_iso from_iso t"
  shows "\<exists>n. der_gtime to_iso t = Inr n \<and> good n (time_tree to_iso t)"
  using assms good_leaf by (simp add: der_gtime_def time_tree_def iso_time_def Let_def)

lemma add_all_good:
  "\<forall>x\<in>set xs. \<exists>n. toDER x = Inr n \<and> good n (tree x) \<Longrightarrow> good_seq root ts \<Longrightarrow>
    \<exists>n. add_all toDER root xs = Inr n \<and> good_seq n (ts @ map tree xs)"
proof (induction xs arbitrary: root ts)
  case (Cons x xs)
  then obtain n where n: "toDER x = Inr n" "good n (tree x)" by auto
  then have "good_seq (add_child root n) (ts @ [tree x])" using Cons.prems(2) by (intro good_add)
  then show ?case using Cons.IH [of "add_child root n" "ts @ [tree x]"] Cons.prems(1) n by auto
qed simp

definition certificate_ok :: "(ptime \<Rightarrow> string) \<Rightarrow> (string \<Rightarrow> ptime result) \<Rightarrow> certificate \<Rightarrow> bool" where
  "certificate_ok to_iso from_iso c \<longleftrightarrow>
     iso_time to_iso from_iso (c_notBefore c) \<and> iso_time to_iso from_iso (c_notAfter c) \<and>
     list_all (\<lambda>d. oid_ok (sd_oid d)) (c_subjectList c) \<and> list_all (\<lambda>e. oid_ok (ex_oid e)) (c_extnList c)"

lemma certificate_root_good:
  assumes "certificate_ok to_iso from_iso c" and key: "publickey_toDER (c_key c) = Inr (canonical k)"
  shows "\<exists>n. certificate_root to_iso c = Inr n \<and> good n (certificate_tree to_iso k c)"
proof -
  note ok = assms(1) [unfolded certificate_ok_def list_all_iff]
  obtain a where a: "der_gtime to_iso (c_notBefore c) = Inr a" "good a (time_tree to_iso (c_notBefore c))"
    using ok time_good by blast
  obtain b where b: "der_gtime to_iso (c_notAfter c) = Inr b" "good b (time_tree to_iso (c_notAfter c))"
    using ok time_good by blast
  have "\<forall>d\<in>set (c_subjectList c). \<exists>n. subdescrypt_toDER d = Inr n \<and> good n (subdescrypt_tree d)"
    using ok subdescrypt_good by blast
  from add_all_good [OF this good_new] obtain s where
    s: "add_all subdescrypt_toDER new_sequence (c_subjectList c) = Inr s" "good_seq s (map subdescrypt_tree (c_subjectList c))"
    by auto
  have "\<forall>e\<in>set (c_extnList c). \<exists>n. extension_toDER e = Inr n \<and> good n (extension_tree e)"
    using ok extension_good by blast
  from add_all_good [OF this good_new] obtain x where
    x: "add_all extension_toDER new_sequence (c_extnList c) = Inr x" "good_seq x (map extension_tree (c_extnList c))"
    by auto
  have v: "good_seq (add_child (add_child new_sequence a) b)
      [time_tree to_iso (c_notBefore c), time_tree to_iso (c_notAfter c)]"
    using good_add [OF good_add [OF good_new a(2)] b(2)] by simp
  have r: "good_seq (add_child (add_child (add_child new_sequence (add_child (add_child new_sequence a) b)) s) (canonical k))
      [Seq [time_tree to_iso (c_notBefore c), time_tree to_iso (c_notAfter c)],
       Seq (map subdescrypt_tree (c_subjectList c)), k]"
    using good_add [OF good_add [OF good_add [OF good_new good_seqD [OF v]] good_seqD [OF s(2)]] good_canonical [of k]] by simp
  show ?thesis
    using a b s x key good_seqD [OF r] good_seqD [OF good_add [OF r good_seqD [OF x(2)]]]
    by (simp add: certificate_root_def certificate_tree_def Let_def)
qed

section \<open>Reading the tree of a certificate\<close>

lemma chars_of_string_bytes [simp]: "map char_of_byte (string_bytes s) = s"
  by (simp add: string_bytes_def comp_def)

lemma leaf_values:
  "oid_ok v \<Longrightarrow> simple_visit from_iso (canonical (Leaf DER_OBJECT_IDENTIFIER (oid_payload v))) = Inr (AnyOid v)"
  "simple_visit from_iso (canonical (Leaf DER_PRINTABLE_STRING (string_bytes str))) = Inr (AnyString str)"
  "simple_visit from_iso (canonical (Leaf DER_BOOLEAN [if b then 0xFF else 0x00])) = Inr (AnyBool b)"
  "simple_visit from_iso (canonical (Leaf DER_OCTET_STRING bl)) = Inr (AnyPtrBlob bl)"
  by (simp_all add: simple_visit_def visit_oid_payload) (simp_all add: der_types)

lemma time_value:
  assumes "iso_time to_iso from_iso t"
  shows "simple_visit from_iso (canonical (time_tree to_iso t)) = Inr (AnyTime t)"
proof -
  let ?p = "to_iso t"
  have l: "length ?p = 15" and T: "?p ! 8 = CHR ''T''" and f: "from_iso ?p = Inr t"
    using assms by (simp_all add: iso_time_def)
  have "take 8 ?p @ ''T'' @ drop 9 ?p = ?p"
    using l T id_take_nth_drop [of 8 ?p] by simp
  then have "visit_gtime from_iso (string_bytes (take 8 ?p @ drop 9 ?p @ ''Z'')) = Inr t"
    using l f by (simp add: visit_gtime_def Let_def del: append_Cons)
  then show ?thesis by (simp add: simple_visit_def time_tree_def) (simp add: der_types)
qed

lemma visit_child_canonical:
  "i < length ts \<Longrightarrow> simple_visit from_iso (canonical (ts ! i)) = Inr v \<Longrightarrow>
    visit_child from_iso cast (map canonical ts) i = cast v"
  by (simp add: visit_child_def child_def)

lemma canonical_seq: "\<exists>h sz. canonical (Seq ts) = DerSeq h False sz (map canonical ts)"
  by (simp add: Let_def)

lemma subdescrypt_read:
  "oid_ok (sd_oid d) \<Longrightarrow> subdescrypt_visit from_iso (canonical (subdescrypt_tree d)) c = Inr (addSubjectDescription d c)"
  by (simp add: subdescrypt_visit_def subdescrypt_tree_def Let_def visit_child_def child_def leaf_values addSubjectDescription_def del: canonical.simps(1))

lemma extension_read:
  "oid_ok (ex_oid e) \<Longrightarrow> extn_entry_visit from_iso (canonical (extension_tree e)) c = Inr (addExtension e c)"
  by (simp add: extn_entry_visit_def extension_tree_def Let_def visit_child_def child_def leaf_values addExtension_def del: canonical.simps(1))

lemma subjects_read:
  "list_all (\<lambda>d. oid_ok (sd_oid d)) ds \<Longrightarrow>
    visit_all (subdescrypt_visit from_iso) (map canonical (map subdescrypt_tree ds)) c =
    Inr (c\<lparr> c_subjectList := c_subjectList c @ ds \<rparr>)"
  by (induction ds arbitrary: c) (simp_all add: subdescrypt_read addSubjectDescription_def)

lemma extensions_read:
  "list_all (\<lambda>e. oid_ok (ex_oid e)) es \<Longrightarrow>
    visit_all (extn_entry_visit from_iso) (map canonical (map extension_tree es)) c =
    Inr (c\<lparr> c_extnList := c_extnList c @ es \<rparr>)"
  by (induction es arbitrary: c) (simp_all add: extension_read addExtension_def)

lemma certificate_read:
  assumes "certificate_ok to_iso from_iso c" and "publickey_visit from_iso (canonical k) = Inr (c_key c)"
    and "c_subjectList d = []" and "c_extnList d = []"
  shows "certificate_visit from_iso (canonical (certificate_tree to_iso k c)) d =
    Inr (d\<lparr> c_subjectList := c_subjectList c, c_notBefore := c_notBefore c, c_notAfter := c_notAfter c,
            c_key := c_key c, c_extnList := c_extnList c \<rparr>)"
proof -
  note ok = assms(1) [unfolded certificate_ok_def]
  let ?v = "Seq [time_tree to_iso (c_notBefore c), time_tree to_iso (c_notAfter c)]"
    and ?s = "Seq (map subdescrypt_tree (c_subjectList c))" and ?x = "Seq (map extension_tree (c_extnList c))"
  have v: "validity_visit from_iso (canonical ?v) e = Inr (e\<lparr> c_notBefore := c_notBefore c, c_notAfter := c_notAfter c \<rparr>)" for e
    using ok time_value by (simp add: validity_visit_def visit_child_def child_def Let_def)
  have s: "subject_visit from_iso (canonical ?s) e = Inr (e\<lparr> c_subjectList := c_subjectList e @ c_subjectList c \<rparr>)" for e
    using ok subjects_read by (simp add: subject_visit_def Let_def)
  have x: "extension_visit from_iso (canonical ?x) e = Inr (e\<lparr> c_extnList := c_extnList e @ c_extnList c \<rparr>)" for e
    using ok extensions_read by (simp add: extension_visit_def Let_def)
  let ?ts = "[?v, ?s, k] @ (if c_extnList c \<noteq> [] then [?x] else [])"
  obtain h sz where n: "canonical (Seq ?ts) = DerSeq h False sz (map canonical ?ts)" using canonical_seq by blast
  have "certificate_visit from_iso (DerSeq h False sz (map canonical ?ts)) d =
    Inr (d\<lparr> c_subjectList := c_subjectList c, c_notBefore := c_notBefore c, c_notAfter := c_notAfter c,
            c_key := c_key c, c_extnList := c_extnList c \<rparr>)"
    using v s x assms(2-4) by (simp add: certificate_visit_def child_def Let_def del: canonical.simps(2))
  then show ?thesis unfolding certificate_tree_def n .
qed

lemma certificate_encode_tree:
  assumes "certificate_ok to_iso from_iso c" and "pk_key (c_key c) = tree_bytes k" and "leaf_types k"
    and "length (tree_bytes k) < 2 ^ 31"
  shows "certificate_encode to_iso now c =
    Inr (c\<lparr> d_content := make_content (tree_bytes (certificate_tree to_iso k c)) now CONTENT_KEY maxFreshness (Component []) \<rparr>)"
proof -
  have "publickey_toDER (c_key c) = Inr (canonical k)"
    using parse_tree_bytes [OF assms(3,4)] assms(2) by (auto simp: publickey_toDER_def)
  from certificate_root_good [OF assms(1) this] obtain n m where
    "certificate_root to_iso c = Inr n" "der_encode n = Inr (tree_bytes (certificate_tree to_iso k c), m)"
    using good_encode by blast
  then show ?thesis by (simp add: certificate_encode_def)
qed

section \<open>Identity certificates\<close>

record identity_certificate = certificate +
  c_publicKeyName :: name

text \<open>The loops over a name: from the end down to the component \<open>str\<close> (-1 when there is none), and
  from the front (the size when there is none).\<close>

fun scan_down :: "name \<Rightarrow> string \<Rightarrow> nat \<Rightarrow> int" where
  "scan_down n str 0 = -1"
| "scan_down n str (Suc i) = (if component_toUri (comps n ! i) = str then int i else scan_down n str i)"

definition scan_up :: "name \<Rightarrow> string \<Rightarrow> nat" where
  "scan_up n str = length (takeWhile (\<lambda>c. component_toUri c \<noteq> str) (comps n))"

definition isCorrectName :: "name \<Rightarrow> bool" where
  "isCorrectName n =
     (if scan_down n ''ID-CERT'' (name_size n) < 0 then False
      else if scan_up n ''KEY'' \<ge> name_size n then False else True)"

text \<open>\<open>setPublicKeyName\<close>: the name of the key; the index -1 converts to \<open>npos\<close>.\<close>

definition public_key_name :: "name \<Rightarrow> name result" where
  "public_key_name certificateName =
     bindE (getSubName certificateName 0 (word_of_int (scan_down certificateName ''ID-CERT'' (name_size certificateName))))
       (\<lambda>tmpName.
         let i = of_nat (scan_up tmpName ''KEY'')
         in bindE (getSubName tmpName 0 i) (\<lambda>a.
              bindE (getSubName tmpName (i + 1) (of_nat (name_size tmpName) - i - 1)) (\<lambda>b.
                Inr (append_name a b))))"

definition setPublicKeyName :: "identity_certificate \<Rightarrow> identity_certificate result" where
  "setPublicKeyName c = bindE (public_key_name (d_name c)) (\<lambda>n. Inr (c\<lparr> c_publicKeyName := n \<rparr>))"

definition identity_setName :: "name \<Rightarrow> identity_certificate \<Rightarrow> identity_certificate result" where
  "identity_setName n c =
     (if \<not> isCorrectName n then Inl SecException else setPublicKeyName (c\<lparr> d_name := n \<rparr>))"

definition identity_certificate_of_data :: "(string \<Rightarrow> ptime result) \<Rightarrow> ndn_data \<Rightarrow> identity_certificate result" where
  "identity_certificate_of_data from_iso d =
     bindE (certificate_of_data from_iso d) (\<lambda>c.
       if \<not> isCorrectName (d_name d) then Inl SecException
       else setPublicKeyName (certificate.extend c \<lparr> c_publicKeyName = Name [] \<rparr>))"

definition isIdentityCertificate :: "certificate \<Rightarrow> bool" where
  "isIdentityCertificate c \<longleftrightarrow> (if isCorrectName (d_name c) then True else False)"

definition certificateNameToPublicKeyName :: "name \<Rightarrow> bool \<Rightarrow> name result" where
  "certificateNameToPublicKeyName certName hasVersion =
     bindE (if hasVersion then getPrefix certName (of_nat (name_size certName) - 1) 0 else Inr certName) (\<lambda>baseName.
       let keyId = scan_up baseName ''KEY''
       in if keyId \<ge> name_size baseName then Inr (Name [])
          else bindE (getSubName baseName 0 (of_nat keyId)) (\<lambda>keyName.
                 bindE (getSubName baseName (of_nat (keyId + 1)) (of_nat (name_size baseName) - 2 - of_nat keyId)) (\<lambda>rest.
                   Inr (append_name keyName rest))))"

section \<open>Introduction certificates\<close>

datatype trust_class = NORMAL_PRODUCER | INTRODUCER | META_INTRODUCER

record intro_extension = extension +
  i_nameSpace :: name
  i_trustClass :: trust_class
  i_trustLevel :: int

fun trust_class_byte :: "trust_class \<Rightarrow> byte" where
  "trust_class_byte NORMAL_PRODUCER = 0"
| "trust_class_byte INTRODUCER = 1"
| "trust_class_byte META_INTRODUCER = 2"

definition encodeValue :: "intro_extension \<Rightarrow> intro_extension result" where
  "encodeValue e =
     bindE (der_octet_string (string_bytes (name_toUri (i_nameSpace e)))) (\<lambda>nameSpace.
       bindE (der_integer [trust_class_byte (i_trustClass e)]) (\<lambda>trustClass.
         bindE (der_integer [of_int (i_trustLevel e)]) (\<lambda>trustLevel.
           bindE (der_encode (add_child (add_child (add_child new_sequence nameSpace) trustClass) trustLevel)) (\<lambda>(b, root).
             Inr (e\<lparr> ex_value := ex_value e @ b \<rparr>)))))"

definition INTRO_OID :: string where "INTRO_OID = ''1.3.6.1.5.32.1''"

definition new_intro_extension :: "name \<Rightarrow> trust_class \<Rightarrow> int \<Rightarrow> intro_extension result" where
  "new_intro_extension nameSpace trustClass trustLevel =
     bindE (extension_of_string INTRO_OID True []) (\<lambda>e.
       if trustLevel > 100 \<or> trustLevel < 0 then Inl SecException
       else encodeValue (extension.extend e
              \<lparr> i_nameSpace = nameSpace, i_trustClass = trustClass, i_trustLevel = trustLevel \<rparr>))"

text \<open>
  \<open>decodeValue\<close>.  The two references to \<open>Blob\<close> are bound to the contents of a temporary that is
  gone when they are read, so no call gets behind the first of them.
\<close>

definition decodeValue :: "(string \<Rightarrow> ptime result) \<Rightarrow> blob \<Rightarrow> intro_extension result" where
  "decodeValue from_iso val =
     bindE (der_parse (open_stream val)) (\<lambda>(root, s).
       case root of
         DerLeaf t h p \<Rightarrow> Inl UndefinedBehaviour
       | DerSeq h changed sz ns \<Rightarrow>
           if length ns \<noteq> 3 then Inl SecException
           else bindE (visit_child from_iso any_string ns 0) (\<lambda>str.
                  bindE (name_of_uri str) (\<lambda>nameSpace.
                    bindE (visit_child from_iso any_blob ns 1) (\<lambda>trustClassBlob. Inl UndefinedBehaviour))))"

definition tag_of_trust_class :: "trust_class \<Rightarrow> string" where
  "tag_of_trust_class t =
     (case t of NORMAL_PRODUCER \<Rightarrow> ''NORMAL-PRODUCER-TAG'' | INTRODUCER \<Rightarrow> ''INTRODUCER-TAG''
      | META_INTRODUCER \<Rightarrow> ''META-INTRODUCER-TAG'')"

text \<open>\<open>IntroCertificate\<close> at \<open>secs\<close> seconds since the epoch; the extension is sliced to its base.\<close>

definition new_intro_certificate ::
    "int \<Rightarrow> name \<Rightarrow> ptime \<Rightarrow> ptime \<Rightarrow> publickey \<Rightarrow> name \<Rightarrow> trust_class \<Rightarrow> int \<Rightarrow> certificate result" where
  "new_intro_certificate secs keyName notBefore notAfter key nameSpace trustClass trustLevel =
     bindE (append_string nameSpace (tag_of_trust_class trustClass)) (\<lambda>n.
       bindE (append_string (append_name n keyName) ''INTRO-CERT'') (\<lambda>n.
         bindE (append_string n (print_int secs)) (\<lambda>n.
           bindE (subdescrypt_of_string ''2.5.4.41'' (name_toUri keyName)) (\<lambda>d.
             bindE (new_intro_extension nameSpace trustClass trustLevel) (\<lambda>e.
               Inr (addExtension (extension.truncate e) (addSubjectDescription d
                 (new_certificate\<lparr> d_name := n, c_notBefore := notBefore, c_notAfter := notAfter, c_key := key \<rparr>))))))))"

definition intro_certificate_of_data :: "(string \<Rightarrow> ptime result) \<Rightarrow> ndn_data \<Rightarrow> certificate result" where
  "intro_certificate_of_data from_iso d =
     bindE (certificate_of_data from_iso d) (\<lambda>c.
       if list_ex (\<lambda>e. oid_toString (ex_oid e) = INTRO_OID) (c_extnList c) then Inr c else Inl SecException)"

section \<open>Key names\<close>

lemma sub_name_nat:
  assumes "name_wf n" "name_size n < 2 ^ 31" "a + b \<le> name_size n"
  shows "getSubName n (of_nat a) (of_nat b) = Inr (Name (take b (drop a (comps n))))"
proof -
  have "unat (of_nat a :: uint64) = a" "unat (of_nat b :: uint64) = b"
    using assms by (simp_all add: unat_of_nat)
  then show ?thesis using getSubName_in_range [OF assms(1,2), of "of_nat a" "of_nat b"] assms(3) by simp
qed

lemma append_range_wf: "\<forall>c\<in>set cs. bytes c \<noteq> [] \<Longrightarrow> append_range n cs = Name (comps n @ cs)"
  unfolding append_range_def
  by (induction cs arbitrary: n) (simp_all add: append_component_def)

lemma scan_down_found:
  assumes "comps n = pre @ c # post" and "component_toUri c = str" and "\<forall>d\<in>set post. component_toUri d \<noteq> str"
  shows "scan_down n str (name_size n) = int (length pre)"
proof -
  have "scan_down n str (length pre + 1 + k) = int (length pre)" if "k \<le> length post" for k
    using that
  proof (induction k)
    case (Suc k)
    have "comps n ! (length pre + 1 + k) = post ! k" using assms(1) by (simp add: nth_append)
    moreover have "post ! k \<in> set post" using Suc.prems by simp
    ultimately show ?case using Suc assms(3) by simp
  qed (use assms in simp)
  from this [of "length post"] show ?thesis using assms(1) by (simp add: name_size_def)
qed

lemma scan_up_found:
  "comps n = pre @ c # post \<Longrightarrow> component_toUri c = str \<Longrightarrow> \<forall>d\<in>set pre. component_toUri d \<noteq> str \<Longrightarrow>
    scan_up n str = length pre"
  by (simp add: scan_up_def takeWhile_append2)

lemma certificate_of_content:
  assumes "certificate_ok to_iso from_iso c" and "leaf_types k"
    and "publickey_visit from_iso (canonical k) = Inr (c_key c)"
    and "m_content (d_content d) = tree_bytes (certificate_tree to_iso k c)" and "d_signature d = Some sig"
    and "length (m_content (d_content d)) < 2 ^ 31"
  shows "certificate_of_data from_iso d =
    Inr (ndn_data.extend (ndn_data.truncate d) \<lparr> c_subjectList = c_subjectList c, c_notBefore = c_notBefore c, c_notAfter = c_notAfter c,
      c_key = c_key c, c_extnList = c_extnList c \<rparr>)"
proof -
  have t: "leaf_types (certificate_tree to_iso k c)"
    using assms(2)
    by (auto simp: certificate_tree_def subdescrypt_tree_def extension_tree_def time_tree_def leaf_type_def)
  show ?thesis
    using parse_tree_bytes [OF t] certificate_read [OF assms(1,3)] assms(4-6)
    by (auto simp: certificate_of_data_def certificate_decode_def copy_locator_same ndn_data.defs)
qed

section \<open>Properties\<close>

text \<open>C16. Decoding the packet of an encoded certificate gives back the certificate, with its validity,
  subject descriptions, public key and extensions in order.  The times have whole seconds and Boost
  reads back the form it writes; the object identifiers are in the range that DER can encode; the key
  is the encoding of a DER tree from which the same key is read; the sizes are below 2 GiB.\<close>

theorem certificate_roundtrip:
  assumes "certificate_ok to_iso from_iso c" and "d_signature c = Some sig"
    and "pk_key (c_key c) = tree_bytes k" and "leaf_types k" and "length (tree_bytes k) < 2 ^ 31"
    and "publickey_visit from_iso (canonical k) = Inr (c_key c)"
  shows "\<exists>c'. certificate_encode to_iso now c = Inr c' \<and>
    (length (m_content (d_content c')) < 2 ^ 31 \<longrightarrow>
       certificate_of_data from_iso (ndn_data.truncate c') = Inr c')"
proof -
  let ?bs = "tree_bytes (certificate_tree to_iso k c)"
  let ?c = "c\<lparr> d_content := make_content ?bs now CONTENT_KEY maxFreshness (Component []) \<rparr>"
  have e: "certificate_encode to_iso now c = Inr ?c" using certificate_encode_tree [OF assms(1,3,4,5)] .
  have "certificate_of_data from_iso (ndn_data.truncate ?c) = Inr ?c" if "length ?bs < 2 ^ 31"
    using certificate_of_content [OF assms(1,4,6), of "ndn_data.truncate ?c" sig] assms(2) that
    by (simp add: make_content_def ndn_data.defs)
  then show ?thesis using e by (auto simp: make_content_def)
qed

definition example_key :: der_tree where
  "example_key = Seq [Seq [Leaf DER_OBJECT_IDENTIFIER (oid_payload [1, 2, 840])], Leaf DER_BIT_STRING [0, 7]]"

definition example_certificate :: certificate where
  "example_certificate =
     new_certificate\<lparr> d_signature := Some new_signature, c_notBefore := PTime 0, c_notAfter := PTime 0,
       c_subjectList := [\<lparr> sd_oid = [2, 5, 4, 41], sd_value = ''a'' \<rparr>],
       c_key := \<lparr> pk_algorithm = [1, 2, 840], pk_key = tree_bytes example_key \<rparr> \<rparr>"

definition example_to_iso :: "ptime \<Rightarrow> string" where "example_to_iso t = ''20130101T000000''"

definition example_from_iso :: "string \<Rightarrow> ptime result" where "example_from_iso s = Inr (PTime 0)"

lemma example_facts:
  "certificate_ok example_to_iso example_from_iso example_certificate" (is ?ok)
  "d_signature example_certificate = Some new_signature" (is ?sig)
  "pk_key (c_key example_certificate) = tree_bytes example_key" (is ?key)
  "leaf_types example_key" (is ?lt)
  "length (tree_bytes example_key) < 2 ^ 31" (is ?l)
  "publickey_visit example_from_iso (canonical example_key) = Inr (c_key example_certificate)" (is ?v)
  "length (tree_bytes (certificate_tree example_to_iso example_key example_certificate)) < 2 ^ 31" (is ?cb)
  "tree_bytes (certificate_tree example_to_iso example_key example_certificate) \<noteq> []" (is ?ne)
proof -
  show ?ok
    by (simp add: example_certificate_def certificate_ok_def iso_time_def oid_ok_def new_certificate_def ndn_data.defs
      example_to_iso_def example_from_iso_def)
  show ?sig ?key by (simp_all add: example_certificate_def)
  show ?lt by (simp add: example_key_def leaf_type_def)
  have p: "oid_payload [1, 2, 840] = [42, 134, 72]"
    by (simp add: oid_payload_def encode128_def base128_snoc base128_append [of _ "[_]"] base128_loop.simps [of 0])
  have q: "oid_payload [2, 5, 4, 41] = [85, 4, 41]"
    by (simp add: oid_payload_def encode128_def)
  have kb: "tree_bytes example_key = [48, 11, 48, 5, 6, 3, 42, 134, 72, 3, 2, 0, 7]"
    by (simp add: example_key_def tree_bytes.simps(2) header_of_def p der_types)
  show ?v
    using leaf_values(1) [of "[1, 2, 840]" example_from_iso]
    by (simp add: example_key_def publickey_visit_def child_def visit_child_def oid_ok_def example_certificate_def
      canonical_raw [symmetric] Let_def)
  show ?l by (simp add: kb)
  show ?cb ?ne
    by (simp_all add: certificate_tree_def time_tree_def subdescrypt_tree_def string_bytes_def tree_bytes.simps(2) header_of_def
      kb q example_certificate_def new_certificate_def ndn_data.defs example_to_iso_def)
qed

theorem certificate_roundtrip_witness:
  "\<exists>c'. certificate_encode example_to_iso 5 example_certificate = Inr c' \<and>
     certificate_of_data example_from_iso (ndn_data.truncate c') = Inr c'"
proof -
  obtain c' where c': "certificate_encode example_to_iso 5 example_certificate = Inr c'"
      "length (m_content (d_content c')) < 2 ^ 31 \<longrightarrow> certificate_of_data example_from_iso (ndn_data.truncate c') = Inr c'"
    using certificate_roundtrip [OF example_facts(1-6)] by blast
  moreover have "length (m_content (d_content c')) < 2 ^ 31"
    using c'(1) example_facts(7) certificate_encode_tree [OF example_facts(1,3,4,5), of 5] by (auto simp: make_content_def)
  ultimately show ?thesis by blast
qed

lemma key_name_found:
  assumes "name_wf n" and "name_size n < 2 ^ 31"
    and "comps n = pre @ [k] @ mid @ [i, ver]"
    and "component_toUri k = ''KEY''" and "component_toUri i = ''ID-CERT''"
    and "\<forall>c\<in>set pre. component_toUri c \<noteq> ''KEY''" and "component_toUri ver \<noteq> ''ID-CERT''"
  shows "isCorrectName n \<and> public_key_name n = Inr (Name (pre @ mid)) \<and>
    certificateNameToPublicKeyName n True = Inr (Name (pre @ mid))"
proof -
  let ?t = "Name (pre @ k # mid)" and ?b = "Name (pre @ k # mid @ [i])"
  have wf: "\<forall>c\<in>set pre \<union> set mid \<union> {k, i, ver}. bytes c \<noteq> []" using assms(1,3) by (auto simp: name_wf_def)
  have sz: "name_size n = length pre + length mid + 3" using assms(3) by (simp add: name_size_def)
  have down: "scan_down n ''ID-CERT'' (name_size n) = int (length (pre @ k # mid))"
    using assms by (intro scan_down_found) auto
  have up: "scan_up n ''KEY'' = length pre" "scan_up ?t ''KEY'' = length pre" "scan_up ?b ''KEY'' = length pre"
    using assms by (auto intro!: scan_up_found)
  have tw: "name_wf ?t" "name_size ?t < 2 ^ 31" "name_wf ?b" "name_size ?b < 2 ^ 31"
    using wf assms(2) sz by (auto simp: name_wf_def name_size_def)
  have t: "getSubName n 0 (of_nat (length (pre @ k # mid))) = Inr ?t"
    using sub_name_nat [OF assms(1,2), of 0 "length (pre @ k # mid)"] sz assms(3) by simp
  have b: "getPrefix n (of_nat (name_size n) - 1) 0 = Inr ?b"
    using sub_name_nat [OF assms(1,2), of 0 "length (pre @ k # mid @ [i])"] sz assms(3)
    by (simp add: getPrefix_def)
  have app: "append_name (Name pre) (Name mid) = Name (pre @ mid)"
    using wf append_range_wf [of mid "Name pre"] by (simp add: append_name_def)
  have t1: "getSubName ?t 0 (of_nat (length pre)) = Inr (Name pre)" "getSubName ?b 0 (of_nat (length pre)) = Inr (Name pre)"
    using sub_name_nat [OF tw(1,2), of 0 "length pre"] sub_name_nat [OF tw(3,4), of 0 "length pre"] by (simp_all add: name_size_def)
  have t2: "getSubName ?t (of_nat (length pre) + 1) (of_nat (length mid)) = Inr (Name mid)"
      "getSubName ?b (of_nat (length pre) + 1) (of_nat (length mid)) = Inr (Name mid)"
    using sub_name_nat [OF tw(1,2), of "length pre + 1" "length mid"] sub_name_nat [OF tw(3,4), of "length pre + 1" "length mid"]
    by (simp_all add: name_size_def add.commute)
  have w: "of_nat (name_size ?t) - of_nat (length pre) - 1 = (of_nat (length mid) :: uint64)"
      "of_nat (name_size ?b) - 2 - of_nat (length pre) = (of_nat (length mid) :: uint64)"
    by (simp_all add: name_size_def)
  have "isCorrectName n" using down up sz by (simp add: isCorrectName_def)
  moreover have "public_key_name n = Inr (Name (pre @ mid))"
    unfolding public_key_name_def down using t t1(1) t2(1) w(1) app up(2) by (simp add: Let_def)
  moreover have "certificateNameToPublicKeyName n True = Inr (Name (pre @ mid))"
    unfolding certificateNameToPublicKeyName_def
    using b t1(2) t2(2) w(2) app up(3) by (simp add: Let_def name_size_def add.commute)
  ultimately show ?thesis by blast
qed

text \<open>The two ways to find the name of the key of a certificate agree: for a certificate name with
  a \<open>KEY\<close> component, later an \<open>ID-CERT\<close> component and a version, both \<open>IdentityCertificate::setName\<close> and
  \<open>certificateNameToPublicKeyName\<close> give the name without these three components.\<close>

theorem identity_key_name:
  assumes "name_wf n" and "name_size n < 2 ^ 31"
    and "comps n = pre @ [k] @ mid @ [i, ver]"
    and "component_toUri k = ''KEY''" and "component_toUri i = ''ID-CERT''"
    and "\<forall>c\<in>set pre. component_toUri c \<noteq> ''KEY''" and "component_toUri ver \<noteq> ''ID-CERT''"
  shows "identity_setName n c = Inr (c\<lparr> d_name := n, c_publicKeyName := Name (pre @ mid) \<rparr>) \<and>
    certificateNameToPublicKeyName n True = Inr (Name (pre @ mid))"
  using key_name_found [OF assms] by (simp add: identity_setName_def setPublicKeyName_def)

theorem identity_key_name_witness:
  "certificateNameToPublicKeyName
     (Name [Component [97], Component (string_bytes ''KEY''), Component [98], Component (string_bytes ''ID-CERT''), Component [1]]) True =
   Inr (Name [Component [97], Component [98]])"
proof -
  let ?k = "Component (string_bytes ''KEY'')" and ?i = "Component (string_bytes ''ID-CERT'')"
  let ?n = "Name [Component [97], ?k, Component [98], ?i, Component [1]]"
  have u: "component_toUri ?k = ''KEY''" "component_toUri ?i = ''ID-CERT''"
      "component_toUri (Component [97]) \<noteq> ''KEY''" "component_toUri (Component [1]) \<noteq> ''ID-CERT''"
    by code_simp+
  have "name_wf ?n" "name_size ?n < 2 ^ 31" by (simp_all add: name_wf_def name_size_def string_bytes_def)
  from identity_key_name [OF this, of "[Component [97]]" ?k "[Component [98]]" ?i "Component [1]"] u
  show ?thesis by simp
qed

text \<open>
  An introduction extension cannot be read back: its name is written as an octet string, of which the
  visitor makes a \<open>Ptr<Blob>\<close>, but it is read as a \<open>string\<close>.
\<close>

lemma intro_extension_undecodable:
  assumes "new_intro_extension nameSpace trustClass trustLevel = Inr e" and "length (ex_value e) < 2 ^ 31"
  shows "decodeValue from_iso (ex_value e) = Inl BadAnyCast"
proof -
  let ?t = "Seq [Leaf DER_OCTET_STRING (string_bytes (name_toUri nameSpace)),
    Leaf DER_INTEGER [trust_class_byte trustClass], Leaf DER_INTEGER [of_int trustLevel]]"
  obtain a b d where n: "der_leaf DER_OCTET_STRING (string_bytes (name_toUri nameSpace)) = Inr a"
      "der_leaf DER_INTEGER [trust_class_byte trustClass] = Inr b" "der_leaf DER_INTEGER [of_int trustLevel] = Inr d"
      "good a (Leaf DER_OCTET_STRING (string_bytes (name_toUri nameSpace)))"
      "good b (Leaf DER_INTEGER [trust_class_byte trustClass])" "good d (Leaf DER_INTEGER [of_int trustLevel])"
    using good_leaf by metis
  obtain m where "der_encode (add_child (add_child (add_child new_sequence a) b) d) = Inr (tree_bytes ?t, m)"
    using good_encode [OF good_seqD [OF good_add [OF good_add [OF good_add [OF good_new n(4)] n(5)] n(6)]]] by auto
  then have v: "ex_value e = tree_bytes ?t"
    using assms(1) n(1-3)
    by (auto simp: new_intro_extension_def encodeValue_def der_octet_string_def der_integer_def extension_of_string_def
      bindE_Inr_iff extension.defs split: if_splits)
  have "leaf_types ?t" by (simp add: leaf_type_def)
  from parse_tree_bytes [OF this] obtain s where "der_parse (open_stream (ex_value e)) = Inr (canonical ?t, s)"
    using assms(2) v by auto
  then show ?thesis
    by (simp add: decodeValue_def Let_def visit_child_def child_def leaf_values del: canonical.simps(1))
qed

end
