(* ===== verification/Key_Store.thy ===== *)
theory Key_Store
  imports Ndn_Certificate
begin

text \<open>
  \<open>ndn.cxx/security/identity/simplekey-store.cc\<close>: private, public and symmetric keys in files whose names are
  digests of the key names.  The file system is a map from paths to contents.  Crypto++ is the record
  \<open>crypto\<close> of its functions: SHA-256 with Base64, the Base64 and hexadecimal encodings, RSA key generation,
  signing and encryption and AES in CFB mode; \<open>None\<close> stands for a \<open>CryptoPP::Exception\<close>.  A random pool is
  the number that seeds it.
\<close>

section \<open>Files\<close>

datatype key_class = KEY_CLASS_PUBLIC | KEY_CLASS_PRIVATE | KEY_CLASS_SYMMETRIC

datatype key_type = KEY_TYPE_RSA | KEY_TYPE_AES

record crypto =
  hash64 :: "string \<Rightarrow> string"
  base64_encode :: "blob \<Rightarrow> blob"
  base64_decode :: "blob \<Rightarrow> blob"
  hex_encode :: "blob \<Rightarrow> blob"
  hex_decode :: "blob \<Rightarrow> blob"
  random_block :: "nat \<Rightarrow> nat \<Rightarrow> blob"
  rsa_generate :: "nat \<Rightarrow> int \<Rightarrow> blob \<times> blob"
  rsa_sign :: "blob \<Rightarrow> blob \<Rightarrow> blob option"
  rsa_encrypt :: "nat \<Rightarrow> blob \<Rightarrow> blob \<Rightarrow> blob option"
  rsa_decrypt :: "blob \<Rightarrow> blob \<Rightarrow> blob option"
  aes_cfb_encrypt :: "blob \<Rightarrow> blob \<Rightarrow> blob \<Rightarrow> blob option"
  aes_cfb_decrypt :: "blob \<Rightarrow> blob \<Rightarrow> blob \<Rightarrow> blob option"

record key_store =
  ks_path :: string
  ks_files :: "string \<Rightarrow> blob option"

text \<open>\<open>m_keystorePath / file\<close>.\<close>

definition path_join :: "string \<Rightarrow> string \<Rightarrow> string" where
  "path_join dir file = (if dir = [] \<or> last dir = CHR ''/'' then dir @ file else dir @ ''/'' @ file)"

text \<open>The constructor; \<open>home\<close> is the value of the environment variable.\<close>

definition new_key_store :: "string \<Rightarrow> string \<Rightarrow> (string \<Rightarrow> blob option) \<Rightarrow> key_store" where
  "new_key_store home dir files =
     \<lparr> ks_path = (if dir = [] then path_join (path_join home ''.ndnx'') ''ndnsec-keys'' else dir), ks_files = files \<rparr>"

definition trim :: "string \<Rightarrow> string" where
  "trim s = rev (dropWhile is_space (rev (dropWhile is_space s)))"

definition nameTransform :: "crypto \<Rightarrow> string \<Rightarrow> string \<Rightarrow> key_store \<Rightarrow> string" where
  "nameTransform cr keyName ext ks =
     (let digest = map (\<lambda>ch. if ch = CHR ''/'' then CHR ''%'' else ch) (trim (hash64 cr keyName))
      in path_join (ks_path ks) (digest @ ext))"

definition write_file :: "string \<Rightarrow> blob \<Rightarrow> key_store \<Rightarrow> key_store" where
  "write_file file b ks = ks\<lparr> ks_files := (ks_files ks)(file \<mapsto> b) \<rparr>"

definition maintainMapping :: "string \<Rightarrow> string \<Rightarrow> key_store \<Rightarrow> key_store" where
  "maintainMapping str1 str2 ks =
     (let dirFile = path_join (ks_path ks) ''mapping.txt'';
          old = (case ks_files ks dirFile of None \<Rightarrow> [] | Some b \<Rightarrow> b)
      in write_file dirFile (old @ string_bytes (str1 @ '' '' @ str2)) ks)"

definition readSymetricKey :: "string \<Rightarrow> key_store \<Rightarrow> blob option" where
  "readSymetricKey file ks = ks_files ks file"

text \<open>The contents are written as a C string, up to the first NUL.\<close>

definition writeSymetricKey :: "string \<Rightarrow> blob \<Rightarrow> key_store \<Rightarrow> key_store" where
  "writeSymetricKey file b ks = write_file file (takeWhile (\<lambda>c. c \<noteq> 0) b) ks"

section \<open>Operations\<close>

definition key_class_ext :: "key_class \<Rightarrow> string" where
  "key_class_ext keyClass =
     (case keyClass of KEY_CLASS_PUBLIC \<Rightarrow> ''.pub'' | KEY_CLASS_PRIVATE \<Rightarrow> ''.pri'' | KEY_CLASS_SYMMETRIC \<Rightarrow> ''.key'')"

definition store_doesKeyExist :: "crypto \<Rightarrow> name \<Rightarrow> key_class \<Rightarrow> key_store \<Rightarrow> bool" where
  "store_doesKeyExist cr keyName keyClass ks \<longleftrightarrow>
     ks_files ks (nameTransform cr (name_toUri keyName) (key_class_ext keyClass) ks) \<noteq> None"

definition generateKeyPair :: "crypto \<Rightarrow> nat \<Rightarrow> name \<Rightarrow> key_type \<Rightarrow> int \<Rightarrow> (key_store, unit) action" where
  "generateKeyPair cr seed keyName keyType keySize =
     bindA (readA (store_doesKeyExist cr keyName KEY_CLASS_PUBLIC)) (\<lambda>pub.
       if pub then throwA SecException
       else bindA (readA (store_doesKeyExist cr keyName KEY_CLASS_PRIVATE)) (\<lambda>pri.
         if pri then throwA SecException
         else if keyType = KEY_TYPE_RSA then
           writeA (\<lambda>ks.
             let keyURI = name_toUri keyName;
                 (privkey, pubkey) = rsa_generate cr seed keySize;
                 ks = maintainMapping keyURI (nameTransform cr keyURI '''' ks) ks;
                 ks = write_file (nameTransform cr keyURI ''.pri'' ks) (base64_encode cr privkey) ks
             in write_file (nameTransform cr keyURI ''.pub'' ks) (base64_encode cr pubkey) ks)
         else retA ()))"

definition store_getPublickey ::
    "crypto \<Rightarrow> (string \<Rightarrow> ptime result) \<Rightarrow> name \<Rightarrow> key_store \<Rightarrow> publickey result" where
  "store_getPublickey cr from_iso keyName ks =
     (if \<not> store_doesKeyExist cr keyName KEY_CLASS_PUBLIC ks then Inl SecException
      else case ks_files ks (nameTransform cr (name_toUri keyName) ''.pub'' ks) of
             None \<Rightarrow> Inl UndefinedBehaviour
           | Some encoded \<Rightarrow> publickey_fromDER from_iso (base64_decode cr encoded))"

text \<open>Signing; \<open>None\<close> is the null pointer.\<close>

definition store_sign :: "crypto \<Rightarrow> blob \<Rightarrow> name \<Rightarrow> digest_algorithm \<Rightarrow> key_store \<Rightarrow> blob option result" where
  "store_sign cr pData keyName digestAlgo ks =
     (if \<not> store_doesKeyExist cr keyName KEY_CLASS_PRIVATE ks then Inl SecException
      else case ks_files ks (nameTransform cr (name_toUri keyName) ''.pri'' ks) of
             None \<Rightarrow> Inr None
           | Some encoded \<Rightarrow>
               if digestAlgo = DIGEST_SHA256 then Inr (rsa_sign cr (base64_decode cr encoded) pData) else Inr None)"

text \<open>
  The symmetric modes set the key with the length \<open>sizeof (decoded.c_str ())\<close>, the size of a pointer, and
  decryption works on a local string that is never filled.
\<close>

definition POINTER_SIZE :: nat where "POINTER_SIZE = 8"

definition AES_BLOCKSIZE :: nat where "AES_BLOCKSIZE = 16"

definition decrypt :: "crypto \<Rightarrow> nat \<Rightarrow> name \<Rightarrow> blob \<Rightarrow> bool \<Rightarrow> key_store \<Rightarrow> blob option result" where
  "decrypt cr seed keyName pData symmetric ks =
     (let keyURI = name_toUri keyName in
      if \<not> symmetric then
        (if \<not> store_doesKeyExist cr keyName KEY_CLASS_PRIVATE ks then Inl SecException
         else case ks_files ks (nameTransform cr keyURI ''.pri'' ks) of
                None \<Rightarrow> Inr None
              | Some encoded \<Rightarrow> Inr (rsa_decrypt cr (base64_decode cr encoded) pData))
      else if \<not> store_doesKeyExist cr keyName KEY_CLASS_SYMMETRIC ks then Inl SecException
      else case readSymetricKey (nameTransform cr keyURI ''.key'' ks) ks of
             None \<Rightarrow> Inl UndefinedBehaviour
           | Some key \<Rightarrow>
               Inr (aes_cfb_decrypt cr (take POINTER_SIZE (hex_decode cr key)) (random_block cr seed AES_BLOCKSIZE) []))"

definition encrypt :: "crypto \<Rightarrow> nat \<Rightarrow> name \<Rightarrow> blob \<Rightarrow> bool \<Rightarrow> key_store \<Rightarrow> blob option result" where
  "encrypt cr seed keyName pData symmetric ks =
     (let keyURI = name_toUri keyName in
      if \<not> symmetric then
        (if \<not> store_doesKeyExist cr keyName KEY_CLASS_PUBLIC ks then Inl SecException
         else case ks_files ks (nameTransform cr keyURI ''.pub'' ks) of
                None \<Rightarrow> Inr None
              | Some encoded \<Rightarrow> Inr (rsa_encrypt cr seed (base64_decode cr encoded) pData))
      else if \<not> store_doesKeyExist cr keyName KEY_CLASS_SYMMETRIC ks then Inl SecException
      else case readSymetricKey (nameTransform cr keyURI ''.key'' ks) ks of
             None \<Rightarrow> Inl UndefinedBehaviour
           | Some key \<Rightarrow>
               Inr (aes_cfb_encrypt cr (take POINTER_SIZE (hex_decode cr key)) (random_block cr seed AES_BLOCKSIZE) pData))"

definition generateKey :: "crypto \<Rightarrow> nat \<Rightarrow> name \<Rightarrow> key_type \<Rightarrow> nat \<Rightarrow> (key_store, unit) action" where
  "generateKey cr seed keyName keyType keySize =
     bindA (readA (store_doesKeyExist cr keyName KEY_CLASS_SYMMETRIC)) (\<lambda>ex.
       if ex then throwA SecException
       else if keyType = KEY_TYPE_AES then
         writeA (\<lambda>ks.
           let keyURI = name_toUri keyName;
               encoded = hex_encode cr (random_block cr seed keySize);
               ks = maintainMapping keyURI (nameTransform cr keyURI '''' ks) ks
           in writeSymetricKey (nameTransform cr keyURI ''.key'' ks) encoded ks)
       else retA ())"

section \<open>Paths\<close>

lemma path_join_last: "f \<noteq> [] \<Longrightarrow> last (path_join d f) = last f"
  by (simp add: path_join_def)

lemma nameTransform_last: "ext \<noteq> [] \<Longrightarrow> last (nameTransform cr u ext ks) = last ext"
  by (simp add: nameTransform_def Let_def path_join_last)

text \<open>Files of different kinds have different paths, because the last characters of their names differ.\<close>

lemma paths_differ:
  "nameTransform cr u ''.pub'' ks \<noteq> nameTransform cr v ''.pri'' ks'"
  "nameTransform cr u ''.pub'' ks \<noteq> nameTransform cr v ''.key'' ks'"
  "nameTransform cr u ''.pri'' ks \<noteq> nameTransform cr v ''.key'' ks'"
  "nameTransform cr u ''.pub'' ks \<noteq> path_join d ''mapping.txt''"
  "nameTransform cr u ''.pri'' ks \<noteq> path_join d ''mapping.txt''"
  "nameTransform cr u ''.key'' ks \<noteq> path_join d ''mapping.txt''"
proof -
  note l = nameTransform_last path_join_last
  have e: "s \<noteq> t" if "last s \<noteq> last t" for s t :: string using that by auto
  show "nameTransform cr u ''.pub'' ks \<noteq> nameTransform cr v ''.pri'' ks'"
    "nameTransform cr u ''.pub'' ks \<noteq> nameTransform cr v ''.key'' ks'"
    "nameTransform cr u ''.pri'' ks \<noteq> nameTransform cr v ''.key'' ks'"
    "nameTransform cr u ''.pub'' ks \<noteq> path_join d ''mapping.txt''"
    "nameTransform cr u ''.pri'' ks \<noteq> path_join d ''mapping.txt''"
    "nameTransform cr u ''.key'' ks \<noteq> path_join d ''mapping.txt''"
    by (rule e, simp add: l)+
qed

lemma file_simps [simp]:
  "ks_path (write_file f b ks) = ks_path ks"
  "ks_path (maintainMapping s t ks) = ks_path ks"
  "ks_path (writeSymetricKey f b ks) = ks_path ks"
  "ks_files (write_file f b ks) g = (if g = f then Some b else ks_files ks g)"
  by (simp_all add: write_file_def maintainMapping_def writeSymetricKey_def Let_def)

lemma nameTransform_path: "ks_path ks = ks_path ks' \<Longrightarrow> nameTransform cr u e ks = nameTransform cr u e ks'"
  by (simp add: nameTransform_def)

lemma mapping_keeps:
  "f \<noteq> path_join (ks_path ks) ''mapping.txt'' \<Longrightarrow> ks_files (maintainMapping s t ks) f = ks_files ks f"
  by (simp add: maintainMapping_def Let_def)

lemma path_join_inject [simp]: "path_join d f = path_join d g \<longleftrightarrow> f = g"
  by (simp add: path_join_def)

lemma nameTransform_ext:
  "nameTransform cr u e ks = nameTransform cr v e ks \<longleftrightarrow> nameTransform cr u [] ks = nameTransform cr v [] ks"
  by (simp add: nameTransform_def Let_def)

section \<open>Generated keys\<close>

text \<open>
  What the code relies on of Crypto++: Base64 decodes what it encoded, and a signature made with a generated
  private key verifies under the public key generated with it.
\<close>

definition crypto_ok :: "crypto \<Rightarrow> (blob \<Rightarrow> blob \<Rightarrow> blob \<Rightarrow> bool result) \<Rightarrow> bool" where
  "crypto_ok cr rsa_verify \<longleftrightarrow> (\<forall>b. base64_decode cr (base64_encode cr b) = b) \<and>
     (\<forall>seed size m s. rsa_sign cr (fst (rsa_generate cr seed size)) m = Some s \<longrightarrow>
        rsa_verify (snd (rsa_generate cr seed size)) m s = Inr True)"

lemma generated_files:
  assumes "generateKeyPair cr seed keyName KEY_TYPE_RSA keySize ks = (Inr (), ks')"
  shows "ks_path ks' = ks_path ks"
    "ks_files ks' (nameTransform cr (name_toUri keyName) ''.pri'' ks) = Some (base64_encode cr (fst (rsa_generate cr seed keySize)))"
    "ks_files ks' (nameTransform cr (name_toUri keyName) ''.pub'' ks) = Some (base64_encode cr (snd (rsa_generate cr seed keySize)))"
    "f \<notin> {nameTransform cr (name_toUri keyName) ''.pri'' ks, nameTransform cr (name_toUri keyName) ''.pub'' ks,
       path_join (ks_path ks) ''mapping.txt''} \<Longrightarrow> ks_files ks' f = ks_files ks f"
proof -
  let ?u = "name_toUri keyName"
  let ?m = "maintainMapping ?u (nameTransform cr ?u '''' ks) ks"
  have m: "nameTransform cr ?u e ?m = nameTransform cr ?u e ks" for e by (rule nameTransform_path) simp
  have w: "nameTransform cr ?u e (write_file f b ?m) = nameTransform cr ?u e ks" for e f b by (rule nameTransform_path) simp
  have ks': "ks' = write_file (nameTransform cr ?u ''.pub'' ks) (base64_encode cr (snd (rsa_generate cr seed keySize)))
      (write_file (nameTransform cr ?u ''.pri'' ks) (base64_encode cr (fst (rsa_generate cr seed keySize))) ?m)"
    using assms
    by (auto simp: generateKeyPair_def bindA_Inr Let_def case_prod_unfold m w split: if_splits)
  show "ks_path ks' = ks_path ks"
    "ks_files ks' (nameTransform cr ?u ''.pri'' ks) = Some (base64_encode cr (fst (rsa_generate cr seed keySize)))"
    "ks_files ks' (nameTransform cr ?u ''.pub'' ks) = Some (base64_encode cr (snd (rsa_generate cr seed keySize)))"
    unfolding ks' using paths_differ(1) [of cr ?u ks ?u ks] by simp_all
  show "f \<notin> {nameTransform cr ?u ''.pri'' ks, nameTransform cr ?u ''.pub'' ks, path_join (ks_path ks) ''mapping.txt''} \<Longrightarrow>
      ks_files ks' f = ks_files ks f"
    unfolding ks' by (simp add: mapping_keeps)
qed

text \<open>The files of another key: its paths are none of the three that were written.\<close>

lemma other_key_files:
  assumes "generateKeyPair cr seed keyName KEY_TYPE_RSA keySize ks = (Inr (), ks')"
    and "nameTransform cr (name_toUri other) [] ks \<noteq> nameTransform cr (name_toUri keyName) [] ks"
  shows "ks_files ks' (nameTransform cr (name_toUri other) (key_class_ext cl) ks) =
    ks_files ks (nameTransform cr (name_toUri other) (key_class_ext cl) ks)"
proof (rule generated_files(4) [OF assms(1)])
  have "nameTransform cr (name_toUri other) e ks \<noteq> nameTransform cr (name_toUri keyName) e ks" for e
    using assms(2) nameTransform_ext by metis
  then show "nameTransform cr (name_toUri other) (key_class_ext cl) ks \<notin>
      {nameTransform cr (name_toUri keyName) ''.pri'' ks, nameTransform cr (name_toUri keyName) ''.pub'' ks,
       path_join (ks_path ks) ''mapping.txt''}"
    by (cases cl) (simp_all add: key_class_ext_def paths_differ paths_differ [symmetric])
qed

text \<open>After a successful \<open>generateKeyPair\<close> the public key that is read back is the generated one,
  signing uses the generated private key and its signatures verify under the public key, generating the
  key again is refused without a change, and the keys whose names have another digest are untouched.\<close>

theorem generated_key_signs:
  assumes gen: "generateKeyPair cr seed keyName KEY_TYPE_RSA keySize ks = (Inr (), ks')"
    and ok: "crypto_ok cr rsa_verify"
  shows "\<exists>priv pub. rsa_generate cr seed keySize = (priv, pub) \<and>
    (\<forall>from_iso. store_getPublickey cr from_iso keyName ks' = publickey_fromDER from_iso pub) \<and>
    (\<forall>m. store_sign cr m keyName DIGEST_SHA256 ks' = Inr (rsa_sign cr priv m)) \<and>
    (\<forall>m s. rsa_sign cr priv m = Some s \<longrightarrow> rsa_verify pub m s = Inr True) \<and>
    (\<forall>seed' t sz. generateKeyPair cr seed' keyName t sz ks' = (Inl SecException, ks')) \<and>
    (\<forall>other. nameTransform cr (name_toUri other) [] ks \<noteq> nameTransform cr (name_toUri keyName) [] ks \<longrightarrow>
       (\<forall>cl. store_doesKeyExist cr other cl ks' = store_doesKeyExist cr other cl ks) \<and>
       (\<forall>m a. store_sign cr m other a ks' = store_sign cr m other a ks) \<and>
       (\<forall>from_iso. store_getPublickey cr from_iso other ks' = store_getPublickey cr from_iso other ks))"
proof -
  note f = generated_files [OF gen]
  have p: "nameTransform cr u e ks' = nameTransform cr u e ks" for u e using nameTransform_path f(1) by metis
  have b: "base64_decode cr (base64_encode cr x) = x" for x using ok by (simp add: crypto_ok_def)
  have ex: "store_doesKeyExist cr keyName KEY_CLASS_PUBLIC ks'" "store_doesKeyExist cr keyName KEY_CLASS_PRIVATE ks'"
    using f(2,3) by (simp_all add: store_doesKeyExist_def key_class_ext_def p)
  have other: "(\<forall>cl. store_doesKeyExist cr other cl ks' = store_doesKeyExist cr other cl ks) \<and>
       (\<forall>m a. store_sign cr m other a ks' = store_sign cr m other a ks) \<and>
       (\<forall>from_iso. store_getPublickey cr from_iso other ks' = store_getPublickey cr from_iso other ks)"
    if "nameTransform cr (name_toUri other) [] ks \<noteq> nameTransform cr (name_toUri keyName) [] ks" for other
    using other_key_files [OF gen that] other_key_files [OF gen that, of KEY_CLASS_PUBLIC]
      other_key_files [OF gen that, of KEY_CLASS_PRIVATE]
    by (simp add: store_doesKeyExist_def store_sign_def store_getPublickey_def p key_class_ext_def)
  obtain priv pub where g: "rsa_generate cr seed keySize = (priv, pub)" by fastforce
  have "store_getPublickey cr from_iso keyName ks' = publickey_fromDER from_iso pub" for from_iso
    using ex(1) f(3) g by (simp add: store_getPublickey_def p b)
  moreover have "store_sign cr m keyName DIGEST_SHA256 ks' = Inr (rsa_sign cr priv m)" for m
    using ex(2) f(2) g by (simp add: store_sign_def p b)
  moreover have "rsa_verify pub m s = Inr True" if "rsa_sign cr priv m = Some s" for m s
    using ok that g unfolding crypto_ok_def by (metis fst_conv snd_conv)
  moreover have "generateKeyPair cr seed' keyName t sz ks' = (Inl SecException, ks')" for seed' t sz
    using ex(1) by (simp add: generateKeyPair_def bindA_def)
  ultimately show ?thesis using g other by blast
qed

text \<open>A toy instance of the functions, which has the two laws: the signature is the message.\<close>

definition example_crypto :: crypto where
  "example_crypto =
     \<lparr> hash64 = (\<lambda>s. s), base64_encode = (\<lambda>b. b), base64_decode = (\<lambda>b. b), hex_encode = (\<lambda>b. b), hex_decode = (\<lambda>b. b),
       random_block = (\<lambda>seed n. replicate n 1), rsa_generate = (\<lambda>seed sz. ([1], [2])),
       rsa_sign = (\<lambda>k m. Some m), rsa_encrypt = (\<lambda>seed k m. Some m), rsa_decrypt = (\<lambda>k m. Some m),
       aes_cfb_encrypt = (\<lambda>k iv m. None), aes_cfb_decrypt = (\<lambda>k iv m. None) \<rparr>"

definition example_verify :: "blob \<Rightarrow> blob \<Rightarrow> blob \<Rightarrow> bool result" where
  "example_verify k m s = Inr (m = s)"

lemma example_crypto_ok: "crypto_ok example_crypto example_verify"
  by (simp add: crypto_ok_def example_crypto_def example_verify_def)

theorem generated_key_signs_witness:
  "\<exists>ks'. generateKeyPair example_crypto 0 (Name []) KEY_TYPE_RSA 2048 \<lparr> ks_path = ''d'', ks_files = (\<lambda>f. None) \<rparr> = (Inr (), ks') \<and>
     store_sign example_crypto [5] (Name []) DIGEST_SHA256 ks' = Inr (Some [5])"
proof -
  obtain ks' where g: "generateKeyPair example_crypto 0 (Name []) KEY_TYPE_RSA 2048
      \<lparr> ks_path = ''d'', ks_files = (\<lambda>f. None) \<rparr> = (Inr (), ks')"
    by (simp add: generateKeyPair_def bindA_def store_doesKeyExist_def)
  from generated_key_signs [OF g example_crypto_ok] g show ?thesis
    by (auto simp: example_crypto_def)
qed

text \<open>
  The symmetric modes cannot work: the key has the length of a pointer, which AES refuses, so both
  directions return the null pointer for every key and message.
\<close>

lemma symmetric_modes_fail:
  assumes aes: "\<forall>k iv m. length k \<notin> {16, 24, 32} \<longrightarrow> aes_cfb_encrypt cr k iv m = None \<and> aes_cfb_decrypt cr k iv m = None"
    and "store_doesKeyExist cr keyName KEY_CLASS_SYMMETRIC ks"
  shows "encrypt cr seed keyName pData True ks = Inr None" "decrypt cr seed keyName pData True ks = Inr None"
proof -
  have "length (take POINTER_SIZE b) \<notin> {16, 24, 32}" for b :: blob by (auto simp: POINTER_SIZE_def)
  then show "encrypt cr seed keyName pData True ks = Inr None" "decrypt cr seed keyName pData True ks = Inr None"
    using assms
    by (auto simp: encrypt_def decrypt_def readSymetricKey_def store_doesKeyExist_def key_class_ext_def Let_def)
qed

end
