(* ===== verification/Ndnb_Wire.thy ===== *)
theory Ndnb_Wire
  imports Ndnb_Parser Ndn_Packets
begin

unbundle bit_operations_syntax

text \<open>
  \<open>ndn.cxx/wire/ndnb\<close>: the visitors that read values out of a syntax tree, and the
  serialisation of Interest and Data packets (\<open>wire-ndnb-interest.cc\<close>,
  \<open>wire-ndnb-data.cc\<close>, with the entry points in \<open>interest.cc\<close> and \<open>data.cc\<close>).
\<close>

section \<open>Dictionary tags\<close>

definition NDN_DTAG_Name :: uint32 where "NDN_DTAG_Name = 14"
definition NDN_DTAG_Content :: uint32 where "NDN_DTAG_Content = 19"
definition NDN_DTAG_SignedInfo :: uint32 where "NDN_DTAG_SignedInfo = 20"
definition NDN_DTAG_Interest :: uint32 where "NDN_DTAG_Interest = 26"
definition NDN_DTAG_KeyLocator :: uint32 where "NDN_DTAG_KeyLocator = 28"
definition NDN_DTAG_KeyName :: uint32 where "NDN_DTAG_KeyName = 29"
definition NDN_DTAG_Signature :: uint32 where "NDN_DTAG_Signature = 37"
definition NDN_DTAG_Timestamp :: uint32 where "NDN_DTAG_Timestamp = 39"
definition NDN_DTAG_Type :: uint32 where "NDN_DTAG_Type = 40"
definition NDN_DTAG_Scope :: uint32 where "NDN_DTAG_Scope = 42"
definition NDN_DTAG_AnswerOriginKind :: uint32 where "NDN_DTAG_AnswerOriginKind = 47"
definition NDN_DTAG_InterestLifetime :: uint32 where "NDN_DTAG_InterestLifetime = 48"
definition NDN_DTAG_SignatureBits :: uint32 where "NDN_DTAG_SignatureBits = 54"
definition NDN_DTAG_FreshnessSeconds :: uint32 where "NDN_DTAG_FreshnessSeconds = 58"
definition NDN_DTAG_PublisherPublicKeyDigest :: uint32 where "NDN_DTAG_PublisherPublicKeyDigest = 60"
definition NDN_DTAG_Data :: uint32 where "NDN_DTAG_Data = 64"
definition NDN_DTAG_MinSuffixComponents :: uint32 where "NDN_DTAG_MinSuffixComponents = 83"
definition NDN_DTAG_MaxSuffixComponents :: uint32 where "NDN_DTAG_MaxSuffixComponents = 84"
definition NDN_DTAG_ChildSelector :: uint32 where "NDN_DTAG_ChildSelector = 85"

lemmas dtag_defs = NDN_DTAG_Name_def NDN_DTAG_Content_def NDN_DTAG_SignedInfo_def NDN_DTAG_Interest_def
  NDN_DTAG_KeyLocator_def NDN_DTAG_KeyName_def NDN_DTAG_Signature_def NDN_DTAG_Timestamp_def
  NDN_DTAG_Type_def NDN_DTAG_Scope_def NDN_DTAG_AnswerOriginKind_def NDN_DTAG_InterestLifetime_def
  NDN_DTAG_SignatureBits_def NDN_DTAG_FreshnessSeconds_def NDN_DTAG_PublisherPublicKeyDigest_def
  NDN_DTAG_Data_def NDN_DTAG_MinSuffixComponents_def NDN_DTAG_MaxSuffixComponents_def
  NDN_DTAG_ChildSelector_def NDN_DTAG_Component_def

section \<open>Visitors that return a value\<close>

text \<open>The values that the visitors put into a \<open>boost::any\<close>.\<close>

datatype any =
    AnyEmpty
  | AnyUint32 uint32
  | AnyTime int
  | AnyString blob
  | AnyExt uint64

text \<open>
  \<open>NoArguDepthFirstVisitor\<close> with the overrides for blobs and udata: an element is visited
  depth first, an exception ends the visit, and the result is an empty value.
\<close>

fun accept_no_argu :: "(blob \<Rightarrow> any result) \<Rightarrow> (blob \<Rightarrow> any result) \<Rightarrow> block \<Rightarrow> any result"
  and accept_all :: "(blob \<Rightarrow> any result) \<Rightarrow> (blob \<Rightarrow> any result) \<Rightarrow> block list \<Rightarrow> any result"
where
  "accept_no_argu vb vu (Blob b) = vb b"
| "accept_no_argu vb vu (Udata u) = vu u"
| "accept_no_argu vb vu (Tag t ats ns) = bindE (accept_all vb vu ats) (\<lambda>_. accept_all vb vu ns)"
| "accept_no_argu vb vu (Dtag d ats ns) = bindE (accept_all vb vu ats) (\<lambda>_. accept_all vb vu ns)"
| "accept_no_argu vb vu (Attr a u) = Inr AnyEmpty"
| "accept_no_argu vb vu (Dattr d u) = Inr AnyEmpty"
| "accept_no_argu vb vu (Ext v) = Inr (AnyExt (ucast v))"
| "accept_all vb vu [] = Inr AnyEmpty"
| "accept_all vb vu (b # bs) = bindE (accept_no_argu vb vu b) (\<lambda>_. accept_all vb vu bs)"

fun any_uint32 :: "any \<Rightarrow> uint32 result" where
  "any_uint32 (AnyUint32 v) = Inr v"
| "any_uint32 _ = Inl BadAnyCast"

fun any_time :: "any \<Rightarrow> int result" where
  "any_time (AnyTime t) = Inr t"
| "any_time _ = Inl BadAnyCast"

fun any_string :: "any \<Rightarrow> blob result" where
  "any_string (AnyString s) = Inr s"
| "any_string _ = Inl BadAnyCast"

text \<open>\<open>StringVisitor\<close>.\<close>

definition string_visit :: "block \<Rightarrow> any result" where
  "string_visit b = accept_no_argu (\<lambda>bs. Inr (AnyString bs)) (\<lambda>u. Inr (AnyString u)) b"

text \<open>
  \<open>std::istringstream >> int32_t\<close>: white space, an optional sign and digits; a number out of
  range gives the nearest bound and no digits give 0.
\<close>

definition is_space :: "byte \<Rightarrow> bool" where
  "is_space b \<longleftrightarrow> b = 0x20 \<or> (0x09 \<le> b \<and> b \<le> 0x0D)"

definition is_digit :: "byte \<Rightarrow> bool" where
  "is_digit b \<longleftrightarrow> 0x30 \<le> b \<and> b \<le> 0x39"

definition digits_value :: "blob \<Rightarrow> int" where
  "digits_value bs = foldl (\<lambda>v b. 10 * v + (uint b - 48)) 0 bs"

definition read_int32 :: "blob \<Rightarrow> int" where
  "read_int32 bs =
     (let bs = dropWhile is_space bs;
          neg = (bs \<noteq> [] \<and> hd bs = 0x2D);
          bs = (if bs \<noteq> [] \<and> (hd bs = 0x2D \<or> hd bs = 0x2B) then tl bs else bs);
          v = digits_value (takeWhile is_digit bs);
          v = (if neg then - v else v)
      in max (- (2 ^ 31)) (min (2 ^ 31 - 1) v))"

text \<open>\<open>NonNegativeIntegerVisitor\<close>.\<close>

definition nonneg_visit :: "block \<Rightarrow> any result" where
  "nonneg_visit b =
     accept_no_argu (\<lambda>_. Inl NdnbDecodingException)
       (\<lambda>u. let value = read_int32 u
            in if value < 0 then Inl NdnbDecodingException else Inr (AnyUint32 (of_int value))) b"

text \<open>
  \<open>TimestampVisitor\<close>.  \<open>seconds\<close> is an \<open>int\<close>; the last byte is a \<open>char\<close> that is sign
  extended; the product with 1000000 / 4096 is exact in a \<open>double\<close> and then cut.
\<close>

definition timestamp_seconds :: "blob \<Rightarrow> uint32" where
  "timestamp_seconds bs = foldl (\<lambda>secs b. push_bit 8 secs OR ucast b) 0 bs"

definition timestamp_visit_blob :: "blob \<Rightarrow> any result" where
  "timestamp_visit_blob bs =
     (if length bs < 2 then Inl NdnbDecodingException
      else
        let combo = bs ! (length bs - 2);
            seconds = push_bit 4 (timestamp_seconds (take (length bs - 2) bs)) OR ucast (drop_bit 4 combo);
            frac = sint (push_bit 8 (ucast (combo AND 0x0F)) OR (scast (bs ! (length bs - 1)) :: uint32));
            nanoseconds = (frac * 15625) sdiv 64
        in Inr (AnyTime (sint seconds * 1000000 + nanoseconds sdiv 1000)))"

definition timestamp_visit :: "block \<Rightarrow> any result" where
  "timestamp_visit b = accept_no_argu timestamp_visit_blob (\<lambda>_. Inl NdnbDecodingException) b"

text \<open>\<open>ContentTypeVisitor\<close>: the three bytes are \<open>char\<close>s that are sign extended.\<close>

definition content_type_visit_blob :: "blob \<Rightarrow> any result" where
  "content_type_visit_blob bs =
     (case bs of
        [a, b, c] \<Rightarrow> Inr (AnyUint32 (push_bit 16 (scast a) OR push_bit 8 (scast b) OR scast c))
      | _ \<Rightarrow> Inl NdnbDecodingException)"

definition content_type_visit :: "block \<Rightarrow> any result" where
  "content_type_visit b = accept_no_argu content_type_visit_blob (\<lambda>_. Inl NdnbDecodingException) b"

text \<open>\<open>Uint32tBlobVisitor\<close>: the first four bytes, in the byte order of the (little-endian) host.\<close>

definition uint32_visit_blob :: "blob \<Rightarrow> any result" where
  "uint32_visit_blob bs =
     (case bs of
        a # b # c # d # _ \<Rightarrow>
          Inr (AnyUint32 (ucast a OR push_bit 8 (ucast b) OR push_bit 16 (ucast c) OR push_bit 24 (ucast d)))
      | _ \<Rightarrow> Inl NdnbDecodingException)"

section \<open>The name visitor\<close>

text \<open>\<open>NameVisitor\<close>, a \<open>VoidDepthFirstVisitor\<close> that appends the components it meets.\<close>

fun name_visit :: "block \<Rightarrow> name \<Rightarrow> name result"
  and name_visit_all :: "block list \<Rightarrow> name \<Rightarrow> name result"
where
  "name_visit (Dtag d ats ns) n =
     (if d = NDN_DTAG_Component then
        (case ns of
           [b] \<Rightarrow> bindE (bindE (string_visit b) any_string)
                    (\<lambda>s. Inr (fst (appendBySwap n (component_of_blob s))))
         | _ \<Rightarrow> Inl NdnbDecodingException)
      else bindE (name_visit_all ats n) (name_visit_all ns))"
| "name_visit (Tag t ats ns) n = bindE (name_visit_all ats n) (name_visit_all ns)"
| "name_visit (Blob _) n = Inr n"
| "name_visit (Udata _) n = Inr n"
| "name_visit (Attr _ _) n = Inr n"
| "name_visit (Dattr _ _) n = Inr n"
| "name_visit (Ext _) n = Inr n"
| "name_visit_all [] n = Inr n"
| "name_visit_all (b # bs) n = bindE (name_visit b n) (name_visit_all bs)"

definition DeserializeName :: "istream \<Rightarrow> (name \<times> istream) result" where
  "DeserializeName s =
     bindE (ParseBlock s) (\<lambda>(root, s). bindE (name_visit root (Name [])) (\<lambda>n. Inr (n, s)))"

section \<open>Interest\<close>

definition append_when :: "bool \<Rightarrow> (blob \<Rightarrow> blob) \<Rightarrow> blob \<Rightarrow> blob" where
  "append_when c f s = (if c then f s else s)"

definition Serialize_interest :: "interest \<Rightarrow> blob \<Rightarrow> blob" where
  "Serialize_interest i start =
     (let start = fst (AppendBlockHeader start (ucast NDN_DTAG_Interest) NDN_DTAG);
          start = fst (AppendBlockHeader start (ucast NDN_DTAG_Name) NDN_DTAG);
          start = fst (SerializeName start (i_name i));
          start = fst (AppendCloser start);
          start = append_when (i_minSuffixComponents i \<noteq> ncomps)
            (\<lambda>s. AppendTaggedNumber s NDN_DTAG_MinSuffixComponents (i_minSuffixComponents i)) start;
          start = append_when (i_maxSuffixComponents i \<noteq> ncomps)
            (\<lambda>s. AppendTaggedNumber s NDN_DTAG_MaxSuffixComponents (i_maxSuffixComponents i)) start;
          start = append_when (i_childSelector i \<noteq> CHILD_DEFAULT)
            (\<lambda>s. AppendTaggedNumber s NDN_DTAG_ChildSelector (ucast (i_childSelector i))) start;
          start = append_when (i_answerOriginKind i \<noteq> AOK_DEFAULT)
            (\<lambda>s. AppendTaggedNumber s NDN_DTAG_AnswerOriginKind (i_answerOriginKind i)) start;
          start = append_when (i_scope i \<noteq> NO_SCOPE)
            (\<lambda>s. AppendTaggedNumber s NDN_DTAG_Scope (ucast (i_scope i))) start;
          start = append_when (\<not> i_interestLifetime i < 0)
            (\<lambda>s. fst (AppendCloser (fst (AppendTimestampBlob
               (fst (AppendBlockHeader s (ucast NDN_DTAG_InterestLifetime) NDN_DTAG))
               (i_interestLifetime i))))) start
      in fst (AppendCloser start))"

fun interest_visit :: "block \<Rightarrow> interest \<Rightarrow> interest result"
  and interest_visit_all :: "block list \<Rightarrow> interest \<Rightarrow> interest result"
where
  "interest_visit (Dtag d ats ns) i =
     (if d = NDN_DTAG_Interest then interest_visit_all ns i
      else if d = NDN_DTAG_Name then
        bindE (name_visit (Dtag d ats ns) (Name [])) (\<lambda>n. Inr (setName n i))
      else if d = NDN_DTAG_Scope then
        (case ns of
           [b] \<Rightarrow> bindE (bindE (nonneg_visit b) any_uint32) (\<lambda>v. Inr (setScope (ucast v) i))
         | _ \<Rightarrow> Inl NdnbDecodingException)
      else if d = NDN_DTAG_InterestLifetime then
        (case ns of
           [b] \<Rightarrow> bindE (bindE (timestamp_visit b) any_time) (\<lambda>t. Inr (setInterestLifetime t i))
         | _ \<Rightarrow> Inl NdnbDecodingException)
      else Inr i)"
| "interest_visit (Tag t ats ns) i = bindE (interest_visit_all ats i) (interest_visit_all ns)"
| "interest_visit (Blob _) i = Inr i"
| "interest_visit (Udata _) i = Inr i"
| "interest_visit (Attr _ _) i = Inr i"
| "interest_visit (Dattr _ _) i = Inr i"
| "interest_visit (Ext _) i = Inr i"
| "interest_visit_all [] i = Inr i"
| "interest_visit_all (b # bs) i = bindE (interest_visit b i) (interest_visit_all bs)"

definition Deserialize_interest :: "interest \<Rightarrow> istream \<Rightarrow> interest result" where
  "Deserialize_interest i start = bindE (ParseBlock start) (\<lambda>(root, _). interest_visit root i)"

definition encodeToWire_interest :: "interest \<Rightarrow> blob" where
  "encodeToWire_interest i = Serialize_interest i []"

definition decodeFromWire_interest :: "blob \<Rightarrow> interest result" where
  "decodeFromWire_interest buf = Deserialize_interest (new_interest (Name [])) (open_stream buf)"

section \<open>Data\<close>

definition SerializeUnsigned :: "ndn_data \<Rightarrow> blob \<Rightarrow> blob result" where
  "SerializeUnsigned d start =
     (let start = fst (AppendBlockHeader start (ucast NDN_DTAG_Name) NDN_DTAG);
          start = fst (SerializeName start (d_name d));
          start = fst (AppendCloser start);
          start = fst (AppendBlockHeader start (ucast NDN_DTAG_SignedInfo) NDN_DTAG)
      in case d_signature d of
           None \<Rightarrow> Inl UndefinedBehaviour
         | Some sig \<Rightarrow>
             let start = fst (AppendTaggedBlob start NDN_DTAG_PublisherPublicKeyDigest (m_publisherKeyDigest sig));
                 start = fst (AppendBlockHeader start (ucast NDN_DTAG_Timestamp) NDN_DTAG)
             in case m_timestamp (d_content d) of
                  None \<Rightarrow> Inl UndefinedBehaviour
                | Some ti \<Rightarrow>
                    let start = fst (AppendTimestampBlob start ti);
                        start = fst (AppendCloser start);
                        start = fst (AppendBlockHeader start (ucast NDN_DTAG_KeyLocator) NDN_DTAG);
                        start = fst (AppendBlockHeader start (ucast NDN_DTAG_KeyName) NDN_DTAG);
                        start = fst (AppendBlockHeader start (ucast NDN_DTAG_Name) NDN_DTAG)
                    in bindE (getKeyName (m_keyLocator sig)) (\<lambda>keyName.
                         let start = fst (SerializeName start keyName);
                             start = fst (AppendCloser start);
                             start = fst (AppendCloser start);
                             start = fst (AppendCloser start);
                             start = fst (AppendCloser start);
                             start = fst (AppendBlockHeader start (ucast NDN_DTAG_Content) NDN_DTAG);
                             payloadSize = (of_nat (length (m_content (d_content d))) :: uint32);
                             start =
                               (if 0 < payloadSize
                                then fst (AppendBlockHeader start (ucast payloadSize) NDN_BLOB) @ m_content (d_content d)
                                else start)
                         in Inr (fst (AppendCloser start))))"

definition Serialize_data :: "ndn_data \<Rightarrow> blob \<Rightarrow> blob result" where
  "Serialize_data d start =
     (case d_signature d of
        None \<Rightarrow> Inl UndefinedBehaviour
      | Some sig \<Rightarrow>
          let start = fst (AppendBlockHeader start (ucast NDN_DTAG_Data) NDN_DTAG);
              start = fst (AppendBlockHeader start (ucast NDN_DTAG_Signature) NDN_DTAG);
              start = fst (AppendTaggedBlobWithPadding start NDN_DTAG_SignatureBits 16 (m_signatureBits sig));
              start = fst (AppendCloser start)
          in bindE (case d_wire d of
                      None \<Rightarrow> SerializeUnsigned d start
                    | Some w \<Rightarrow> Inr (start @ signed_bytes w))
               (\<lambda>start. Inr (fst (AppendCloser start))))"

definition toType :: "uint32 \<Rightarrow> content_type result" where
  "toType typeBytes =
     (if typeBytes = 0x0C04C0 then Inr DATA
      else if typeBytes = 0x10D091 then Inr ENCR
      else if typeBytes = 0x18E344 then Inr GONE
      else if typeBytes = 0x28463F then Inr CONTENT_KEY
      else if typeBytes = 0x2C834A then Inr LINK
      else if typeBytes = 0x34008A then Inr NACK
      else Inl NdnbDecodingException)"

text \<open>Changes through \<open>m_data->getSignature ()\<close> (null when absent) and \<open>m_data->getContent ()\<close>.\<close>

definition on_signature :: "(sha256_with_rsa \<Rightarrow> sha256_with_rsa result) \<Rightarrow> ndn_data \<Rightarrow> ndn_data result" where
  "on_signature f d =
     (case d_signature d of
        None \<Rightarrow> Inl UndefinedBehaviour
      | Some sig \<Rightarrow> bindE (f sig) (\<lambda>sig. Inr (d\<lparr> d_signature := Some sig \<rparr>)))"

definition on_content :: "(content \<Rightarrow> content) \<Rightarrow> ndn_data \<Rightarrow> ndn_data" where
  "on_content f d = d\<lparr> d_content := f (d_content d) \<rparr>"

text \<open>\<open>dynamic_pointer_cast<Blob>\<close> and the access through the resulting pointer.\<close>

fun as_blob :: "block \<Rightarrow> blob result" where
  "as_blob (Blob b) = Inr b"
| "as_blob _ = Inl UndefinedBehaviour"

definition single :: "block list \<Rightarrow> block result" where
  "single ns = (case ns of [b] \<Rightarrow> Inr b | _ \<Rightarrow> Inl NdnbDecodingException)"

fun data_visit :: "int \<Rightarrow> block \<Rightarrow> ndn_data \<Rightarrow> ndn_data result"
  and data_visit_all :: "int \<Rightarrow> block list \<Rightarrow> ndn_data \<Rightarrow> ndn_data result"
where
  "data_visit now (Dtag t ats ns) d =
     (if t = NDN_DTAG_Data \<or> t = NDN_DTAG_Signature \<or> t = NDN_DTAG_SignedInfo \<or> t = NDN_DTAG_KeyLocator
      then data_visit_all now ns d
      else if t = NDN_DTAG_SignatureBits then
        bindE (single ns) (\<lambda>b. bindE (as_blob b) (\<lambda>bs.
          on_signature (\<lambda>sig. Inr (sig\<lparr> m_signatureBits := bs \<rparr>)) d))
      else if t = NDN_DTAG_Name then
        bindE (name_visit (Dtag t ats ns) (Name [])) (\<lambda>n. Inr (d\<lparr> d_name := n \<rparr>))
      else if t = NDN_DTAG_PublisherPublicKeyDigest then
        bindE (single ns) (\<lambda>b. bindE (as_blob b) (\<lambda>bs.
          on_signature (\<lambda>sig. Inr (sig\<lparr> m_publisherKeyDigest := bs \<rparr>)) d))
      else if t = NDN_DTAG_Timestamp then
        bindE (single ns) (\<lambda>b. bindE (bindE (timestamp_visit b) any_time) (\<lambda>ts.
          Inr (on_content (setTimeStamp now (Some ts)) d)))
      else if t = NDN_DTAG_Type then
        bindE (single ns) (\<lambda>b. bindE (bindE (content_type_visit b) any_uint32) (\<lambda>v.
          bindE (toType v) (\<lambda>ty. Inr (on_content (\<lambda>c. c\<lparr> m_type := Some ty \<rparr>) d))))
      else if t = NDN_DTAG_FreshnessSeconds then
        Inr (on_content (\<lambda>c. c\<lparr> m_freshness := maxFreshness \<rparr>) d)
      else if t = NDN_DTAG_KeyName then
        bindE (name_visit (Dtag t ats ns) (Name [])) (\<lambda>n.
          on_signature (\<lambda>sig. bindE (setKeyName (setType (m_keyLocator sig) KEYNAME) n)
            (\<lambda>l. Inr (sig\<lparr> m_keyLocator := l \<rparr>))) d)
      else if t = NDN_DTAG_Content then
        bindE (single ns) (\<lambda>b. bindE (as_blob b) (\<lambda>bs.
          Inr (on_content (\<lambda>c. c\<lparr> m_content := bs \<rparr>) d)))
      else Inr d)"
| "data_visit now (Tag t ats ns) d = bindE (data_visit_all now ats d) (data_visit_all now ns)"
| "data_visit now (Blob _) d = Inr d"
| "data_visit now (Udata _) d = Inr d"
| "data_visit now (Attr _ _) d = Inr d"
| "data_visit now (Dattr _ _) d = Inr d"
| "data_visit now (Ext _) d = Inr d"
| "data_visit_all now [] d = Inr d"
| "data_visit_all now (b # bs) d = bindE (data_visit now b d) (data_visit_all now bs)"

definition Deserialize_data :: "int \<Rightarrow> ndn_data \<Rightarrow> istream \<Rightarrow> ndn_data result" where
  "Deserialize_data now d start = bindE (ParseBlock start) (\<lambda>(root, _). data_visit now root d)"

definition MAGIC_SIGNED_BLOB_OFFSET :: uint64 where
  "MAGIC_SIGNED_BLOB_OFFSET = 2 + (2 + (2 + (2 + 256) + 1) + 1)"

definition LAST_CLOSER_SIZE :: uint64 where
  "LAST_CLOSER_SIZE = 1"

definition encodeToUnsignedWire :: "ndn_data \<Rightarrow> blob result" where
  "encodeToUnsignedWire d = SerializeUnsigned d []"

definition encodeToWire_data :: "ndn_data \<Rightarrow> blob result" where
  "encodeToWire_data d = Serialize_data d []"

definition decodeFromWire_data :: "int \<Rightarrow> blob \<Rightarrow> ndn_data result" where
  "decodeFromWire_data now buf =
     (let signedBlob = setSignedPortion MAGIC_SIGNED_BLOB_OFFSET
            (of_nat (length buf) - MAGIC_SIGNED_BLOB_OFFSET - LAST_CLOSER_SIZE)
            \<lparr> sb_bytes = buf, sb_signedBegin = 0, sb_signedEnd = 0 \<rparr>;
          d = new_data\<lparr> d_wire := Some signedBlob, d_signature := Some new_signature \<rparr>
      in Deserialize_data now d (open_stream buf))"

text \<open>From a stream: no buffer is kept, so nothing is marked as signed.\<close>

definition decodeFromStream_data :: "int \<Rightarrow> istream \<Rightarrow> ndn_data result" where
  "decodeFromStream_data now s = Deserialize_data now (new_data\<lparr> d_signature := Some new_signature \<rparr>) s"

section \<open>Numbers and timestamps read back\<close>

lemma is_digit_of_nat: "d < 10 \<Longrightarrow> is_digit (byte_of_char (char_of (48 + d :: nat)))"
  by (simp add: is_digit_def word_le_nat_alt unat_byte_of_char of_char_of take_bit_nat_eq_self)

lemma decimal_digits: "\<forall>b\<in>set (string_bytes (decimal n)). is_digit b"
proof (induction n rule: decimal.induct)
  case (1 n)
  then show ?case
    by (subst decimal.simps) (auto simp: string_bytes_def is_digit_of_nat)
qed

lemma decimal_value: "digits_value (string_bytes (decimal n)) = int n"
proof (induction n rule: decimal.induct)
  case (1 n)
  have d: "uint (byte_of_char (char_of (48 + k :: nat))) = int (48 + k)" if "k < 10" for k
    using that unfolding uint_nat unat_byte_of_char by (simp add: of_char_of take_bit_nat_eq_self)
  show ?case
  proof (cases "n < 10")
    case True
    then show ?thesis by (subst decimal.simps) (simp add: string_bytes_def digits_value_def d)
  next
    case False
    have "decimal n = decimal (n div 10) @ [char_of (48 + n mod 10)]"
      using False by (subst decimal.simps) simp
    then have "digits_value (string_bytes (decimal n)) = 10 * int (n div 10) + int (n mod 10)"
      using 1 [OF False] d [of "n mod 10"] by (simp add: string_bytes_def digits_value_def)
    also have "\<dots> = int (10 * (n div 10) + n mod 10)" by (simp only: of_nat_add of_nat_mult of_nat_numeral)
    finally show ?thesis by (simp only: mult_div_mod_eq)
  qed
qed

lemma decimal_nonempty: "string_bytes (decimal n) \<noteq> []"
  by (subst decimal.simps) (simp add: string_bytes_def)

lemma decimal_length: "n < 10 ^ k \<Longrightarrow> length (decimal n) \<le> max 1 k"
proof (induction n arbitrary: k rule: decimal.induct)
  case (1 n)
  show ?case
  proof (cases "n < 10")
    case True
    then show ?thesis by (subst decimal.simps) simp
  next
    case False
    then obtain j where j: "k = Suc j" using 1(2) by (cases k) auto
    then have "j \<noteq> 0" using 1(2) False by (cases j) auto
    moreover have "length (decimal (n div 10)) \<le> max 1 j"
      using 1(2) j by (intro 1(1) [OF False]) auto
    ultimately show ?thesis using False j by (subst decimal.simps) simp
  qed
qed

lemma read_decimal:
  assumes "n < 2 ^ 31"
  shows "read_int32 (string_bytes (decimal n)) = int n"
proof -
  let ?bs = "string_bytes (decimal n)"
  have hd: "is_digit (hd ?bs)" using decimal_digits [of n] decimal_nonempty [of n] by simp
  then have "\<not> is_space (hd ?bs)" "hd ?bs \<noteq> 0x2D" "hd ?bs \<noteq> 0x2B"
    by (auto simp: is_digit_def is_space_def word_le_nat_alt)
  moreover have "dropWhile is_space ?bs = ?bs"
    using calculation(1) decimal_nonempty [of n] by (cases ?bs) simp_all
  moreover have "takeWhile is_digit ?bs = ?bs" using decimal_digits [of n] by simp
  ultimately show ?thesis using assms decimal_value [of n] by (simp add: read_int32_def Let_def del: takeWhile_eq_all_conv)
qed

lemma big_endian_read:
  "timestamp_seconds (map (\<lambda>i. of_int (drop_bit (8 * (k - Suc i)) ts)) [0..<k]) = of_int (take_bit (8 * k) ts)"
proof (induction k arbitrary: ts)
  case 0
  then show ?case by (simp add: timestamp_seconds_def)
next
  case (Suc k)
  have "map (\<lambda>i. of_int (drop_bit (8 * (Suc k - Suc i)) ts) :: byte) [0..<Suc k] =
      map (\<lambda>i. of_int (drop_bit (8 * (k - Suc i)) (drop_bit 8 ts))) [0..<k] @ [of_int ts]"
    by (auto simp: Suc_diff_Suc intro!: arg_cong [of _ _ of_int] arg_cong [of _ _ "\<lambda>j. drop_bit j ts"])
  then have "timestamp_seconds (map (\<lambda>i. of_int (drop_bit (8 * (Suc k - Suc i)) ts)) [0..<Suc k]) =
      push_bit 8 (of_int (take_bit (8 * k) (drop_bit 8 ts))) OR ucast (of_int ts :: byte)"
    using Suc [of "drop_bit 8 ts"] by (simp only: timestamp_seconds_def foldl_append foldl.simps)
  also have "\<dots> = of_int (take_bit (8 * Suc k) ts)"
    by (rule bit_word_eqI) (auto simp: bit_simps)
  finally show ?case .
qed

lemma required_bytes_enough:
  "0 \<le> ts \<Longrightarrow> ts < 2 ^ (8 * (7 - n)) \<Longrightarrow> n \<le> required_bytes n ts \<and> ts < 2 ^ (8 * (required_bytes n ts - n))"
proof (induction n ts rule: required_bytes.induct)
  case (1 n ts)
  show ?case
  proof (cases "n < 7 \<and> ts \<noteq> 0")
    case True
    let ?r = "required_bytes (n + 1) (drop_bit 8 ts)"
    have "8 * (7 - n) = 8 * (7 - (n + 1)) + 8" using conjunct1 [OF True] by arith
    then have "(2::int) ^ (8 * (7 - n)) = 2 ^ (8 * (7 - (n + 1))) * 256" by (simp only: power_add) simp
    then have "drop_bit 8 ts < 2 ^ (8 * (7 - (n + 1)))" "0 \<le> drop_bit 8 ts"
      using 1(2,3) by (auto simp: drop_bit_eq_div)
    then have IH: "n + 1 \<le> ?r" "drop_bit 8 ts < 2 ^ (8 * (?r - (n + 1)))"
      using 1(1) [OF True] by auto
    have "8 * (?r - n) = 8 * (?r - (n + 1)) + 8" using IH(1) by arith
    then have "2 ^ (8 * (?r - (n + 1))) * 256 = (2::int) ^ (8 * (?r - n))" by (simp only: power_add) simp
    moreover have "ts < 2 ^ (8 * (?r - (n + 1))) * 256" using IH(2) by (simp add: drop_bit_eq_div)
    ultimately show ?thesis using IH(1) True by (subst (1 2) required_bytes.simps) simp
  next
    case False
    then show ?thesis using 1(2,3) by (subst (1 2) required_bytes.simps) auto
  qed
qed

text \<open>A whole number of seconds has no fraction: the low 12 bits are 0.\<close>

lemma whole_seconds [simp]:
  "0 \<le> S \<Longrightarrow> total_seconds (S * 1000000) = S"
  "timestamp_low (S * 1000000) = push_bit 12 (total_seconds (S * 1000000) AND 15)"
  by (simp_all add: total_seconds_def timestamp_low_def total_nanoseconds_def signed_divide_int_def
      signed_modulo_int_def sgn_mult abs_mult sgn_if)

lemma low_seconds: "S AND 15 = take_bit 4 (S :: int)"
  by (simp add: take_bit_eq_mask mask_eq_exp_minus_1)

lemma combo_bits:
  "push_bit 4 (of_int (drop_bit 4 S)) OR ucast (drop_bit 4 (of_int (drop_bit 8 (push_bit 12 (S AND 15))) :: byte)) =
    (of_int S :: uint32)"
  unfolding low_seconds by (rule bit_word_eqI) (auto simp: bit_simps)

lemma upt_two: "2 \<le> n \<Longrightarrow> [n - 2..<n] = [n - 2, n - Suc 0]"
proof -
  assume "2 \<le> n"
  then obtain k where "n = Suc (Suc k)" by (metis Suc_le_D numeral_2_eq_2 Suc_le_mono)
  then show ?thesis by (simp add: upt_conv_Cons)
qed

lemma timestamp_read:
  assumes "0 \<le> S" and "S < 2 ^ 31"
  shows "timestamp_visit_blob (timestamp_bytes (S * 1000000)) = Inr (AnyTime (S * 1000000))"
proof -
  let ?ts = "drop_bit 4 S"
  let ?n = "required_bytes 2 ?ts"
  let ?low = "push_bit 12 (S AND 15)"
  let ?hi = "map (\<lambda>i. of_int (drop_bit (8 * (?n - 2 - Suc i)) ?ts) :: byte) [0..<?n - 2]"
  have ts: "0 \<le> ?ts" "?ts < 2 ^ (8 * (7 - 2))" using assms by (auto simp: drop_bit_eq_div)
  note n = required_bytes_enough [OF ts]
  from n have "[?n - 2..<?n] = [?n - 2, ?n - 1]" by (simp add: upt_two)
  then have e: "timestamp_bytes (S * 1000000) = ?hi @ [of_int (drop_bit 8 ?low), of_int ?low]"
    using assms n by (auto simp: timestamp_bytes_def Let_def Suc_diff_Suc numeral_2_eq_2 numeral_3_eq_3)
  have hi: "timestamp_seconds ?hi = of_int ?ts"
    using n ts by (simp only: big_endian_read) (simp add: take_bit_int_eq_self)
  have low: "(of_int ?low :: byte) = 0" "of_int (drop_bit 8 ?low) AND (0x0F :: byte) = 0"
  proof -
    have m: "(0x0F :: byte) = mask 4" by (simp add: mask_eq_exp_minus_1)
    show "(of_int ?low :: byte) = 0" "of_int (drop_bit 8 ?low) AND (0x0F :: byte) = 0"
      unfolding low_seconds m by (rule bit_word_eqI, auto simp: bit_simps)+
  qed
  have "sint (of_int S :: uint32) = S"
    using assms by (simp add: sint_sbintrunc' signed_take_bit_int_eq_self)
  then show ?thesis
    using hi low combo_bits [of S] unfolding e
    by (simp add: timestamp_visit_blob_def Let_def nth_append)
qed

text \<open>What a reader gets for a time: every encoding of a time is read.\<close>

definition wire_time :: "int \<Rightarrow> int" where
  "wire_time ti = (case timestamp_visit_blob (timestamp_bytes ti) of Inr (AnyTime t) \<Rightarrow> t | _ \<Rightarrow> 0)"

lemma timestamp_visits: "timestamp_visit_blob (timestamp_bytes ti) = Inr (AnyTime (wire_time ti))"
proof -
  have "n \<le> required_bytes n ts" for n ts
    by (induction n ts rule: required_bytes.induct) (subst required_bytes.simps, auto)
  from this [of 2 "drop_bit 4 (total_seconds ti)"] show ?thesis by (simp add: wire_time_def timestamp_visit_blob_def timestamp_bytes_length Let_def)
qed

lemma wire_time_whole [simp]: "0 \<le> S \<Longrightarrow> S < 2 ^ 31 \<Longrightarrow> wire_time (S * 1000000) = S * 1000000"
  by (simp add: wire_time_def timestamp_read)

section \<open>The blocks that the encoder writes\<close>

definition comp_block :: "component \<Rightarrow> block" where
  "comp_block c = Dtag NDN_DTAG_Component [] [Blob (bytes c)]"

definition name_block :: "name \<Rightarrow> block" where
  "name_block n = Dtag NDN_DTAG_Name [] (map comp_block (comps n))"

definition number_block :: "uint32 \<Rightarrow> uint32 \<Rightarrow> block" where
  "number_block t v = Dtag t [] [Udata (string_bytes (decimal (unat v)))]"

definition time_block :: "uint32 \<Rightarrow> int \<Rightarrow> block" where
  "time_block t v = Dtag t [] [Blob (timestamp_bytes v)]"

definition tagged_block :: "uint32 \<Rightarrow> blob \<Rightarrow> block" where
  "tagged_block t b = Dtag t [] [Blob b]"

text \<open>Names that have an encoding: no empty component, and sizes below 4 GiB.\<close>

definition name_encodable :: "name \<Rightarrow> bool" where
  "name_encodable n \<longleftrightarrow> (\<forall>c\<in>set (comps n). bytes c \<noteq> [] \<and> length (bytes c) < 2 ^ 32)"

lemmas append_defs = AppendBlockHeader_def AppendCloser_def AppendNumber_def AppendTaggedNumber_def
  AppendTimestampBlob_def SerializeName_def

lemma write_name:
  "name_encodable n \<Longrightarrow> fst (SerializeName s n) = s @ concat (map enc_block (map comp_block (comps n)))"
  unfolding SerializeName_def serialize_components_eq name_encodable_def
  by (auto simp: AppendTaggedBlob_eq comp_block_def intro!: arg_cong [of _ _ concat])

lemma write_number: "AppendTaggedNumber s t v = s @ enc_block (number_block t v)"
  by (simp add: append_defs number_block_def Let_def string_bytes_def)

lemma write_time:
  "fst (AppendCloser (fst (AppendTimestampBlob (fst (AppendBlockHeader s (ucast t) NDN_DTAG)) v))) =
    s @ enc_block (time_block t v)"
  by (simp add: append_defs time_block_def Let_def timestamp_bytes_length)

lemma write_tagged: "b \<noteq> [] \<Longrightarrow> fst (AppendTaggedBlob s t b) = s @ enc_block (tagged_block t b)"
  by (simp add: AppendTaggedBlob_eq tagged_block_def)

lemma time_length: "length (timestamp_bytes v) \<le> 7"
proof -
  have "n \<le> 7 \<Longrightarrow> required_bytes n ts \<le> 7" for n ts
    by (induction n ts rule: required_bytes.induct) (subst required_bytes.simps, auto)
  then show ?thesis by (simp add: timestamp_bytes_length)
qed

lemma wf_written [simp]:
  "name_encodable n \<Longrightarrow> wf_block (name_block n)"
  "wf_block (number_block t v)"
  "wf_block (time_block t s)"
  "length b < 2 ^ 32 \<Longrightarrow> wf_block (tagged_block t b)"
proof -
  have "unat v < 10 ^ 10" using unsigned_less [of v, where ?'a = nat] by simp
  then show "wf_block (number_block t v)"
    using decimal_length [of "unat v" 10] by (simp add: number_block_def string_bytes_def)
  show "wf_block (time_block t s)"
    using time_length [of s] by (simp add: time_block_def)
qed (auto simp: name_block_def comp_block_def tagged_block_def name_encodable_def hd_map)

lemma not_attr [simp]:
  "\<not> is_attr (name_block n)" "\<not> is_attr (number_block t v)" "\<not> is_attr (time_block t s)" "\<not> is_attr (tagged_block t b)"
  by (simp_all add: name_block_def number_block_def time_block_def tagged_block_def)

section \<open>Visiting the written blocks\<close>

lemma name_visit_comps:
  "\<forall>c\<in>set cs. bytes c \<noteq> [] \<Longrightarrow> name_visit_all (map comp_block cs) n = Inr (Name (comps n @ cs))"
proof (induction cs arbitrary: n)
  case (Cons c cs)
  then show ?case
    by (cases c) (simp add: comp_block_def string_visit_def appendBySwap_def component_of_blob_def component_size_def)
qed (simp add: name.expand)

lemma name_visit_block [simp]: "name_encodable n \<Longrightarrow> name_visit (name_block n) (Name []) = Inr n"
  by (cases n)
    (simp add: name_block_def name_visit_comps name_encodable_def dtag_defs)

lemma nonneg_number [simp]:
  "unat v < 2 ^ 31 \<Longrightarrow> nonneg_visit (Udata (string_bytes (decimal (unat v)))) = Inr (AnyUint32 v)"
  by (simp add: nonneg_visit_def read_decimal)

lemma timestamp_block [simp]: "timestamp_visit (Blob (timestamp_bytes ti)) = Inr (AnyTime (wire_time ti))"
  unfolding timestamp_visit_def by (simp only: accept_no_argu.simps timestamp_visits)

text \<open>A name written inside a \<open>Name\<close> element reads back: \<open>DeserializeName\<close>
  returns the same name and stops right behind the element.\<close>

theorem name_roundtrip:
  assumes "name_encodable n"
  shows "DeserializeName (open_stream (fst (AppendCloser (fst (SerializeName
      (fst (AppendBlockHeader [] (ucast NDN_DTAG_Name) NDN_DTAG)) n))) @ rest)) =
    Inr (n, advance (length (enc_block (name_block n))) (open_stream (enc_block (name_block n) @ rest)))"
proof -
  have e: "fst (AppendCloser (fst (SerializeName (fst (AppendBlockHeader [] (ucast NDN_DTAG_Name) NDN_DTAG)) n))) =
      enc_block (name_block n)"
    using assms by (simp add: write_name AppendBlockHeader_def AppendCloser_def name_block_def)
  show ?thesis
    using assms ParseBlock_back [OF wf_written(1) [OF assms] reads_open]
    unfolding e by (simp add: DeserializeName_def)
qed

theorem name_roundtrip_witness:
  "DeserializeName (open_stream (fst (AppendCloser (fst (SerializeName
      (fst (AppendBlockHeader [] (ucast NDN_DTAG_Name) NDN_DTAG)) (Name [Component [104, 105], Component [0]])))) @ [7])) =
    Inr (Name [Component [104, 105], Component [0]],
      advance (length (enc_block (name_block (Name [Component [104, 105], Component [0]]))))
        (open_stream (enc_block (name_block (Name [Component [104, 105], Component [0]])) @ [7])))"
  by (rule name_roundtrip) (simp add: name_encodable_def)

section \<open>Interest round trip\<close>

definition opt_block :: "bool \<Rightarrow> block \<Rightarrow> block list" where
  "opt_block c b = (if c then [b] else [])"

definition interest_block :: "interest \<Rightarrow> block" where
  "interest_block i = Dtag NDN_DTAG_Interest [] (name_block (i_name i) #
     opt_block (i_minSuffixComponents i \<noteq> ncomps) (number_block NDN_DTAG_MinSuffixComponents (i_minSuffixComponents i)) @
     opt_block (i_maxSuffixComponents i \<noteq> ncomps) (number_block NDN_DTAG_MaxSuffixComponents (i_maxSuffixComponents i)) @
     opt_block (i_childSelector i \<noteq> CHILD_DEFAULT) (number_block NDN_DTAG_ChildSelector (ucast (i_childSelector i))) @
     opt_block (i_answerOriginKind i \<noteq> AOK_DEFAULT) (number_block NDN_DTAG_AnswerOriginKind (i_answerOriginKind i)) @
     opt_block (i_scope i \<noteq> NO_SCOPE) (number_block NDN_DTAG_Scope (ucast (i_scope i))) @
     opt_block (\<not> i_interestLifetime i < 0) (time_block NDN_DTAG_InterestLifetime (i_interestLifetime i)))"

lemma append_when_block:
  "(\<And>s. f s = s @ enc_block b) \<Longrightarrow> append_when c f s = s @ concat (map enc_block (opt_block c b))"
  by (simp add: append_when_def opt_block_def)

lemma write_interest:
  assumes "name_encodable (i_name i)"
  shows "Serialize_interest i s = s @ enc_block (interest_block i)"
  unfolding Serialize_interest_def Let_def
    append_when_block [OF write_number] append_when_block [OF write_time]
  using assms by (simp add: write_name AppendBlockHeader_def AppendCloser_def interest_block_def name_block_def)

lemma opt_block_set: "b \<in> set (opt_block c b') \<longleftrightarrow> c \<and> b = b'"
  by (auto simp: opt_block_def)

lemma wf_interest: "name_encodable (i_name i) \<Longrightarrow> wf_block (interest_block i)"
  by (auto simp: interest_block_def opt_block_set)

lemma interest_visit_opt:
  "interest_visit_all (opt_block c b) i = (if c then interest_visit b i else Inr i)"
  "interest_visit_all (opt_block c b @ cs) i = bindE (if c then interest_visit b i else Inr i) (interest_visit_all cs)"
  by (cases "interest_visit b i", simp_all add: opt_block_def)+

lemma interest_visit_number:
  "interest_visit (number_block NDN_DTAG_MinSuffixComponents v) i = Inr i"
  "interest_visit (number_block NDN_DTAG_MaxSuffixComponents v) i = Inr i"
  "interest_visit (number_block NDN_DTAG_ChildSelector v) i = Inr i"
  "interest_visit (number_block NDN_DTAG_AnswerOriginKind v) i = Inr i"
  by (simp_all add: number_block_def dtag_defs)

lemma interest_visit_scope:
  "interest_visit (number_block NDN_DTAG_Scope (ucast (s :: byte))) i = Inr (setScope s i)"
proof -
  have "unat (ucast s :: uint32) = unat s"
    using unat_byte_less [of s] by (simp add: unsigned_ucast_eq take_bit_nat_eq_self_iff)
  then have "unat (ucast s :: uint32) < 2 ^ 31" using unat_byte_less [of s] by simp
  moreover have "ucast (ucast s :: uint32) = s" by (rule bit_word_eqI) (simp add: bit_simps)
  ultimately show ?thesis
    using nonneg_number [of "ucast s"] by (simp add: number_block_def dtag_defs)
qed

lemma interest_visit_name:
  "name_encodable n \<Longrightarrow> interest_visit (name_block n) i = Inr (setName n i)"
  using name_visit_block [of n] by (simp add: name_block_def dtag_defs)

lemma interest_visit_lifetime:
  "0 \<le> S \<Longrightarrow> S < 2 ^ 31 \<Longrightarrow>
    interest_visit (time_block NDN_DTAG_InterestLifetime (S * 1000000)) i = Inr (setInterestLifetime (S * 1000000) i)"
  by (simp add: time_block_def dtag_defs)

text \<open>Property C18.  An Interest decodes from its own encoding: for every Interest with an
  encodable name and a lifetime that is unset or a whole number of seconds, \<open>decodeFromWire\<close>
  of \<open>encodeToWire\<close> succeeds, and the result has the name, the scope and the lifetime that were
  encoded.  The selectors, although they are written, come back with their defaults.\<close>

theorem interest_roundtrip:
  assumes "name_encodable (i_name i)"
    and "i_interestLifetime i < 0 \<or> (\<exists>S. i_interestLifetime i = S * 1000000 \<and> 0 \<le> S \<and> S < 2 ^ 31)"
  shows "decodeFromWire_interest (encodeToWire_interest i) =
    Inr ((new_interest (i_name i))\<lparr> i_scope := i_scope i,
      i_interestLifetime := (if i_interestLifetime i < 0 then -1000000 else i_interestLifetime i) \<rparr>)"
proof -
  let ?i = "new_interest (Name [])"
  have p: "ParseBlock (open_stream (encodeToWire_interest i)) =
      Inr (interest_block i, advance (length (enc_block (interest_block i))) (open_stream (enc_block (interest_block i))))"
    using ParseBlock_back [OF wf_interest [OF assms(1)], of "open_stream (enc_block (interest_block i))" "[]"]
      reads_open [of "enc_block (interest_block i)"] write_interest [OF assms(1), of "[]"]
    by (simp add: encodeToWire_interest_def)
  have "decodeFromWire_interest (encodeToWire_interest i) = interest_visit (interest_block i) ?i"
    by (simp add: decodeFromWire_interest_def Deserialize_interest_def p)
  also have "\<dots> = bindE (Inr (if i_scope i \<noteq> NO_SCOPE then setScope (i_scope i) (setName (i_name i) ?i) else setName (i_name i) ?i))
      (interest_visit_all (opt_block (\<not> i_interestLifetime i < 0)
        (time_block NDN_DTAG_InterestLifetime (i_interestLifetime i))))"
    using assms(1)
    by (simp add: interest_block_def interest_visit_opt interest_visit_number interest_visit_scope interest_visit_name)
  also have "\<dots> = Inr ((new_interest (i_name i))\<lparr> i_scope := i_scope i,
      i_interestLifetime := (if i_interestLifetime i < 0 then -1000000 else i_interestLifetime i) \<rparr>)"
    using assms(2)
    by (auto simp: interest_visit_opt interest_visit_lifetime new_interest_def setScope_def setName_def
        setInterestLifetime_def seconds_of_double_def)
  finally show ?thesis .
qed

theorem interest_roundtrip_witness:
  "decodeFromWire_interest (encodeToWire_interest
      (setInterestLifetime 4000000 (setScope 1 (new_interest (Name [Component [104, 105]]))))) =
    Inr ((new_interest (Name [Component [104, 105]]))\<lparr> i_scope := 1, i_interestLifetime := 4000000 \<rparr>)"
  using interest_roundtrip [of "setInterestLifetime 4000000 (setScope 1 (new_interest (Name [Component [104, 105]])))"]
  by (simp add: name_encodable_def setInterestLifetime_def setScope_def new_interest_def exI [of _ 4])

section \<open>Data round trip\<close>

definition padded :: "blob \<Rightarrow> blob" where
  "padded bs = bs @ replicate (16 - length bs) 0"

text \<open>
  The packets that have an encoding: a signature with a \<open>KEYNAME\<close> locator and a digest, a
  content that is not empty, a timestamp, no wire kept from an earlier decoding, and sizes below 4 GiB.
\<close>

definition data_encodable :: "ndn_data \<Rightarrow> sha256_with_rsa \<Rightarrow> int \<Rightarrow> name \<Rightarrow> bool" where
  "data_encodable d sig ti keyName \<longleftrightarrow>
     d_wire d = None \<and> d_signature d = Some sig \<and> m_keyLocator sig = LocKeyName keyName \<and>
     m_timestamp (d_content d) = Some ti \<and>
     name_encodable (d_name d) \<and> name_encodable keyName \<and>
     m_publisherKeyDigest sig \<noteq> [] \<and> length (m_publisherKeyDigest sig) < 2 ^ 32 \<and>
     length (m_signatureBits sig) < 2 ^ 32 \<and>
     m_content (d_content d) \<noteq> [] \<and> length (m_content (d_content d)) < 2 ^ 32"

definition unsigned_blocks :: "ndn_data \<Rightarrow> sha256_with_rsa \<Rightarrow> int \<Rightarrow> name \<Rightarrow> block list" where
  "unsigned_blocks d sig ti keyName =
     [name_block (d_name d),
      Dtag NDN_DTAG_SignedInfo []
        [tagged_block NDN_DTAG_PublisherPublicKeyDigest (m_publisherKeyDigest sig),
         time_block NDN_DTAG_Timestamp ti,
         Dtag NDN_DTAG_KeyLocator [] [Dtag NDN_DTAG_KeyName [] [name_block keyName]]],
      tagged_block NDN_DTAG_Content (m_content (d_content d))]"

definition data_block :: "ndn_data \<Rightarrow> sha256_with_rsa \<Rightarrow> int \<Rightarrow> name \<Rightarrow> block" where
  "data_block d sig ti keyName =
     Dtag NDN_DTAG_Data []
       (Dtag NDN_DTAG_Signature [] [tagged_block NDN_DTAG_SignatureBits (padded (m_signatureBits sig))] #
        unsigned_blocks d sig ti keyName)"

lemma write_unsigned:
  assumes "data_encodable d sig ti keyName"
  shows "SerializeUnsigned d s = Inr (s @ concat (map enc_block (unsigned_blocks d sig ti keyName)))"
proof -
  let ?l = "length (m_content (d_content d))"
  have l: "?l < 2 ^ 32" "0 < ?l" using assms by (auto simp: data_encodable_def)
  then have "unat (of_nat ?l :: uint32) = ?l" by (simp add: len_value)
  then have "0 < (of_nat ?l :: uint32)" "(ucast (of_nat ?l :: uint32) :: uint64) = of_nat ?l"
    using l by (simp add: word_less_nat_alt, metis of_nat_unat)
  then show ?thesis
    using assms
    by (simp add: SerializeUnsigned_def data_encodable_def Let_def write_name write_tagged AppendBlockHeader_def
        AppendCloser_def AppendTimestampBlob_def timestamp_bytes_length unsigned_blocks_def name_block_def
        tagged_block_def time_block_def)
qed

lemma write_padded:
  assumes "length b < 2 ^ 32"
  shows "fst (AppendTaggedBlobWithPadding s t 16 b) = s @ enc_block (tagged_block t (padded b))"
proof (cases "length b > 16")
  case True
  then have "b \<noteq> []" by auto
  then show ?thesis using True
    by (simp add: AppendTaggedBlobWithPadding_def write_tagged padded_def)
next
  case False
  then show ?thesis
    by (simp add: AppendTaggedBlobWithPadding_def AppendBlockHeader_def AppendCloser_def tagged_block_def padded_def)
qed

lemma write_data:
  assumes "data_encodable d sig ti keyName"
  shows "encodeToWire_data d = Inr (enc_block (data_block d sig ti keyName))"
proof -
  have "d_signature d = Some sig" "d_wire d = None" "length (m_signatureBits sig) < 2 ^ 32"
    using assms by (simp_all add: data_encodable_def)
  then show ?thesis
    using write_unsigned [OF assms]
    by (simp add: encodeToWire_data_def Serialize_data_def write_padded AppendBlockHeader_def AppendCloser_def
        data_block_def)
qed

lemma wf_data: "data_encodable d sig ti keyName \<Longrightarrow> wf_block (data_block d sig ti keyName)"
  by (auto simp: data_block_def unsigned_blocks_def data_encodable_def padded_def)

lemma data_visit_leaves:
  "data_visit now (tagged_block NDN_DTAG_SignatureBits b) d = on_signature (\<lambda>sig. Inr (sig\<lparr> m_signatureBits := b \<rparr>)) d"
  "data_visit now (tagged_block NDN_DTAG_PublisherPublicKeyDigest b) d =
    on_signature (\<lambda>sig. Inr (sig\<lparr> m_publisherKeyDigest := b \<rparr>)) d"
  "data_visit now (tagged_block NDN_DTAG_Content b) d = Inr (on_content (\<lambda>c. c\<lparr> m_content := b \<rparr>) d)"
  "name_encodable n \<Longrightarrow> data_visit now (name_block n) d = Inr (d\<lparr> d_name := n \<rparr>)"
  "data_visit now (time_block NDN_DTAG_Timestamp ti) d = Inr (on_content (setTimeStamp now (Some (wire_time ti))) d)"
  using name_visit_block [of n]
  by (simp_all add: tagged_block_def name_block_def time_block_def single_def dtag_defs)

lemma data_visit_keyname:
  "name_encodable n \<Longrightarrow> data_visit now (Dtag NDN_DTAG_KeyName [] [name_block n]) d =
    on_signature (\<lambda>sig. bindE (setKeyName (setType (m_keyLocator sig) KEYNAME) n)
      (\<lambda>l. Inr (sig\<lparr> m_keyLocator := l \<rparr>))) d"
  using name_visit_block [of n] by (simp add: dtag_defs)

lemma data_visit_nested:
  "t \<in> {NDN_DTAG_Data, NDN_DTAG_Signature, NDN_DTAG_SignedInfo, NDN_DTAG_KeyLocator} \<Longrightarrow>
    data_visit now (Dtag t ats ns) d = data_visit_all now ns d"
  by auto

lemma decode_data:
  assumes "data_encodable d sig ti keyName" and "d_signature d0 = Some sig0"
  shows "Deserialize_data now d0 (open_stream (enc_block (data_block d sig ti keyName))) =
    Inr (d0\<lparr> d_name := d_name d,
       d_signature := Some \<lparr> m_signatureBits = padded (m_signatureBits sig),
          m_publisherKeyDigest = m_publisherKeyDigest sig, m_keyLocator = LocKeyName keyName \<rparr>,
       d_content := (d_content d0)\<lparr> m_timestamp := Some (wire_time ti), m_content := m_content (d_content d) \<rparr> \<rparr>)"
proof -
  let ?b = "data_block d sig ti keyName"
  have p: "ParseBlock (open_stream (enc_block ?b)) =
      Inr (?b, advance (length (enc_block ?b)) (open_stream (enc_block ?b)))"
    using ParseBlock_back [OF wf_data [OF assms(1)], of "open_stream (enc_block ?b)" "[]"] reads_open [of "enc_block ?b"]
    by simp
  show ?thesis
    using assms unfolding Deserialize_data_def p data_encodable_def
    by (simp add: data_block_def unsigned_blocks_def data_visit_nested data_visit_leaves data_visit_keyname
        on_signature_def on_content_def setTimeStamp_def setKeyName_def setType_def new_locator_def
        del: data_visit.simps)
qed

text \<open>Property C17.  A Data packet decodes from its own encoding.  For every packet that has an encoding of its own
  (a key name as key locator, a digest, a content that is not empty, a timestamp, no wire kept from an earlier decoding,
  sizes below 4 GiB) the name, the publisher digest, the key name and the content are recovered, and the signature bits up
  to the zero padding to 16 bytes that the encoder adds.  The timestamp is recovered when it is a whole
  number of seconds below \<open>2\<^sup>3\<^sup>1\<close>; any other timestamp is read as \<open>wire_time\<close>, which loses the fraction of the second.\<close>

theorem data_roundtrip:
  assumes "data_encodable d sig ti keyName"
  shows "\<exists>buf d'. encodeToWire_data d = Inr buf \<and> decodeFromWire_data now buf = Inr d' \<and>
    d_name d' = d_name d \<and>
    d_signature d' = Some \<lparr> m_signatureBits = m_signatureBits sig @ replicate (16 - length (m_signatureBits sig)) 0,
       m_publisherKeyDigest = m_publisherKeyDigest sig, m_keyLocator = LocKeyName keyName \<rparr> \<and>
    m_timestamp (d_content d') = Some (wire_time ti) \<and>
    (\<forall>S. ti = S * 1000000 \<longrightarrow> 0 \<le> S \<longrightarrow> S < 2 ^ 31 \<longrightarrow> m_timestamp (d_content d') = m_timestamp (d_content d)) \<and>
    m_content (d_content d') = m_content (d_content d)"
proof -
  have "m_timestamp (d_content d) = Some ti" using assms by (simp add: data_encodable_def)
  then show ?thesis
    using write_data [OF assms] decode_data [OF assms] by (auto simp: decodeFromWire_data_def Let_def padded_def)
qed

definition sample_data :: "blob \<Rightarrow> ndn_data" where
  "sample_data bits =
     \<lparr> d_name = Name [Component [104, 105]],
       d_signature = Some \<lparr> m_signatureBits = bits, m_publisherKeyDigest = [1, 2], m_keyLocator = LocKeyName (Name [Component [107]]) \<rparr>,
       d_content = make_content [5] 86000000 DATA maxFreshness (Component []), d_wire = None \<rparr>"

lemma sample_encodable:
  "length bits < 2 ^ 32 \<Longrightarrow> data_encodable (sample_data bits)
    \<lparr> m_signatureBits = bits, m_publisherKeyDigest = [1, 2], m_keyLocator = LocKeyName (Name [Component [107]]) \<rparr>
    86000000 (Name [Component [107]])"
  by (simp add: data_encodable_def sample_data_def make_content_def name_encodable_def)

theorem data_roundtrip_witness:
  "\<exists>buf d'. encodeToWire_data (sample_data [9]) = Inr buf \<and> decodeFromWire_data 0 buf = Inr d' \<and>
    d_name d' = Name [Component [104, 105]] \<and> m_content (d_content d') = [5] \<and> m_timestamp (d_content d') = Some 86000000"
proof -
  have "(86000000 :: int) = 86 * 1000000" by simp
  then show ?thesis using data_roundtrip [OF sample_encodable [of "[9]"], of 0] by (fastforce simp: sample_data_def make_content_def)
qed

lemma header_sizes:
  "length (header_bytes 64 NDN_DTAG) = 2" "length (header_bytes 37 NDN_DTAG) = 2"
  "length (header_bytes 54 NDN_DTAG) = 2" "length (header_bytes 256 NDN_BLOB) = 2"
  by (simp_all add: header_bytes_length EstimateBlockHeader_def estimate_loop.simps)

text \<open>The bytes in front of the signed portion, with a signature of 256 bytes.\<close>

lemma data_split:
  assumes "length (m_signatureBits sig) = 256"
  obtains pre where "length pre = 266"
    "enc_block (data_block d sig ti keyName) = pre @ concat (map enc_block (unsigned_blocks d sig ti keyName)) @ [NDN_CLOSE]"
proof
  let ?pre = "header_bytes 64 NDN_DTAG @ header_bytes 37 NDN_DTAG @ header_bytes 54 NDN_DTAG @
    header_bytes 256 NDN_BLOB @ m_signatureBits sig @ [NDN_CLOSE, NDN_CLOSE]"
  show "length ?pre = 266" using assms by (simp add: header_sizes)
  show "enc_block (data_block d sig ti keyName) = ?pre @ concat (map enc_block (unsigned_blocks d sig ti keyName)) @ [NDN_CLOSE]"
    using assms by (simp add: data_block_def tagged_block_def padded_def dtag_defs)
qed

lemma signed_portion_split:
  assumes "length pre = 266" and "length (pre @ u @ [c]) < 2 ^ 64"
  shows "signed_bytes (setSignedPortion MAGIC_SIGNED_BLOB_OFFSET
      (of_nat (length (pre @ u @ [c])) - MAGIC_SIGNED_BLOB_OFFSET - LAST_CLOSER_SIZE)
      \<lparr> sb_bytes = pre @ u @ [c], sb_signedBegin = 0, sb_signedEnd = 0 \<rparr>) = u"
proof -
  have "unat (of_nat (length u) :: uint64) = length u"
    using assms(2) by (simp add: unat_of_nat)
  then show ?thesis
    using assms(1)
    by (simp add: signed_bytes_def setSignedPortion_def signed_size_def MAGIC_SIGNED_BLOB_OFFSET_def
        LAST_CLOSER_SIZE_def)
qed

lemma signed_portion_back:
  assumes "data_encodable d sig ti keyName" and "length (m_signatureBits sig) = 256"
    and "encodeToWire_data d = Inr buf" and "length buf < 2 ^ 64"
  shows "\<exists>d' w. decodeFromWire_data now buf = Inr d' \<and> d_wire d' = Some w \<and>
    encodeToUnsignedWire d = Inr (signed_bytes w) \<and> encodeToWire_data d' = Inr buf \<and>
    d_signature d' = Some \<lparr> m_signatureBits = m_signatureBits sig,
      m_publisherKeyDigest = m_publisherKeyDigest sig, m_keyLocator = LocKeyName keyName \<rparr> \<and>
    d_name d' = d_name d \<and> m_content (d_content d') = m_content (d_content d)"
proof -
  let ?u = "concat (map enc_block (unsigned_blocks d sig ti keyName))"
  let ?b = "data_block d sig ti keyName"
  have buf: "buf = enc_block ?b" using write_data [OF assms(1)] assms(3) by simp
  obtain pre where pre: "length pre = 266" "enc_block ?b = pre @ ?u @ [NDN_CLOSE]"
    using data_split [OF assms(2)] by metis
  let ?w = "setSignedPortion MAGIC_SIGNED_BLOB_OFFSET
      (of_nat (length (enc_block ?b)) - MAGIC_SIGNED_BLOB_OFFSET - LAST_CLOSER_SIZE)
      \<lparr> sb_bytes = enc_block ?b, sb_signedBegin = 0, sb_signedEnd = 0 \<rparr>"
  have w: "signed_bytes ?w = ?u"
    using signed_portion_split [OF pre(1), of ?u NDN_CLOSE] assms(4) unfolding buf pre(2) by simp
  obtain d' where d': "decodeFromWire_data now buf = Inr d'" "d_wire d' = Some ?w"
      "d_signature d' = Some \<lparr> m_signatureBits = m_signatureBits sig,
         m_publisherKeyDigest = m_publisherKeyDigest sig, m_keyLocator = LocKeyName keyName \<rparr>"
      "d_name d' = d_name d" "m_content (d_content d') = m_content (d_content d)"
    using decode_data [OF assms(1)] assms(2) by (simp add: buf decodeFromWire_data_def Let_def padded_def)
  have "fst (AppendTaggedBlobWithPadding s NDN_DTAG_SignatureBits 16 (m_signatureBits sig)) =
      s @ enc_block (tagged_block NDN_DTAG_SignatureBits (padded (m_signatureBits sig)))" for s
    using assms(2) by (intro write_padded) simp
  then have "encodeToWire_data d' = Inr buf"
    using d' w
    by (simp add: encodeToWire_data_def Serialize_data_def AppendBlockHeader_def AppendCloser_def buf data_block_def)
  then show ?thesis
    using d' w write_unsigned [OF assms(1), of "[]"] by (simp add: encodeToUnsignedWire_def)
qed

text \<open>Property C5.  The signed portion of a decoded packet: with a signature of 256 bytes (RSA
  with 2048 bits), the range that \<open>decodeFromWire\<close> marks by a constant offset is exactly the
  encoding that was signed, and encoding the decoded packet again reproduces the buffer.\<close>

theorem signed_portion:
  assumes "data_encodable d sig ti keyName" and "length (m_signatureBits sig) = 256"
    and "encodeToWire_data d = Inr buf" and "length buf < 2 ^ 64"
  shows "\<exists>d' w. decodeFromWire_data now buf = Inr d' \<and> d_wire d' = Some w \<and>
    encodeToUnsignedWire d = Inr (signed_bytes w) \<and> encodeToWire_data d' = Inr buf"
  using signed_portion_back [OF assms] by blast

theorem signed_portion_witness:
  "\<exists>buf d' w. encodeToWire_data (sample_data (replicate 256 7)) = Inr buf \<and> decodeFromWire_data 0 buf = Inr d' \<and>
    d_wire d' = Some w \<and> encodeToUnsignedWire (sample_data (replicate 256 7)) = Inr (signed_bytes w)"
proof -
  let ?d = "sample_data (replicate 256 7)"
  let ?sig = "\<lparr> m_signatureBits = replicate 256 7, m_publisherKeyDigest = [1, 2], m_keyLocator = LocKeyName (Name [Component [107]]) \<rparr>"
  have e: "data_encodable ?d ?sig 86000000 (Name [Component [107]])" by (rule sample_encodable) simp
  obtain pre where pre: "length pre = 266" "enc_block (data_block ?d ?sig 86000000 (Name [Component [107]])) =
      pre @ concat (map enc_block (unsigned_blocks ?d ?sig 86000000 (Name [Component [107]]))) @ [NDN_CLOSE]"
    by (rule data_split [of ?sig]) simp
  have "length (enc_block (data_block ?d ?sig 86000000 (Name [Component [107]]))) < 2 ^ 64"
    unfolding pre(2) using pre(1) time_length [of 86000000]
    by (simp add: unsigned_blocks_def name_block_def comp_block_def tagged_block_def time_block_def sample_data_def
        make_content_def header_bytes_length EstimateBlockHeader_def estimate_loop.simps dtag_defs timestamp_bytes_length)
  then show ?thesis
    using signed_portion [OF e _ write_data [OF e], of 0] write_data [OF e] by auto
qed

section \<open>Fractions of a second\<close>

text \<open>
  The fraction is written in units of 1/4096 second and read back a thousand times too small;
  a fraction that rounds up to a whole second is carried out of the two low bytes.
\<close>

lemma fraction_scaled: "timestamp_visit_blob (timestamp_bytes 500000) = Inr (AnyTime 500)"
proof -
  have "timestamp_bytes 500000 = [8, 0]"
    by (simp add: timestamp_bytes_def timestamp_low_def total_seconds_def total_nanoseconds_def
        required_bytes.simps signed_divide_int_def signed_modulo_int_def drop_bit_eq_div upt_conv_Cons)
  then show ?thesis by (simp add: timestamp_visit_blob_def timestamp_seconds_def signed_divide_int_def)
qed

lemma fraction_carry_lost: "timestamp_visit_blob (timestamp_bytes 15999900) = Inr (AnyTime 0)"
proof -
  have "timestamp_bytes 15999900 = [0, 0]"
    by (simp add: timestamp_bytes_def timestamp_low_def total_seconds_def total_nanoseconds_def
        required_bytes.simps signed_divide_int_def signed_modulo_int_def drop_bit_eq_div upt_conv_Cons)
  then show ?thesis by (simp add: timestamp_visit_blob_def timestamp_seconds_def signed_divide_int_def)
qed

end
