(* ===== verification/Identity_Store.thy ===== *)
theory Identity_Store
  imports Key_Store Ndnb_Wire
begin

text \<open>
  \<open>ndn.cxx/security/identity/basic-identity-storage.cc\<close> and \<open>identity-storage.cc\<close>: identities, keys and
  certificates in an SQL database.  A table is the list of its rows; the SQL statements of the source are
  the operations on these lists (\<open>SELECT\<close> a \<open>filter\<close> or \<open>find\<close>, \<open>UPDATE\<close> a \<open>map\<close>, \<open>INSERT\<close> an append
  that a violated primary key makes ineffective, because the result of \<open>sqlite3_step\<close> is ignored).  SQL
  leaves the order of the rows of a \<open>SELECT\<close> open; what is proved about lists of names is about their sets.
  The SQL function \<open>datetime (n, 'unixepoch')\<close> is the parameter \<open>datetime\<close>; it gives NULL out of its range.
\<close>

section \<open>Tables\<close>



record identity_row =
  id_uri :: string
  id_default :: int

record key_row =
  k_identity :: string
  k_identifier :: string
  k_type :: key_type
  k_public :: blob
  k_default :: int
  k_active :: int

record cert_row =
  r_name :: string
  r_issuer :: string
  r_identity :: string
  r_identifier :: string
  r_before :: "string option"
  r_after :: "string option"
  r_data :: blob
  r_valid :: int
  r_default :: int

record identity_db =
  db_identity :: "identity_row list"
  db_key :: "key_row list"
  db_cert :: "cert_row list"

text \<open>The constructor: a table that the file does not have yet is created empty.\<close>

definition open_table :: "'r list option \<Rightarrow> 'r list" where
  "open_table t = (case t of None \<Rightarrow> [] | Some rows \<Rightarrow> rows)"

definition new_identity_storage ::
    "identity_row list option \<Rightarrow> key_row list option \<Rightarrow> cert_row list option \<Rightarrow> identity_db" where
  "new_identity_storage ids ks cs =
     \<lparr> db_identity = open_table ids, db_key = open_table ks, db_cert = open_table cs \<rparr>"

section \<open>Identities\<close>

definition doesIdentityExist :: "name \<Rightarrow> identity_db \<Rightarrow> bool" where
  "doesIdentityExist identity db \<longleftrightarrow> length (filter (\<lambda>r. id_uri r = name_toUri identity) (db_identity db)) > 0"

definition insert_identity :: "identity_row \<Rightarrow> identity_db \<Rightarrow> identity_db" where
  "insert_identity r db =
     (if list_ex (\<lambda>r'. id_uri r' = id_uri r) (db_identity db) then db
      else db\<lparr> db_identity := db_identity db @ [r] \<rparr>)"

definition addIdentity :: "name \<Rightarrow> (identity_db, unit) action" where
  "addIdentity identity =
     bindA (readA (doesIdentityExist identity)) (\<lambda>ex.
       if ex then throwA SecException
       else writeA (insert_identity \<lparr> id_uri = name_toUri identity, id_default = 0 \<rparr>))"

section \<open>Keys\<close>

text \<open>The key identifier and the identity that every operation on a key computes first.\<close>

definition split_key :: "name \<Rightarrow> (string \<times> name) result" where
  "split_key keyName =
     bindE (name_get keyName (-1)) (\<lambda>c.
       bindE (getSubName keyName 0 (of_nat (name_size keyName) - 1)) (\<lambda>identity.
         Inr (component_toUri c, identity)))"

definition has_key :: "string \<Rightarrow> string \<Rightarrow> key_row \<Rightarrow> bool" where
  "has_key identity keyId r \<longleftrightarrow> k_identity r = identity \<and> k_identifier r = keyId"

definition doesKeyExist :: "name \<Rightarrow> identity_db \<Rightarrow> bool result" where
  "doesKeyExist keyName db =
     bindE (split_key keyName) (\<lambda>(keyId, identity).
       Inr (length (filter (has_key (name_toUri identity) keyId) (db_key db)) > 0))"

definition insert_key :: "key_row \<Rightarrow> identity_db \<Rightarrow> identity_db" where
  "insert_key r db =
     (if list_ex (has_key (k_identity r) (k_identifier r)) (db_key db) then db
      else db\<lparr> db_key := db_key db @ [r] \<rparr>)"

definition addKey :: "name \<Rightarrow> key_type \<Rightarrow> blob \<Rightarrow> (identity_db, unit) action" where
  "addKey keyName keyType pubKeyBlob =
     bindA (pureA (split_key keyName)) (\<lambda>(keyId, identity).
       bindA (bindA (readA (doesIdentityExist identity)) (\<lambda>ex. if \<not> ex then addIdentity identity else retA ())) (\<lambda>_.
         bindA (askA (doesKeyExist keyName)) (\<lambda>ex.
           if ex then throwA SecException
           else writeA (insert_key
             \<lparr> k_identity = name_toUri identity, k_identifier = keyId, k_type = keyType, k_public = pubKeyBlob,
               k_default = 0, k_active = 0 \<rparr>))))"

definition getKey_blob :: "name \<Rightarrow> identity_db \<Rightarrow> blob option result" where
  "getKey_blob keyName db =
     bindE (doesKeyExist keyName db) (\<lambda>ex.
       if \<not> ex then Inr None
       else bindE (split_key keyName) (\<lambda>(keyId, identity).
         Inr (map_option k_public (find (has_key (name_toUri identity) keyId) (db_key db)))))"

definition update_keys :: "(key_row \<Rightarrow> bool) \<Rightarrow> (key_row \<Rightarrow> key_row) \<Rightarrow> identity_db \<Rightarrow> identity_db" where
  "update_keys P f db = db\<lparr> db_key := map (\<lambda>r. if P r then f r else r) (db_key db) \<rparr>"

definition updateKeyStatus :: "name \<Rightarrow> bool \<Rightarrow> (identity_db, unit) action" where
  "updateKeyStatus keyName active =
     bindA (pureA (split_key keyName)) (\<lambda>(keyId, identity).
       writeA (update_keys (has_key (name_toUri identity) keyId) (\<lambda>r. r\<lparr> k_active := if active then 1 else 0 \<rparr>)))"

definition activateKey :: "name \<Rightarrow> (identity_db, unit) action" where
  "activateKey keyName = updateKeyStatus keyName True"

definition deactivateKey :: "name \<Rightarrow> (identity_db, unit) action" where
  "deactivateKey keyName = updateKeyStatus keyName False"

section \<open>Certificates\<close>

definition doesCertificateExist :: "name \<Rightarrow> identity_db \<Rightarrow> bool" where
  "doesCertificateExist certName db \<longleftrightarrow> length (filter (\<lambda>r. r_name r = name_toUri certName) (db_cert db)) > 0"

definition insert_certificate :: "cert_row \<Rightarrow> identity_db \<Rightarrow> identity_db" where
  "insert_certificate r db =
     (if list_ex (\<lambda>r'. r_name r' = r_name r) (db_cert db) then db
      else db\<lparr> db_cert := db_cert db @ [r] \<rparr>)"

text \<open>
  The seconds since the epoch of a validity time.  For the special times boost gives no defined number.
\<close>

fun epoch_seconds :: "ptime \<Rightarrow> int result" where
  "epoch_seconds (PTime t) = Inr (total_seconds t)"
| "epoch_seconds _ = Inl UndefinedBehaviour"

text \<open>The row that both insertions of a certificate bind to the statement.\<close>

definition certificate_row :: "(int \<Rightarrow> string option) \<Rightarrow> identity_certificate \<Rightarrow> cert_row result" where
  "certificate_row datetime c =
     bindE (split_key (c_publicKeyName c)) (\<lambda>(keyId, identity).
       case d_signature c of
         None \<Rightarrow> Inl UndefinedBehaviour
       | Some sig \<Rightarrow>
           bindE (getKeyName (m_keyLocator sig)) (\<lambda>signerName.
             bindE (epoch_seconds (c_notBefore c)) (\<lambda>notBefore.
               bindE (epoch_seconds (c_notAfter c)) (\<lambda>notAfter.
                 bindE (encodeToWire_data (ndn_data.truncate c)) (\<lambda>certBlob.
                   Inr \<lparr> r_name = name_toUri (d_name c), r_issuer = name_toUri signerName,
                         r_identity = name_toUri identity, r_identifier = keyId,
                         r_before = datetime notBefore, r_after = datetime notAfter,
                         r_data = certBlob, r_valid = 1, r_default = 0 \<rparr>)))))"

definition addAnyCertificate :: "(int \<Rightarrow> string option) \<Rightarrow> identity_certificate \<Rightarrow> (identity_db, unit) action" where
  "addAnyCertificate datetime c =
     bindA (pureA (certificate_row datetime c)) (\<lambda>r. writeA (insert_certificate r))"

definition storage_addCertificate :: "(int \<Rightarrow> string option) \<Rightarrow> identity_certificate \<Rightarrow> (identity_db, unit) action" where
  "storage_addCertificate datetime c =
     bindA (askA (doesKeyExist (c_publicKeyName c))) (\<lambda>keyEx.
       if \<not> keyEx then throwA SecException
       else bindA (readA (doesCertificateExist (d_name c))) (\<lambda>certEx.
         if certEx then throwA SecException
         else bindA (askA (getKey_blob (c_publicKeyName c))) (\<lambda>keyBlob.
           if keyBlob = None \<or> the keyBlob \<noteq> pk_key (c_key c) then throwA SecException
           else bindA (pureA (certificate_row datetime c)) (\<lambda>r. writeA (insert_certificate r)))))"

text \<open>Text values are compared byte by byte; a comparison with NULL does not hold.\<close>

fun text_less :: "string \<Rightarrow> string \<Rightarrow> bool" where
  "text_less s [] = False"
| "text_less [] (c # cs) = True"
| "text_less (b # bs) (c # cs) =
     ((of_char b :: nat) < of_char c \<or> of_char b = (of_char c :: nat) \<and> text_less bs cs)"

definition sql_less :: "string option \<Rightarrow> string option \<Rightarrow> bool" where
  "sql_less a b = (case (a, b) of (Some s, Some t) \<Rightarrow> text_less s t | _ \<Rightarrow> False)"

text \<open>\<open>getCertificate\<close> at the time \<open>now\<close>.\<close>

definition cert_selected :: "(int \<Rightarrow> string option) \<Rightarrow> int \<Rightarrow> name \<Rightarrow> bool \<Rightarrow> cert_row \<Rightarrow> bool" where
  "cert_selected datetime now certName any r \<longleftrightarrow>
     r_name r = name_toUri certName \<and>
     (any \<or> sql_less (r_before r) (datetime (total_seconds now)) \<and>
            sql_less (datetime (total_seconds now)) (r_after r) \<and> r_valid r = 1)"

definition storage_getCertificate ::
    "(int \<Rightarrow> string option) \<Rightarrow> int \<Rightarrow> name \<Rightarrow> bool \<Rightarrow> identity_db \<Rightarrow> ndn_data option result" where
  "storage_getCertificate datetime now certName any db =
     (if doesCertificateExist certName db then
        (case find (cert_selected datetime now certName any) (db_cert db) of
           None \<Rightarrow> Inr None
         | Some r \<Rightarrow> bindE (decodeFromWire_data now (r_data r)) (\<lambda>data. Inr (Some data)))
      else Inr None)"

section \<open>Defaults\<close>

definition getDefaultIdentity :: "identity_db \<Rightarrow> name result" where
  "getDefaultIdentity db =
     (case find (\<lambda>r. id_default r = 1) (db_identity db) of
        None \<Rightarrow> Inr (Name [])
      | Some r \<Rightarrow> name_of_uri (id_uri r))"

definition getDefaultKeyNameForIdentity :: "name \<Rightarrow> identity_db \<Rightarrow> name result" where
  "getDefaultKeyNameForIdentity identity db =
     (case find (\<lambda>r. k_identity r = name_toUri identity \<and> k_default r = 1) (db_key db) of
        None \<Rightarrow> Inr (Name [])
      | Some r \<Rightarrow> append_string identity (k_identifier r))"

definition cert_of_key :: "string \<Rightarrow> string \<Rightarrow> cert_row \<Rightarrow> bool" where
  "cert_of_key identity keyId r \<longleftrightarrow> r_identity r = identity \<and> r_identifier r = keyId"

definition getDefaultCertificateNameForKey :: "name \<Rightarrow> identity_db \<Rightarrow> name result" where
  "getDefaultCertificateNameForKey keyName db =
     bindE (split_key keyName) (\<lambda>(keyId, identity).
       case find (\<lambda>r. cert_of_key (name_toUri identity) keyId r \<and> r_default r = 1) (db_cert db) of
         None \<Rightarrow> Inr (Name [])
       | Some r \<Rightarrow> name_of_uri (r_name r))"

definition update_identities :: "(identity_row \<Rightarrow> bool) \<Rightarrow> int \<Rightarrow> identity_db \<Rightarrow> identity_db" where
  "update_identities P v db =
     db\<lparr> db_identity := map (\<lambda>r. if P r then r\<lparr> id_default := v \<rparr> else r) (db_identity db) \<rparr>"

definition setDefaultIdentity :: "name \<Rightarrow> (identity_db, unit) action" where
  "setDefaultIdentity identity =
     bindA (writeA (update_identities (\<lambda>r. id_default r = 1) 0)) (\<lambda>_.
       writeA (update_identities (\<lambda>r. id_uri r = name_toUri identity) 1))"

definition setDefaultKeyNameForIdentity :: "name \<Rightarrow> name \<Rightarrow> (identity_db, unit) action" where
  "setDefaultKeyNameForIdentity keyName identityName =
     bindA (pureA (split_key keyName)) (\<lambda>(keyId, identity).
       if identityName \<noteq> Name [] \<and> identityName \<noteq> identity then throwA SecException
       else bindA (writeA (update_keys (\<lambda>r. k_default r = 1 \<and> k_identity r = name_toUri identity) (\<lambda>r. r\<lparr> k_default := 0 \<rparr>))) (\<lambda>_.
         writeA (update_keys (has_key (name_toUri identity) keyId) (\<lambda>r. r\<lparr> k_default := 1 \<rparr>))))"

definition update_certs :: "(cert_row \<Rightarrow> bool) \<Rightarrow> int \<Rightarrow> identity_db \<Rightarrow> identity_db" where
  "update_certs P v db = db\<lparr> db_cert := map (\<lambda>r. if P r then r\<lparr> r_default := v \<rparr> else r) (db_cert db) \<rparr>"

definition setDefaultCertificateNameForKey :: "name \<Rightarrow> name \<Rightarrow> (identity_db, unit) action" where
  "setDefaultCertificateNameForKey keyName certName =
     bindA (pureA (split_key keyName)) (\<lambda>(keyId, identity).
       bindA (writeA (update_certs (\<lambda>r. r_default r = 1 \<and> cert_of_key (name_toUri identity) keyId r) 0)) (\<lambda>_.
         writeA (update_certs (\<lambda>r. cert_of_key (name_toUri identity) keyId r \<and> r_name r = name_toUri certName) 1)))"

section \<open>Listings\<close>

definition getAllIdentities :: "bool \<Rightarrow> identity_db \<Rightarrow> name list result" where
  "getAllIdentities isDefault db =
     mapE (\<lambda>r. name_of_uri (id_uri r)) (filter (\<lambda>r. id_default r = (if isDefault then 1 else 0)) (db_identity db))"

definition getAllKeyNames :: "bool \<Rightarrow> identity_db \<Rightarrow> name list result" where
  "getAllKeyNames isDefault db =
     mapE (\<lambda>r. bindE (name_of_uri (k_identity r)) (\<lambda>n. append_string n (k_identifier r)))
       (filter (\<lambda>r. k_default r = (if isDefault then 1 else 0)) (db_key db))"

definition getAllKeyNamesOfIdentity :: "name \<Rightarrow> bool \<Rightarrow> identity_db \<Rightarrow> name list result" where
  "getAllKeyNamesOfIdentity identity isDefault db =
     mapE (\<lambda>r. append_string identity (k_identifier r))
       (filter (\<lambda>r. k_default r = (if isDefault then 1 else 0) \<and> k_identity r = name_toUri identity) (db_key db))"

definition getAllCertificateNames :: "bool \<Rightarrow> identity_db \<Rightarrow> name list result" where
  "getAllCertificateNames isDefault db =
     mapE (\<lambda>r. name_of_uri (r_name r)) (filter (\<lambda>r. r_default r = (if isDefault then 1 else 0)) (db_cert db))"

definition getAllCertificateNamesOfKey :: "name \<Rightarrow> bool \<Rightarrow> identity_db \<Rightarrow> name list result" where
  "getAllCertificateNamesOfKey keyName isDefault db =
     bindE (getSubName keyName 0 (of_nat (name_size keyName) - 1)) (\<lambda>identity.
       bindE (name_get keyName (-1)) (\<lambda>c.
         mapE (\<lambda>r. name_of_uri (r_name r))
           (filter (\<lambda>r. r_default r = (if isDefault then 1 else 0) \<and>
              cert_of_key (name_toUri identity) (component_toUri c) r) (db_cert db))))"

section \<open>The operations of the base class\<close>

definition getNewKeyName :: "int \<Rightarrow> name \<Rightarrow> bool \<Rightarrow> identity_db \<Rightarrow> name result" where
  "getNewKeyName now identity ksk db =
     bindE (append_string identity ((if ksk then ''ksk-'' else ''dsk-'') @ print_int (total_seconds now))) (\<lambda>keyName.
       bindE (doesKeyExist keyName db) (\<lambda>ex. if ex then Inl SecException else Inr keyName))"

definition getDefaultCertificateNameForIdentity :: "name \<Rightarrow> identity_db \<Rightarrow> name result" where
  "getDefaultCertificateNameForIdentity identity db =
     bindE (getDefaultKeyNameForIdentity identity db) (\<lambda>keyName. getDefaultCertificateNameForKey keyName db)"

section \<open>Tables with one flagged row per group\<close>

text \<open>
  The three tables have the same shape: a primary key, a flag, and groups of rows in each of which at most
  one row is flagged.  \<open>choose_flag\<close> is the pair of \<open>UPDATE\<close> statements that moves the flag of the group
  \<open>g\<close> to the row with the key \<open>k\<close>.
\<close>

definition table_ok :: "('r \<Rightarrow> 'k) \<Rightarrow> ('r \<Rightarrow> 'g) \<Rightarrow> ('r \<Rightarrow> int) \<Rightarrow> 'r list \<Rightarrow> bool" where
  "table_ok key grp flag rs \<longleftrightarrow> distinct (map key rs) \<and> (\<forall>r\<in>set rs. flag r \<in> {0, 1}) \<and>
     inj_on grp {r \<in> set rs. flag r = 1}"

definition choose_flag ::
    "('r \<Rightarrow> 'k) \<Rightarrow> ('r \<Rightarrow> 'g) \<Rightarrow> ('r \<Rightarrow> int) \<Rightarrow> (int \<Rightarrow> 'r \<Rightarrow> 'r) \<Rightarrow> 'k \<Rightarrow> 'g \<Rightarrow> 'r list \<Rightarrow> 'r list" where
  "choose_flag key grp flag set_flag k g rs =
     map (\<lambda>r. if grp r = g \<and> key r = k then set_flag 1 r else r)
       (map (\<lambda>r. if flag r = 1 \<and> grp r = g then set_flag 0 r else r) rs)"

locale flagged_table =
  fixes key :: "'r \<Rightarrow> 'k" and grp :: "'r \<Rightarrow> 'g" and flag :: "'r \<Rightarrow> int" and set_flag :: "int \<Rightarrow> 'r \<Rightarrow> 'r"
  assumes key_set: "key (set_flag v r) = key r"
    and grp_set: "grp (set_flag v r) = grp r"
    and flag_set: "flag (set_flag v r) = v"
begin

lemmas laws = key_set grp_set flag_set

lemma insert_ok:
  assumes "table_ok key grp flag rs" and "flag r = 0" and "key r \<notin> key ` set rs"
  shows "table_ok key grp flag (rs @ [r])"
proof -
  have "{x \<in> set (rs @ [r]). flag x = 1} = {x \<in> set rs. flag x = 1}" using assms(2) by auto
  then show ?thesis using assms unfolding table_ok_def by simp
qed

lemma choose_keys: "map key (choose_flag key grp flag set_flag k g rs) = map key rs"
  by (simp add: choose_flag_def laws)

lemma choose_row:
  "r' \<in> set (choose_flag key grp flag set_flag k g rs) \<longleftrightarrow>
    (\<exists>r\<in>set rs. r' = (let r = (if flag r = 1 \<and> grp r = g then set_flag 0 r else r)
                     in if grp r = g \<and> key r = k then set_flag 1 r else r))"
  unfolding choose_flag_def set_map image_image Let_def image_iff by (rule refl)

lemma choose_flagged:
  assumes "r' \<in> set (choose_flag key grp flag set_flag k g rs)" and "flag r' = 1"
  shows "grp r' = g \<and> key r' = k \<or> grp r' \<noteq> g \<and> r' \<in> set rs"
proof -
  obtain r where r: "r \<in> set rs" "r' = (let r = (if flag r = 1 \<and> grp r = g then set_flag 0 r else r)
      in if grp r = g \<and> key r = k then set_flag 1 r else r)"
    using assms(1) unfolding choose_row by blast
  show ?thesis
  proof (cases "grp r = g")
    case True
    then have "key r = k" using r(2) assms(2) by (cases "key r = k"; cases "flag r = 1") (simp_all add: laws)
    then show ?thesis using True r(2) by (simp add: Let_def laws)
  next
    case False
    then show ?thesis using r by (simp add: Let_def)
  qed
qed

lemma choose_ok:
  assumes ok: "table_ok key grp flag rs"
  shows "table_ok key grp flag (choose_flag key grp flag set_flag k g rs)"
proof -
  have "flag r \<in> {0, 1}" if "r \<in> set (choose_flag key grp flag set_flag k g rs)" for r
    using that ok unfolding choose_row Let_def table_ok_def by (elim bexE) (simp add: laws)
  moreover have d: "distinct (map key (choose_flag key grp flag set_flag k g rs))"
    using ok unfolding choose_keys table_ok_def by blast
  moreover have "inj_on grp {r \<in> set (choose_flag key grp flag set_flag k g rs). flag r = 1}"
  proof (rule inj_onI, elim CollectE conjE)
    fix r r'
    assume r: "r \<in> set (choose_flag key grp flag set_flag k g rs)" "flag r = 1"
      and r': "r' \<in> set (choose_flag key grp flag set_flag k g rs)" "flag r' = 1" and g: "grp r = grp r'"
    show "r = r'"
    proof (cases "grp r = g")
      case True
      then have "key r = key r'" using choose_flagged [OF r] choose_flagged [OF r'] g by metis
      then show ?thesis using d r(1) r'(1) by (metis distinct_map inj_onD)
    next
      case False
      then have "r \<in> set rs" "r' \<in> set rs" using choose_flagged [OF r] choose_flagged [OF r'] g by metis+
      then show ?thesis using ok g r(2) r'(2) unfolding table_ok_def inj_on_def by blast
    qed
  qed
  ultimately show ?thesis unfolding table_ok_def by blast
qed

lemma find_flagged:
  assumes "table_ok key grp flag rs" and "r \<in> set rs" and "flag r = 1" and "grp r = g"
  shows "find (\<lambda>r. grp r = g \<and> flag r = 1) rs = Some r"
proof -
  have "find (\<lambda>r. grp r = g \<and> flag r = 1) rs \<noteq> None"
    using assms(2-4) by (auto simp: find_None_iff)
  then obtain r' where r': "find (\<lambda>r. grp r = g \<and> flag r = 1) rs = Some r'" by blast
  then have "r' \<in> set rs" "grp r' = g" "flag r' = 1" by (auto simp: find_Some_iff)
  then have "r' = r" using assms unfolding table_ok_def inj_on_def by blast
  then show ?thesis using r' by simp
qed

lemma choose_finds:
  assumes "table_ok key grp flag rs" and "r \<in> set rs" and "key r = k" and "grp r = g"
  shows "\<exists>r'. find (\<lambda>r. grp r = g \<and> flag r = 1) (choose_flag key grp flag set_flag k g rs) = Some r' \<and> key r' = k"
proof -
  let ?r = "set_flag 1 (if flag r = 1 \<and> grp r = g then set_flag 0 r else r)"
  have "?r \<in> set (choose_flag key grp flag set_flag k g rs)"
    using assms(2-4) unfolding choose_row Let_def by (intro bexI [of _ r]) (simp_all add: laws)
  then have "find (\<lambda>r. grp r = g \<and> flag r = 1) (choose_flag key grp flag set_flag k g rs) = Some ?r"
    using assms(4) by (intro find_flagged choose_ok assms(1)) (simp_all add: laws)
  then show ?thesis using assms(3) by (simp add: laws)
qed

lemma flagged_once:
  assumes ok: "table_ok key grp flag rs"
  shows "length (filter (\<lambda>r. flag r = 1 \<and> grp r = g) rs) \<le> 1"
proof (rule ccontr)
  let ?F = "filter (\<lambda>r. flag r = 1 \<and> grp r = g) rs"
  assume "\<not> length ?F \<le> 1"
  then have two: "0 < length ?F" "1 < length ?F" by linarith+
  have "distinct ?F" using ok unfolding table_ok_def by (simp add: distinct_map)
  then have "?F ! 0 \<noteq> ?F ! 1" using two by (simp add: nth_eq_iff_index_eq)
  moreover have "?F ! 0 \<in> set ?F" "?F ! 1 \<in> set ?F" using two nth_mem by blast+
  then have "?F ! 0 = ?F ! 1" using ok unfolding table_ok_def inj_on_def by simp
  ultimately show False by blast
qed

lemma choose_others:
  assumes "g' \<noteq> g"
  shows "find (\<lambda>r. grp r = g' \<and> flag r = 1) (choose_flag key grp flag set_flag k g rs) =
    find (\<lambda>r. grp r = g' \<and> flag r = 1) rs"
  unfolding choose_flag_def using assms by (induction rs) (auto simp: laws)

end

interpretation identity_table: flagged_table id_uri "\<lambda>r. ()" id_default "\<lambda>v r. r\<lparr> id_default := v \<rparr>"
  by unfold_locales simp_all

interpretation key_table: flagged_table "\<lambda>r. (k_identity r, k_identifier r)" k_identity k_default "\<lambda>v r. r\<lparr> k_default := v \<rparr>"
  by unfold_locales simp_all

interpretation cert_table: flagged_table r_name "\<lambda>r. (r_identity r, r_identifier r)" r_default "\<lambda>v r. r\<lparr> r_default := v \<rparr>"
  by unfold_locales simp_all

section \<open>The invariant of the database\<close>

text \<open>
  Primary keys are unique, flags are 0 or 1, every key belongs to an identity, and there is at most one
  default identity, one default key of an identity and one default certificate of a key.
\<close>

abbreviation identities_ok :: "identity_row list \<Rightarrow> bool" where
  "identities_ok \<equiv> table_ok id_uri (\<lambda>r. ()) id_default"

abbreviation keys_ok :: "key_row list \<Rightarrow> bool" where
  "keys_ok \<equiv> table_ok (\<lambda>r. (k_identity r, k_identifier r)) k_identity k_default"

abbreviation certs_ok :: "cert_row list \<Rightarrow> bool" where
  "certs_ok \<equiv> table_ok r_name (\<lambda>r. (r_identity r, r_identifier r)) r_default"

definition db_ok :: "identity_db \<Rightarrow> bool" where
  "db_ok db \<longleftrightarrow> identities_ok (db_identity db) \<and> keys_ok (db_key db) \<and> certs_ok (db_cert db) \<and>
     set (map k_identity (db_key db)) \<subseteq> set (map id_uri (db_identity db))"

lemma doesIdentityExist_iff: "doesIdentityExist n db \<longleftrightarrow> name_toUri n \<in> set (map id_uri (db_identity db))"
proof -
  have "(length (filter (\<lambda>r. id_uri r = u) rs) > 0) = (u \<in> set (map id_uri rs))" for u rs
    by (induction rs) auto
  then show ?thesis by (simp add: doesIdentityExist_def del: length_greater_0_conv)
qed

lemma doesCertificateExist_iff: "doesCertificateExist n db \<longleftrightarrow> name_toUri n \<in> set (map r_name (db_cert db))"
proof -
  have "(length (filter (\<lambda>r. r_name r = u) rs) > 0) = (u \<in> set (map r_name rs))" for u rs
    by (induction rs) auto
  then show ?thesis by (simp add: doesCertificateExist_def del: length_greater_0_conv)
qed

lemma has_key_iff: "list_ex (has_key u v) rs \<longleftrightarrow> (u, v) \<in> set (map (\<lambda>r. (k_identity r, k_identifier r)) rs)"
  by (induction rs) (auto simp: has_key_def)

lemma insert_tables:
  "db_identity (insert_identity r db) =
     (if id_uri r \<in> set (map id_uri (db_identity db)) then db_identity db else db_identity db @ [r])"
  "db_key (insert_identity r db) = db_key db" "db_cert (insert_identity r db) = db_cert db"
  "db_key (insert_key k db) =
     (if (k_identity k, k_identifier k) \<in> set (map (\<lambda>r. (k_identity r, k_identifier r)) (db_key db)) then db_key db
      else db_key db @ [k])"
  "db_identity (insert_key k db) = db_identity db" "db_cert (insert_key k db) = db_cert db"
  "db_cert (insert_certificate c db) = (if r_name c \<in> set (map r_name (db_cert db)) then db_cert db else db_cert db @ [c])"
  "db_identity (insert_certificate c db) = db_identity db" "db_key (insert_certificate c db) = db_key db"
proof -
  have i: "list_ex (\<lambda>r'. id_uri r' = u) rs \<longleftrightarrow> u \<in> set (map id_uri rs)" for u rs
    by (induction rs) auto
  have c: "list_ex (\<lambda>r'. r_name r' = u) rs \<longleftrightarrow> u \<in> set (map r_name rs)" for u rs
    by (induction rs) auto
  show "db_identity (insert_identity r db) =
     (if id_uri r \<in> set (map id_uri (db_identity db)) then db_identity db else db_identity db @ [r])"
    "db_key (insert_identity r db) = db_key db" "db_cert (insert_identity r db) = db_cert db"
    unfolding insert_identity_def i by (simp_all del: set_map)
  show "db_key (insert_key k db) =
     (if (k_identity k, k_identifier k) \<in> set (map (\<lambda>r. (k_identity r, k_identifier r)) (db_key db)) then db_key db
      else db_key db @ [k])"
    "db_identity (insert_key k db) = db_identity db" "db_cert (insert_key k db) = db_cert db"
    unfolding insert_key_def has_key_iff by (simp_all del: set_map)
  show "db_cert (insert_certificate c db) = (if r_name c \<in> set (map r_name (db_cert db)) then db_cert db else db_cert db @ [c])"
    "db_identity (insert_certificate c db) = db_identity db" "db_key (insert_certificate c db) = db_key db"
    unfolding insert_certificate_def c by (simp_all del: set_map)
qed

lemma db_ok_insert_identity:
  assumes "db_ok db" and "id_default r = 0"
  shows "db_ok (insert_identity r db)"
  using assms identity_table.insert_ok [of "db_identity db" r]
  unfolding db_ok_def insert_tables set_map by (simp split: if_splits) blast

lemma db_ok_insert_key:
  assumes "db_ok db" and "k_default r = 0" and "k_identity r \<in> set (map id_uri (db_identity db))"
  shows "db_ok (insert_key r db)"
  using assms key_table.insert_ok [of "db_key db" r]
  unfolding db_ok_def insert_tables set_map by (simp split: if_splits)

lemma db_ok_insert_certificate:
  assumes "db_ok db" and "r_default r = 0"
  shows "db_ok (insert_certificate r db)"
  using assms cert_table.insert_ok [of "db_cert db" r]
  unfolding db_ok_def insert_tables set_map by (simp split: if_splits)

lemma keys_ok_active: "keys_ok rs \<Longrightarrow> keys_ok (map (\<lambda>r. if P r then r\<lparr> k_active := v \<rparr> else r) rs)"
proof -
  let ?f = "\<lambda>r. if P r then r\<lparr> k_active := v \<rparr> else r"
  have f: "k_identity (?f r) = k_identity r" "k_identifier (?f r) = k_identifier r" "k_default (?f r) = k_default r" for r
    by simp_all
  have "{r \<in> set (map ?f rs). k_default r = 1} = ?f ` {r \<in> set rs. k_default r = 1}"
    unfolding set_map using f(3) by fastforce
  moreover have "inj_on k_identity (?f ` A)" if "inj_on k_identity A" for A
    using that f(1) unfolding inj_on_def by (metis (no_types, lifting) imageE)
  ultimately show "keys_ok rs \<Longrightarrow> keys_ok (map ?f rs)"
    unfolding table_ok_def by (simp add: f comp_def del: if_image_distrib)
qed

lemma db_ok_active: "db_ok db \<Longrightarrow> db_ok (update_keys P (\<lambda>r. r\<lparr> k_active := v \<rparr>) db)"
proof -
  have "map k_identity (map (\<lambda>r. if P r then r\<lparr> k_active := v \<rparr> else r) rs) = map k_identity rs" for rs
    by simp
  then have "set (map k_identity (map (\<lambda>r. if P r then r\<lparr> k_active := v \<rparr> else r) rs)) = set (map k_identity rs)" for rs
    by (simp only:)
  then show "db_ok db \<Longrightarrow> db_ok (update_keys P (\<lambda>r. r\<lparr> k_active := v \<rparr>) db)"
    using keys_ok_active [of "db_key db" P v] unfolding db_ok_def update_keys_def by (simp del: set_map)
qed

text \<open>The three pairs of \<open>UPDATE\<close> statements.\<close>

lemma default_identity_tables:
  "db_identity (update_identities (\<lambda>r. id_uri r = u) 1 (update_identities (\<lambda>r. id_default r = 1) 0 db)) =
     choose_flag id_uri (\<lambda>r. ()) id_default (\<lambda>v r. r\<lparr> id_default := v \<rparr>) u () (db_identity db)"
  "db_key (update_identities P w db) = db_key db" "db_cert (update_identities P w db) = db_cert db"
  by (simp_all add: update_identities_def choose_flag_def)

lemma default_key_tables:
  "db_key (update_keys (has_key u v) (\<lambda>r. r\<lparr> k_default := 1 \<rparr>)
     (update_keys (\<lambda>r. k_default r = 1 \<and> k_identity r = u) (\<lambda>r. r\<lparr> k_default := 0 \<rparr>) db)) =
     choose_flag (\<lambda>r. (k_identity r, k_identifier r)) k_identity k_default (\<lambda>v r. r\<lparr> k_default := v \<rparr>) (u, v) u (db_key db)"
  "db_identity (update_keys P f db) = db_identity db" "db_cert (update_keys P f db) = db_cert db"
proof -
  have "(\<lambda>r. if has_key u v r then r\<lparr> k_default := 1 \<rparr> else r) =
      (\<lambda>r. if k_identity r = u \<and> (k_identity r, k_identifier r) = (u, v) then r\<lparr> k_default := 1 \<rparr> else r)"
    by (auto simp: has_key_def)
  then show "db_key (update_keys (has_key u v) (\<lambda>r. r\<lparr> k_default := 1 \<rparr>)
     (update_keys (\<lambda>r. k_default r = 1 \<and> k_identity r = u) (\<lambda>r. r\<lparr> k_default := 0 \<rparr>) db)) =
     choose_flag (\<lambda>r. (k_identity r, k_identifier r)) k_identity k_default (\<lambda>v r. r\<lparr> k_default := v \<rparr>) (u, v) u (db_key db)"
    unfolding update_keys_def choose_flag_def by simp
qed (simp_all add: update_keys_def)

lemma default_cert_tables:
  "db_cert (update_certs (\<lambda>r. cert_of_key u v r \<and> r_name r = w) 1
     (update_certs (\<lambda>r. r_default r = 1 \<and> cert_of_key u v r) 0 db)) =
     choose_flag r_name (\<lambda>r. (r_identity r, r_identifier r)) r_default (\<lambda>v r. r\<lparr> r_default := v \<rparr>) w (u, v) (db_cert db)"
  "db_identity (update_certs P f db) = db_identity db" "db_key (update_certs P f db) = db_key db"
  by (simp_all add: update_certs_def choose_flag_def cert_of_key_def)

lemmas default_tables = default_identity_tables default_key_tables default_cert_tables

lemma choose_keeps_identity:
  "set (map k_identity (choose_flag (\<lambda>r. (k_identity r, k_identifier r)) k_identity k_default (\<lambda>v r. r\<lparr> k_default := v \<rparr>) k g rs)) =
    set (map k_identity rs)"
proof -
  let ?c = "choose_flag (\<lambda>r. (k_identity r, k_identifier r)) k_identity k_default (\<lambda>v r. r\<lparr> k_default := v \<rparr>) k g rs"
  have f: "map k_identity rs = map fst (map (\<lambda>r. (k_identity r, k_identifier r)) rs)" for rs by simp
  show ?thesis unfolding f [of ?c] key_table.choose_keys f [of rs] ..
qed

lemma db_ok_setDefaults:
  "preserves db_ok (setDefaultIdentity identity)" (is ?A)
  "preserves db_ok (setDefaultKeyNameForIdentity keyName identityName)" (is ?B)
  "preserves db_ok (setDefaultCertificateNameForKey keyName certName)" (is ?C)
proof -
  have a: "db_ok db \<Longrightarrow> db_ok (update_identities (\<lambda>r. id_uri r = u) 1 (update_identities (\<lambda>r. id_default r = 1) 0 db))" for db u
    using identity_table.choose_ok unfolding db_ok_def default_tables identity_table.choose_keys by blast
  show ?A
    using a unfolding preserves_def setDefaultIdentity_def bindA_def by simp
  have "db_ok db \<Longrightarrow> db_ok (update_keys (has_key u v) (\<lambda>r. r\<lparr> k_default := 1 \<rparr>)
     (update_keys (\<lambda>r. k_default r = 1 \<and> k_identity r = u) (\<lambda>r. r\<lparr> k_default := 0 \<rparr>) db))" for db u v
    using key_table.choose_ok unfolding db_ok_def default_tables choose_keeps_identity by blast
  then show ?B
    unfolding preserves_def setDefaultKeyNameForIdentity_def bindA_def by (simp split: sum.splits prod.splits)
  have "db_ok db \<Longrightarrow> db_ok (update_certs (\<lambda>r. cert_of_key u v r \<and> r_name r = w) 1
     (update_certs (\<lambda>r. r_default r = 1 \<and> cert_of_key u v r) 0 db))" for db u v w
    using cert_table.choose_ok unfolding db_ok_def default_tables by blast
  then show ?C
    unfolding preserves_def setDefaultCertificateNameForKey_def bindA_def by (simp split: sum.splits prod.splits)
qed

lemma db_ok_addIdentity: "preserves db_ok (addIdentity n)"
  unfolding addIdentity_def by (auto intro!: preserving db_ok_insert_identity)

text \<open>\<open>addKey\<close> makes sure that the identity exists before it inserts the key.\<close>

lemma db_ok_addKey: "preserves db_ok (addKey keyName keyType b)"
proof -
  have "db_ok (snd (addKey keyName keyType b db))" if ok: "db_ok db" for db
  proof (cases "split_key keyName")
    case (Inr p)
    obtain keyId identity where p: "p = (keyId, identity)" by (cases p)
    let ?m = "bindA (readA (doesIdentityExist identity)) (\<lambda>ex. if \<not> ex then addIdentity identity else retA ())"
    have m: "\<exists>db'. ?m db = (Inr (), db') \<and> db_ok db' \<and> name_toUri identity \<in> set (map id_uri (db_identity db'))"
      using ok by (auto simp: bindA_def addIdentity_def doesIdentityExist_iff insert_tables intro!: db_ok_insert_identity)
    then obtain db' where db': "?m db = (Inr (), db')" "db_ok db'" "name_toUri identity \<in> set (map id_uri (db_identity db'))"
      by blast
    then show ?thesis
      using Inr p unfolding addKey_def
      by (auto simp: bindA_def split: sum.splits if_splits intro!: db_ok_insert_key simp del: set_map)
  qed (use ok in \<open>simp add: addKey_def bindA_def\<close>)
  then show ?thesis by (simp add: preserves_def)
qed

lemma db_ok_updateKeyStatus: "preserves db_ok (updateKeyStatus keyName active)"
  unfolding updateKeyStatus_def by (auto intro!: preserving db_ok_active)

lemma certificate_row_default: "certificate_row datetime c = Inr r \<Longrightarrow> r_default r = 0"
  by (auto simp: certificate_row_def bindE_Inr_iff split: option.splits)

lemma db_ok_insertion:
  "preserves db_ok (bindA (pureA (certificate_row datetime c)) (\<lambda>r. writeA (insert_certificate r)))"
  by (auto simp: preserves_def bindA_def certificate_row_default intro!: db_ok_insert_certificate split: sum.splits)

lemma db_ok_addCertificates:
  "preserves db_ok (addAnyCertificate datetime c)" "preserves db_ok (storage_addCertificate datetime c)"
  unfolding addAnyCertificate_def storage_addCertificate_def
  by (auto intro!: preserving db_ok_insertion [unfolded bindA_def] db_ok_insertion)

lemmas db_ok_preserved =
  db_ok_setDefaults db_ok_addIdentity db_ok_addKey db_ok_updateKeyStatus db_ok_addCertificates

text \<open>A program that uses the storage: a sequence of its operations, some of which may throw.\<close>

datatype store_op =
    AddIdentity name
  | AddKey name key_type blob
  | ActivateKey name
  | DeactivateKey name
  | AddAnyCertificate identity_certificate
  | AddCertificate identity_certificate
  | SetDefaultIdentity name
  | SetDefaultKey name name
  | SetDefaultCertificate name name

fun perform :: "(int \<Rightarrow> string option) \<Rightarrow> store_op \<Rightarrow> (identity_db, unit) action" where
  "perform datetime (AddIdentity n) = addIdentity n"
| "perform datetime (AddKey n t b) = addKey n t b"
| "perform datetime (ActivateKey n) = activateKey n"
| "perform datetime (DeactivateKey n) = deactivateKey n"
| "perform datetime (AddAnyCertificate c) = addAnyCertificate datetime c"
| "perform datetime (AddCertificate c) = storage_addCertificate datetime c"
| "perform datetime (SetDefaultIdentity n) = setDefaultIdentity n"
| "perform datetime (SetDefaultKey n i) = setDefaultKeyNameForIdentity n i"
| "perform datetime (SetDefaultCertificate n c) = setDefaultCertificateNameForKey n c"

definition store_run :: "(int \<Rightarrow> string option) \<Rightarrow> store_op list \<Rightarrow> identity_db \<Rightarrow> identity_db" where
  "store_run datetime ops db = foldl (\<lambda>db op. snd (perform datetime op db)) db ops"

lemma db_ok_run: "db_ok db \<Longrightarrow> db_ok (store_run datetime ops db)"
proof (induction ops arbitrary: db)
  case (Cons op ops)
  have "preserves db_ok (perform datetime op)"
    by (cases op) (simp_all add: db_ok_preserved activateKey_def deactivateKey_def)
  then show ?case using Cons by (simp add: store_run_def preserves_def)
qed (simp add: store_run_def)

lemma db_ok_new: "db_ok (new_identity_storage None None None)"
  by (simp add: db_ok_def table_ok_def new_identity_storage_def open_table_def)

text \<open>Property C8. Whatever operations a program performs on a fresh storage, and whichever of them throw, the
  database stays consistent: no two identities, keys or certificates share their primary key, every key
  belongs to a stored identity, and there is at most one default identity, at most one default key of an
  identity and at most one default certificate of a key.\<close>

theorem storage_consistent:
  "let db = store_run datetime ops (new_identity_storage None None None) in
     distinct (map id_uri (db_identity db)) \<and>
     distinct (map (\<lambda>r. (k_identity r, k_identifier r)) (db_key db)) \<and>
     distinct (map r_name (db_cert db)) \<and>
     set (map k_identity (db_key db)) \<subseteq> set (map id_uri (db_identity db)) \<and>
     length (filter (\<lambda>r. id_default r = 1) (db_identity db)) \<le> 1 \<and>
     (\<forall>u. length (filter (\<lambda>r. k_default r = 1 \<and> k_identity r = u) (db_key db)) \<le> 1) \<and>
     (\<forall>u v. length (filter (\<lambda>r. r_default r = 1 \<and> cert_of_key u v r) (db_cert db)) \<le> 1)"
proof -
  let ?db = "store_run datetime ops (new_identity_storage None None None)"
  have ok: "db_ok ?db" by (rule db_ok_run [OF db_ok_new])
  then have t: "identities_ok (db_identity ?db)" "keys_ok (db_key ?db)" "certs_ok (db_cert ?db)"
    unfolding db_ok_def by blast+
  have "length (filter (\<lambda>r. id_default r = 1) (db_identity ?db)) \<le> 1"
    using identity_table.flagged_once [OF t(1), of "()"] by simp
  moreover have "length (filter (\<lambda>r. r_default r = 1 \<and> cert_of_key u v r) (db_cert ?db)) \<le> 1" for u v
    using cert_table.flagged_once [OF t(3), of "(u, v)"] by (simp add: cert_of_key_def)
  ultimately show ?thesis
    using t key_table.flagged_once [OF t(2)] ok unfolding Let_def db_ok_def table_ok_def by blast
qed

section \<open>What the defaults return\<close>

lemma name_get_last:
  assumes "name_size n < 2 ^ 31" and "comps n = cs @ [c]"
  shows "name_get n (-1) = Inr c"
proof -
  have s: "name_size n = Suc (length cs)" using assms(2) by (simp add: name_size_def)
  have "unat (of_nat (name_size n) + (-1) :: uint32) = length cs"
    using unat_size_plus_negative [of "-1" "name_size n"] assms(1) s by simp
  moreover have "ucast (of_nat (name_size n) - scast (- (-1 :: uint32)) :: uint64) = (of_nat (name_size n) + (-1) :: uint32)"
    by (rule ucast_size_minus)
  ultimately show ?thesis using s assms(2) by (simp add: name_get_def Let_def)
qed

lemma split_key_snoc:
  assumes "name_wf n" and "name_size n < 2 ^ 31" and "comps n = cs @ [c]"
  shows "split_key n = Inr (component_toUri c, Name cs)"
proof -
  have "name_size n = Suc (length cs)" using assms(3) by (simp add: name_size_def)
  then show ?thesis
    using name_get_last [OF assms(2,3)] sub_name_nat [OF assms(1,2), of 0 "length cs"] assms(3)
    by (simp add: split_key_def)
qed

lemma component_uri_back: "component_of_uri (component_toUri c) = Inr c"
  using fromEscaped_toEscaped_append [of "bytes c" "[]"]
  by (simp add: component_of_uri_def component_toUri_def)

lemma append_uri_back: "bytes c \<noteq> [] \<Longrightarrow> append_string (Name cs) (component_toUri c) = Inr (Name (cs @ [c]))"
  by (simp add: append_string_def component_uri_back appendBySwap_def)

lemma doesKeyExist_row:
  assumes "split_key keyName = Inr (keyId, identity)"
  shows "doesKeyExist keyName db = Inr ((name_toUri identity, keyId) \<in> set (map (\<lambda>r. (k_identity r, k_identifier r)) (db_key db)))"
proof -
  have "(length (filter (has_key u v) rs) > 0) = list_ex (has_key u v) rs" for u v rs
    by (induction rs) auto
  then show ?thesis unfolding doesKeyExist_def assms has_key_iff [symmetric] by simp
qed

lemma setDefaultKey_state:
  assumes "split_key keyName = Inr (keyId, identity)" and "identityName = Name [] \<or> identityName = identity"
  shows "setDefaultKeyNameForIdentity keyName identityName db =
    (Inr (), update_keys (has_key (name_toUri identity) keyId) (\<lambda>r. r\<lparr> k_default := 1 \<rparr>)
      (update_keys (\<lambda>r. k_default r = 1 \<and> k_identity r = name_toUri identity) (\<lambda>r. r\<lparr> k_default := 0 \<rparr>) db))"
  using assms by (auto simp: setDefaultKeyNameForIdentity_def bindA_def)

lemma setDefaultCert_state:
  assumes "split_key keyName = Inr (keyId, identity)"
  shows "setDefaultCertificateNameForKey keyName certName db =
    (Inr (), update_certs (\<lambda>r. cert_of_key (name_toUri identity) keyId r \<and> r_name r = name_toUri certName) 1
      (update_certs (\<lambda>r. r_default r = 1 \<and> cert_of_key (name_toUri identity) keyId r) 0 db))"
  using assms by (simp add: setDefaultCertificateNameForKey_def bindA_def)

lemma default_key_chosen:
  assumes ok: "db_ok db" and n: "name_wf keyName" "name_size keyName < 2 ^ 31" "comps keyName = cs @ [c]"
    and ex: "doesKeyExist keyName db = Inr True"
  shows "getDefaultKeyNameForIdentity (Name cs) (snd (setDefaultKeyNameForIdentity keyName (Name []) db)) = Inr keyName"
proof -
  let ?u = "name_toUri (Name cs)" and ?v = "component_toUri c"
  note s = split_key_snoc [OF n]
  obtain r where r: "r \<in> set (db_key db)" "k_identity r = ?u" "k_identifier r = ?v"
    using ex unfolding doesKeyExist_row [OF s] by auto
  have "keys_ok (db_key db)" using ok unfolding db_ok_def by blast
  from key_table.choose_finds [OF this r(1), of "(?u, ?v)" ?u] r(2,3)
  obtain r' where r': "find (\<lambda>r. k_identity r = ?u \<and> k_default r = 1)
      (choose_flag (\<lambda>r. (k_identity r, k_identifier r)) k_identity k_default (\<lambda>v r. r\<lparr> k_default := v \<rparr>) (?u, ?v) ?u (db_key db)) =
      Some r'" "k_identifier r' = ?v"
    by auto
  have "bytes c \<noteq> []" using n by (simp add: name_wf_def)
  then have "append_string (Name cs) ?v = Inr keyName" using append_uri_back [of c cs] n(3) by (cases keyName) simp
  then show ?thesis
    unfolding getDefaultKeyNameForIdentity_def setDefaultKey_state [OF s disjI1 [OF refl]] snd_conv default_key_tables r'(1)
    using r'(2) by simp
qed

lemma default_cert_chosen:
  assumes ok: "db_ok db" and s: "split_key keyName = Inr (keyId, identity)"
    and c: "name_wf certName" "no_slash certName"
    and r: "r \<in> set (db_cert db)" "r_name r = name_toUri certName" "cert_of_key (name_toUri identity) keyId r"
  shows "getDefaultCertificateNameForKey keyName (snd (setDefaultCertificateNameForKey keyName certName db)) = Inr certName"
proof -
  let ?u = "name_toUri identity" and ?w = "name_toUri certName"
  have "certs_ok (db_cert db)" using ok unfolding db_ok_def by blast
  from cert_table.choose_finds [OF this r(1), of ?w "(?u, keyId)"] r(2,3)
  obtain r' where r': "find (\<lambda>r. cert_of_key ?u keyId r \<and> r_default r = 1)
      (choose_flag r_name (\<lambda>r. (r_identity r, r_identifier r)) r_default (\<lambda>v r. r\<lparr> r_default := v \<rparr>) ?w (?u, keyId) (db_cert db)) =
      Some r'" "r_name r' = ?w"
    by (auto simp: cert_of_key_def)
  then show ?thesis
    unfolding getDefaultCertificateNameForKey_def setDefaultCert_state [OF s] snd_conv default_cert_tables
    using s name_uri_back [OF c] by simp
qed

text \<open>Making a stored key the default key of its identity takes effect and touches no other
  identity: the identity's default key is then that key, read back from the stored text, and the default
  key of every identity with another URI is what it was.\<close>

theorem default_key_set:
  assumes "db_ok db" and "name_wf keyName" "name_size keyName < 2 ^ 31" and "comps keyName = cs @ [c]"
    and "doesKeyExist keyName db = Inr True"
  shows "\<exists>db'. setDefaultKeyNameForIdentity keyName (Name []) db = (Inr (), db') \<and>
    getDefaultKeyNameForIdentity (Name cs) db' = Inr keyName \<and>
    (\<forall>other. name_toUri other = name_toUri (Name cs) \<or>
       getDefaultKeyNameForIdentity other db' = getDefaultKeyNameForIdentity other db)"
proof -
  let ?u = "name_toUri (Name cs)"
  note s = split_key_snoc [OF assms(2-4)]
  note st = setDefaultKey_state [OF s disjI1 [OF refl]]
  have "getDefaultKeyNameForIdentity other (snd (setDefaultKeyNameForIdentity keyName (Name []) db)) =
      getDefaultKeyNameForIdentity other db" if "name_toUri other \<noteq> ?u" for other
    unfolding getDefaultKeyNameForIdentity_def st snd_conv default_key_tables key_table.choose_others [OF that] ..
  then show ?thesis using default_key_chosen [OF assms] st by (metis snd_conv)
qed

definition example_db :: identity_db where
  "example_db =
     \<lparr> db_identity = [\<lparr> id_uri = name_toUri (Name [Component [97]]), id_default = 0 \<rparr>],
       db_key = [\<lparr> k_identity = name_toUri (Name [Component [97]]), k_identifier = component_toUri (Component [98]),
                  k_type = KEY_TYPE_RSA, k_public = [7], k_default = 0, k_active = 0 \<rparr>],
       db_cert = [] \<rparr>"

lemma table_ok_small: "table_ok key grp flag []" "flag r = 0 \<Longrightarrow> table_ok key grp flag [r]"
  by (auto simp: table_ok_def inj_on_def)

lemma example_db_ok: "db_ok example_db"
  by (simp add: db_ok_def example_db_def table_ok_small)

lemma example_split: "split_key (Name [Component [97], Component [98]]) = Inr (component_toUri (Component [98]), Name [Component [97]])"
  by (rule split_key_snoc) (simp_all add: name_wf_def name_size_def)

theorem default_key_set_witness:
  "\<exists>db'. setDefaultKeyNameForIdentity (Name [Component [97], Component [98]]) (Name []) example_db = (Inr (), db') \<and>
    getDefaultKeyNameForIdentity (Name [Component [97]]) db' = Inr (Name [Component [97], Component [98]])"
proof -
  have "doesKeyExist (Name [Component [97], Component [98]]) example_db = Inr True"
    unfolding doesKeyExist_row [OF example_split] by (simp add: example_db_def)
  then show ?thesis
    using default_key_set [OF example_db_ok, of "Name [Component [97], Component [98]]" "[Component [97]]" "Component [98]"]
    by (auto simp: name_wf_def name_size_def)
qed

section \<open>Stored certificates\<close>

text \<open>What the code relies on of \<open>datetime\<close>: on the times in question its texts are ordered as the times.\<close>

definition datetime_ordered :: "(int \<Rightarrow> string option) \<Rightarrow> int set \<Rightarrow> bool" where
  "datetime_ordered datetime T \<longleftrightarrow> (\<forall>x\<in>T. \<forall>y\<in>T. sql_less (datetime x) (datetime y) \<longleftrightarrow> x < y)"

lemma added_certificate:
  assumes "storage_addCertificate datetime c db = (Inr (), db')"
  shows "\<exists>row. certificate_row datetime c = Inr row \<and> db' = db\<lparr> db_cert := db_cert db @ [row] \<rparr> \<and>
    name_toUri (d_name c) \<notin> set (map r_name (db_cert db)) \<and> doesKeyExist (c_publicKeyName c) db = Inr True \<and>
    getKey_blob (c_publicKeyName c) db = Inr (Some (pk_key (c_key c)))"
proof -
  obtain row where row: "certificate_row datetime c = Inr row" "db' = insert_certificate row db"
      "\<not> doesCertificateExist (d_name c) db" "doesKeyExist (c_publicKeyName c) db = Inr True"
      "getKey_blob (c_publicKeyName c) db = Inr (Some (pk_key (c_key c)))"
    using assms unfolding storage_addCertificate_def bindA_Inr by (auto simp: bindA_Inr split: if_splits)
  moreover have "r_name row = name_toUri (d_name c)"
    using row(1) by (auto simp: certificate_row_def bindE_Inr_iff split: option.splits)
  moreover have "list_ex (\<lambda>r. r_name r = u) rs \<longleftrightarrow> u \<in> set (map r_name rs)" for u rs
    by (induction rs) auto
  ultimately show ?thesis by (auto simp: insert_certificate_def doesCertificateExist_iff simp del: set_map)
qed

lemma find_snoc: "(\<forall>x\<in>set xs. \<not> P x) \<Longrightarrow> find P (xs @ [y]) = (if P y then Some y else None)"
  by (induction xs) auto

lemma getCertificate_appended:
  assumes "name_toUri certName \<notin> set (map r_name (db_cert db))" and "r_name row = name_toUri certName"
  shows "storage_getCertificate datetime now certName any (db\<lparr> db_cert := db_cert db @ [row] \<rparr>) =
    (if cert_selected datetime now certName any row
     then bindE (decodeFromWire_data now (r_data row)) (\<lambda>data. Inr (Some data)) else Inr None)"
proof -
  have "\<forall>r\<in>set (db_cert db). \<not> cert_selected datetime now certName any r"
    using assms(1) unfolding cert_selected_def set_map by (metis imageI)
  then show ?thesis
    using assms(2) find_snoc [of "db_cert db" "cert_selected datetime now certName any" row]
    by (simp add: storage_getCertificate_def doesCertificateExist_iff)
qed

text \<open>Property C21. A certificate that was added is found again: with \<open>any\<close> always, otherwise exactly while
  its validity period, in whole seconds, contains the current time; the packet that is returned has the
  name and the content that were stored.  Its timestamp is the stored one when that is a whole number of seconds below
  \<open>2\<^sup>3\<^sup>1\<close>, and otherwise what \<open>wire_time\<close> leaves of it.  The certificate is signed with a key name as key locator, has a
  content and no wire kept from an earlier decoding.\<close>

theorem certificate_stored:
  assumes add: "storage_addCertificate datetime c db = (Inr (), db')"
    and enc: "data_encodable (ndn_data.truncate c) sig ti keyName"
    and val: "c_notBefore c = PTime before" "c_notAfter c = PTime after"
    and ord: "datetime_ordered datetime {total_seconds before, total_seconds after, total_seconds now}"
  shows "\<exists>d. storage_getCertificate datetime now (d_name c) True db' = Inr (Some d) \<and>
    storage_getCertificate datetime now (d_name c) False db' =
      Inr (if total_seconds before < total_seconds now \<and> total_seconds now < total_seconds after then Some d else None) \<and>
    d_name d = d_name c \<and> m_content (d_content d) = m_content (d_content c) \<and>
    m_timestamp (d_content d) = Some (wire_time ti) \<and>
    (\<forall>S. ti = S * 1000000 \<longrightarrow> 0 \<le> S \<longrightarrow> S < 2 ^ 31 \<longrightarrow> m_timestamp (d_content d) = m_timestamp (d_content c))"
proof -
  obtain row where row: "certificate_row datetime c = Inr row" "db' = db\<lparr> db_cert := db_cert db @ [row] \<rparr>"
      "name_toUri (d_name c) \<notin> set (map r_name (db_cert db))"
    using added_certificate [OF add] by blast
  have r: "r_name row = name_toUri (d_name c)" "r_before row = datetime (total_seconds before)"
      "r_after row = datetime (total_seconds after)" "r_valid row = 1"
      "r_data row = enc_block (data_block (ndn_data.truncate c) sig ti keyName)"
    using row(1) val write_data [OF enc] by (auto simp: certificate_row_def bindE_Inr_iff split: option.splits)
  have t: "d_name (ndn_data.truncate c) = d_name c" "d_content (ndn_data.truncate c) = d_content c"
    by (simp_all add: ndn_data.defs)
  obtain d where d: "decodeFromWire_data now (r_data row) = Inr d" "d_name d = d_name c"
      "m_timestamp (d_content d) = Some (wire_time ti)" "m_content (d_content d) = m_content (d_content c)"
    using decode_data [OF enc] t unfolding r(5) by (simp add: decodeFromWire_data_def Let_def)
  have ts: "m_timestamp (d_content c) = Some ti" using enc t by (simp add: data_encodable_def)
  note get = getCertificate_appended [OF row(3) r(1), folded row(2)]
  have sel: "cert_selected datetime now (d_name c) True row"
      "cert_selected datetime now (d_name c) False row \<longleftrightarrow>
        total_seconds before < total_seconds now \<and> total_seconds now < total_seconds after"
    using r ord by (simp_all add: cert_selected_def datetime_ordered_def)
  show ?thesis using d ts get [of datetime now True] get [of datetime now False] sel by auto
qed

definition example_identity_certificate :: identity_certificate where
  "example_identity_certificate =
     certificate.extend
       (ndn_data.extend (sample_data [9])
         \<lparr> c_subjectList = [], c_notBefore = PTime 0, c_notAfter = PTime 200000000,
           c_key = \<lparr> pk_algorithm = [], pk_key = [7] \<rparr>, c_extnList = [] \<rparr>)
       \<lparr> c_publicKeyName = Name [Component [97], Component [98]] \<rparr>"

definition example_datetime :: "int \<Rightarrow> string option" where
  "example_datetime n = (if 0 \<le> n \<and> n < 256 then Some [char_of (nat n)] else None)"

lemma example_fields:
  "ndn_data.truncate example_identity_certificate = sample_data [9]"
  "d_name example_identity_certificate = Name [Component [104, 105]]"
  "c_publicKeyName example_identity_certificate = Name [Component [97], Component [98]]"
  "pk_key (c_key example_identity_certificate) = [7]"
  "c_notBefore example_identity_certificate = PTime 0" "c_notAfter example_identity_certificate = PTime 200000000"
  "m_content (d_content example_identity_certificate) = [5]"
  by (simp_all add: example_identity_certificate_def sample_data_def make_content_def ndn_data.defs certificate.defs)

lemma example_added: "\<exists>db'. storage_addCertificate example_datetime example_identity_certificate example_db = (Inr (), db')"
proof -
  let ?c = example_identity_certificate and ?k = "Name [Component [97], Component [98]]"
  have k: "doesKeyExist ?k example_db = Inr True"
    unfolding doesKeyExist_row [OF example_split] by (simp add: example_db_def)
  have g: "getKey_blob ?k example_db = Inr (Some [7])"
    using k by (simp add: getKey_blob_def example_split example_db_def has_key_def)
  have n: "\<not> doesCertificateExist n example_db" for n by (simp add: doesCertificateExist_iff example_db_def)
  have sig: "\<exists>sig. d_signature ?c = Some sig \<and> getKeyName (m_keyLocator sig) = Inr (Name [Component [107]])"
    by (simp add: example_identity_certificate_def sample_data_def ndn_data.defs certificate.defs)
  have "\<exists>row. certificate_row example_datetime ?c = Inr row"
    using sig write_data [OF sample_encodable [of "[9]"]]
    by (auto simp: certificate_row_def example_fields example_split)
  then show ?thesis using k g n by (auto simp: storage_addCertificate_def bindA_def example_fields)
qed

theorem certificate_stored_witness:
  "\<exists>db' d. storage_addCertificate example_datetime example_identity_certificate example_db = (Inr (), db') \<and>
     storage_getCertificate example_datetime 100000000 (Name [Component [104, 105]]) False db' = Inr (Some d) \<and>
     m_content (d_content d) = [5]"
proof -
  obtain db' where db': "storage_addCertificate example_datetime example_identity_certificate example_db = (Inr (), db')"
    using example_added by blast
  have e: "data_encodable (ndn_data.truncate example_identity_certificate)
    \<lparr> m_signatureBits = [9], m_publisherKeyDigest = [1, 2], m_keyLocator = LocKeyName (Name [Component [107]]) \<rparr>
    86000000 (Name [Component [107]])"
    using sample_encodable [of "[9]"] by (simp add: example_fields)
  have s: "total_seconds 0 = 0" "total_seconds 200000000 = 200" "total_seconds 100000000 = 100"
    by (simp_all add: total_seconds_def signed_divide_int_def)
  have "datetime_ordered example_datetime {total_seconds 0, total_seconds 200000000, total_seconds 100000000}"
    unfolding s by (simp add: datetime_ordered_def example_datetime_def sql_less_def)
  from certificate_stored [OF db' e example_fields(5,6) this] s db' show ?thesis
    by (auto simp: example_fields)
qed

end
