(* ===== verification/Certificate_Cache.thy ===== *)
theory Certificate_Cache
  imports Ndn_Certificate
begin

text \<open>
  \<open>ndn.cxx/security/cache\<close>: the plain cache of certificates and the cache with a maximum size, expiry
  and eviction of the least recently used entry.  A \<open>std::map\<close> is the list of its pairs in key order;
  the iterator into the tracking list that an entry keeps is the name it points to.  The cleaning
  thread and the callers exclude each other by a mutex, so a round of the thread is one step.  The
  contract of a cache towards the policy manager is the locale \<open>certificate_store\<close>.
\<close>

section \<open>Ordered maps\<close>

fun map_insert :: "'k::linorder \<Rightarrow> 'v \<Rightarrow> ('k \<times> 'v) list \<Rightarrow> ('k \<times> 'v) list" where
  "map_insert k v [] = [(k, v)]"
| "map_insert k v ((a, b) # m) =
     (if k < a then (k, v) # (a, b) # m else if k = a then (a, b) # m else (a, b) # map_insert k v m)"

definition map_erase :: "'k \<Rightarrow> ('k \<times> 'v) list \<Rightarrow> ('k \<times> 'v) list" where
  "map_erase k m = filter (\<lambda>p. fst p \<noteq> k) m"

definition map_assign :: "'k \<Rightarrow> 'v \<Rightarrow> ('k \<times> 'v) list \<Rightarrow> ('k \<times> 'v) list" where
  "map_assign k v m = map (\<lambda>p. if fst p = k then (k, v) else p) m"

section \<open>The plain cache\<close>

record 'c basic_cache =
  bc_cache :: "(name \<times> 'c) list"

definition basic_insert :: "'a certificate_scheme \<Rightarrow> 'a certificate_scheme basic_cache \<Rightarrow> 'a certificate_scheme basic_cache" where
  "basic_insert c s = s\<lparr> bc_cache := map_insert (d_name c) c (bc_cache s) \<rparr>"

definition without_version :: "name \<Rightarrow> bool \<Rightarrow> name result" where
  "without_version certName hasVersion =
     (if hasVersion then getPrefix certName (of_nat (name_size certName) - 1) 0 else Inr certName)"

definition basic_get ::
    "int \<Rightarrow> name \<Rightarrow> bool \<Rightarrow> 'a certificate_scheme basic_cache \<Rightarrow>
      ('a certificate_scheme option \<times> 'a certificate_scheme basic_cache) result" where
  "basic_get now certName hasVersion s =
     bindE (without_version certName hasVersion) (\<lambda>certificateName.
       case map_of (bc_cache s) certificateName of
         None \<Rightarrow> Inr (None, s)
       | Some c \<Rightarrow>
           if isTooEarly (PTime now) c then Inr (None, s)
           else if isTooLate (PTime now) c then
             Inr (None, s\<lparr> bc_cache := map_erase certificateName (bc_cache s) \<rparr>)
           else Inr (Some c, s))"

section \<open>The cache with expiry\<close>

record 'c ttl_entry =
  te_timestamp :: int
  te_certificate :: 'c
  te_it :: name

record 'c ttl_cache =
  tc_maxSize :: nat
  tc_cache :: "(name \<times> 'c ttl_entry) list"
  tc_lruList :: "name list"

definition splice_end :: "name \<Rightarrow> name list \<Rightarrow> name list" where
  "splice_end it lru = remove1 it lru @ [it]"

text \<open>The loop that makes room; \<open>front ()\<close> of an empty list is undefined.\<close>

fun evict_loop :: "nat \<Rightarrow> (name \<times> 'c ttl_entry) list \<Rightarrow> name list \<Rightarrow> ((name \<times> 'c ttl_entry) list \<times> name list) result" where
  "evict_loop maxSize m [] = (if 0 \<ge> maxSize then Inl UndefinedBehaviour else Inr (m, []))"
| "evict_loop maxSize m (n # ns) =
     (if length (n # ns) \<ge> maxSize then evict_loop maxSize (map_erase n m) ns else Inr (m, n # ns))"

definition ttl_insert ::
    "int \<Rightarrow> 'a certificate_scheme \<Rightarrow> 'a certificate_scheme ttl_cache \<Rightarrow> 'a certificate_scheme ttl_cache result" where
  "ttl_insert now c s =
     bindE (getPrefix (d_name c) (of_nat (name_size (d_name c)) - 1) 0) (\<lambda>n.
       let expire = now + m_freshness (d_content c)
       in case map_of (tc_cache s) n of
            Some e \<Rightarrow>
              Inr (s\<lparr> tc_lruList := splice_end (te_it e) (tc_lruList s),
                      tc_cache := map_assign n (e\<lparr> te_timestamp := expire, te_certificate := c \<rparr>) (tc_cache s) \<rparr>)
          | None \<Rightarrow>
              bindE (evict_loop (tc_maxSize s) (tc_cache s) (tc_lruList s)) (\<lambda>(m, lru).
                Inr (s\<lparr> tc_lruList := lru @ [n],
                        tc_cache := map_insert n \<lparr> te_timestamp = expire, te_certificate = c, te_it = n \<rparr> m \<rparr>)))"

definition ttl_get ::
    "name \<Rightarrow> bool \<Rightarrow> 'a certificate_scheme ttl_cache \<Rightarrow>
      ('a certificate_scheme option \<times> 'a certificate_scheme ttl_cache) result" where
  "ttl_get certName hasVersion s =
     bindE (without_version certName hasVersion) (\<lambda>certificateName.
       case map_of (tc_cache s) certificateName of
         Some e \<Rightarrow> Inr (Some (te_certificate e), s\<lparr> tc_lruList := splice_end (te_it e) (tc_lruList s) \<rparr>)
       | None \<Rightarrow> Inr (None, s))"

text \<open>One round of \<open>cleanLoop\<close>: the iteration over the map.\<close>

fun clean_map :: "int \<Rightarrow> (name \<times> 'c ttl_entry) list \<Rightarrow> name list \<Rightarrow> (name \<times> 'c ttl_entry) list \<times> name list" where
  "clean_map now [] lru = ([], lru)"
| "clean_map now ((n, e) # m) lru =
     (if now > te_timestamp e then clean_map now m (remove1 (te_it e) lru)
      else case clean_map now m lru of (m, lru) \<Rightarrow> ((n, e) # m, lru))"

definition ttl_clean :: "int \<Rightarrow> 'c ttl_cache \<Rightarrow> 'c ttl_cache" where
  "ttl_clean now s = (case clean_map now (tc_cache s) (tc_lruList s) of (m, lru) \<Rightarrow> s\<lparr> tc_cache := m, tc_lruList := lru \<rparr>)"

definition new_ttl_cache :: "nat \<Rightarrow> 'c ttl_cache" where
  "new_ttl_cache maxSize = \<lparr> tc_maxSize = maxSize, tc_cache = [], tc_lruList = [] \<rparr>"

section \<open>Map laws\<close>

lemma map_insert_keys: "set (map fst (map_insert k v m)) = insert k (set (map fst m))"
  by (induction k v m rule: map_insert.induct) auto

lemma map_insert_sorted: "sorted_wrt (<) (map fst m) \<Longrightarrow> sorted_wrt (<) (map fst (map_insert k v m))"
proof (induction k v m rule: map_insert.induct)
  case (2 k v a b m)
  then show ?case using map_insert_keys [of k v m] by (auto dest: order.strict_trans)
qed simp

lemma map_insert_of: "k \<notin> fst ` set m \<Longrightarrow> map_of (map_insert k v m) = (map_of m)(k \<mapsto> v)"
  by (induction k v m rule: map_insert.induct) auto

lemma map_insert_set: "set (map_insert k v m) \<subseteq> insert (k, v) (set m)"
  by (induction k v m rule: map_insert.induct) auto

lemma sorted_distinct: "sorted_wrt (<) (xs :: 'k::linorder list) \<Longrightarrow> distinct xs"
  by (induction xs) auto

lemma map_erase_sorted: "sorted_wrt (<) (map fst m) \<Longrightarrow> sorted_wrt (<) (map fst (map_erase k m))"
  by (induction m) (auto simp: map_erase_def)

lemma map_erase_of: "map_of (map_erase k m) = (map_of m)(k := None)"
  by (induction m) (auto simp: map_erase_def)

lemma map_assign_keys [simp]: "map fst (map_assign k v m) = map fst m"
  by (induction m) (auto simp: map_assign_def)

lemma map_assign_of: "map_of (map_assign k v m) x = (if x = k \<and> map_of m k \<noteq> None then Some v else map_of m x)"
  by (induction m) (auto simp: map_assign_def)

lemma map_assign_set: "p \<in> set (map_assign k v m) \<Longrightarrow> p = (k, v) \<or> p \<in> set m"
  by (auto simp: map_assign_def)

section \<open>The invariant of the cache with expiry\<close>

text \<open>The tracking list holds every key once, entries point to their own name, and the size is
  bounded.\<close>

definition ttl_ok :: "'c ttl_cache \<Rightarrow> bool" where
  "ttl_ok s \<longleftrightarrow>
     sorted_wrt (<) (map fst (tc_cache s)) \<and> distinct (tc_lruList s) \<and>
     set (tc_lruList s) = fst ` set (tc_cache s) \<and> (\<forall>(n, e) \<in> set (tc_cache s). te_it e = n) \<and>
     length (tc_lruList s) \<le> tc_maxSize s"

lemma ttl_ok_new: "ttl_ok (new_ttl_cache m)"
  by (simp add: ttl_ok_def new_ttl_cache_def)

lemma ttl_ok_size: "ttl_ok s \<Longrightarrow> length (tc_cache s) = length (tc_lruList s)"
  by (metis ttl_ok_def distinct_card length_map list.set_map sorted_distinct)

lemma splice_end_perm:
  "n \<in> set lru \<Longrightarrow> distinct lru \<Longrightarrow>
    distinct (splice_end n lru) \<and> set (splice_end n lru) = set lru \<and> length (splice_end n lru) = length lru"
  by (auto simp: splice_end_def length_remove1 dest: length_pos_if_in_set)

lemma evict_loop_ok:
  assumes "0 < maxSize" and "sorted_wrt (<) (map fst m)" and "distinct lru" and "set lru = fst ` set m"
    and "\<forall>(n, e) \<in> set m. te_it e = n"
  shows "\<exists>m' lru'. evict_loop maxSize m lru = Inr (m', lru') \<and> sorted_wrt (<) (map fst m') \<and> distinct lru' \<and>
    set lru' = fst ` set m' \<and> set m' \<subseteq> set m \<and> length lru' < maxSize"
  using assms
proof (induction lru arbitrary: m)
  case (Cons n ns)
  show ?case
  proof (cases "length (n # ns) \<ge> maxSize")
    case True
    have "fst ` set (map_erase n m) = fst ` set m - {n}" by (auto simp: map_erase_def)
    then have "set ns = fst ` set (map_erase n m)" using Cons.prems(3,4) by auto
    moreover have "\<forall>(k, e) \<in> set (map_erase n m). te_it e = k" using Cons.prems(5) by (auto simp: map_erase_def)
    ultimately obtain m' lru' where r: "evict_loop maxSize (map_erase n m) ns = Inr (m', lru')"
        "sorted_wrt (<) (map fst m')" "distinct lru'" "set lru' = fst ` set m'" "set m' \<subseteq> set (map_erase n m)"
        "length lru' < maxSize"
      using Cons.IH [of "map_erase n m"] Cons.prems map_erase_sorted [of m n] by auto
    have "set m' \<subseteq> set m" using r(5) by (auto simp: map_erase_def)
    then show ?thesis using r True by simp
  next
    case False
    then have "evict_loop maxSize m (n # ns) = Inr (m, n # ns)" by simp
    then show ?thesis using False Cons.prems by (auto simp del: evict_loop.simps)
  qed
qed auto

lemma filter_keys:
  assumes "distinct (map fst m)"
  shows "fst ` set (filter (\<lambda>(n, e). (now :: int) \<le> t e) m) = fst ` set m - {n. \<exists>e. (n, e) \<in> set m \<and> now > t e}"
  using assms
proof (induction m)
  case (Cons p m)
  obtain n e where p: "p = (n, e)" by (cases p)
  have "(n, e') \<notin> set m" for e' using Cons.prems p by force
  then have "{k. \<exists>e'. (k, e') \<in> set (p # m) \<and> now > t e'} =
      (if now > t e then {n} else {}) \<union> {k. \<exists>e'. (k, e') \<in> set m \<and> now > t e'}"
    unfolding p by auto
  moreover have "n \<notin> {k. \<exists>e'. (k, e') \<in> set m \<and> now > t e'}" using \<open>\<And>e'. (n, e') \<notin> set m\<close> by simp
  moreover have "n \<notin> fst ` set m" using Cons.prems p by simp
  ultimately show ?case using Cons.IH Cons.prems p by (cases "now \<le> t e") auto
qed simp

lemma clean_map_ok:
  "clean_map now m lru = (m', lru') \<Longrightarrow> sorted_wrt (<) (map fst m) \<Longrightarrow> distinct lru \<Longrightarrow> fst ` set m \<subseteq> set lru \<Longrightarrow>
    \<forall>(n, e) \<in> set m. te_it e = n \<Longrightarrow>
    m' = filter (\<lambda>(n, e). now \<le> te_timestamp e) m \<and> distinct lru' \<and>
    set lru' = set lru - {n. \<exists>e. (n, e) \<in> set m \<and> now > te_timestamp e} \<and> length lru' \<le> length lru"
proof (induction now m lru arbitrary: m' lru' rule: clean_map.induct)
  case (2 now n e m lru)
  have n: "te_it e = n" "n \<notin> fst ` set m" using 2(4,7) by auto
  show ?case
  proof (cases "now > te_timestamp e")
    case True
    have "fst ` set m \<subseteq> set (remove1 n lru)" using 2(5,6) n(2) by auto
    then have IH: "m' = filter (\<lambda>(n, e). now \<le> te_timestamp e) m \<and> distinct lru' \<and>
        set lru' = set (remove1 n lru) - {n. \<exists>e. (n, e) \<in> set m \<and> now > te_timestamp e} \<and> length lru' \<le> length (remove1 n lru)"
      using 2(1) [OF True, of m' lru'] 2(3-7) n True by auto
    then show ?thesis using True 2(5) by (auto simp: length_remove1 split: if_splits)
  next
    case False
    obtain m1 where r: "clean_map now m lru = (m1, lru')" "m' = (n, e) # m1"
      using 2(3) False by (auto split: prod.splits)
    then show ?thesis using 2(2) [OF False r(1)] 2(4-7) False by auto
  qed
qed auto

lemma ttl_clean_ok: "ttl_ok s \<Longrightarrow> ttl_ok (ttl_clean now s) \<and> tc_maxSize (ttl_clean now s) = tc_maxSize s \<and>
  tc_cache (ttl_clean now s) = filter (\<lambda>(n, e). now \<le> te_timestamp e) (tc_cache s)"
proof -
  assume ok: "ttl_ok s"
  obtain m lru where r: "clean_map now (tc_cache s) (tc_lruList s) = (m, lru)" by (cases "clean_map now (tc_cache s) (tc_lruList s)")
  have f: "m = filter (\<lambda>(n, e). now \<le> te_timestamp e) (tc_cache s)" "distinct lru"
      "set lru = set (tc_lruList s) - {n. \<exists>e. (n, e) \<in> set (tc_cache s) \<and> now > te_timestamp e}" "length lru \<le> length (tc_lruList s)"
    using clean_map_ok [OF r] ok by (auto simp: ttl_ok_def)
  have d: "distinct (map fst (tc_cache s))" using ok sorted_distinct by (auto simp: ttl_ok_def)
  have "set lru = fst ` set m"
    using ok filter_keys [OF d, of now te_timestamp] unfolding f(1,3) ttl_ok_def by simp
  moreover have "sorted_wrt (<) (map fst m)"
    unfolding f(1) using ok by (simp add: ttl_ok_def sorted_wrt_map sorted_wrt_filter)
  ultimately show ?thesis using ok r f by (auto simp: ttl_ok_def ttl_clean_def)
qed

lemma version_prefix:
  assumes "name_wf n" and "name_size n < 2 ^ 31"
  shows "getPrefix n (of_nat (name_size n) - 1) 0 = Inr (Name (butlast (comps n)))"
proof (cases "name_size n")
  case 0
  then have "getSubName n 0 npos = Inr (Name [])" by (simp add: getSubName_def name_size_def)
  then show ?thesis using 0 by (simp add: getPrefix_def npos_def name_size_def)
next
  case (Suc k)
  then have "(of_nat (name_size n) - 1 :: uint64) = of_nat k" by simp
  moreover have "take k (comps n) = butlast (comps n)" using Suc by (simp add: butlast_conv_take name_size_def)
  ultimately show ?thesis using sub_name_nat [OF assms, of 0 k] Suc by (simp add: getPrefix_def)
qed

lemma map_of_key: "map_of m n = Some e \<Longrightarrow> n \<in> fst ` set m"
  by (metis domI dom_map_of_conv_image_fst)

lemma ttl_entry_it: "ttl_ok s \<Longrightarrow> map_of (tc_cache s) n = Some e \<Longrightarrow> te_it e = n \<and> n \<in> set (tc_lruList s)"
  by (auto simp: ttl_ok_def dest: map_of_SomeD map_of_key)

lemma ttl_insert_ok:
  assumes "ttl_ok s" and "0 < tc_maxSize s" and "name_wf (d_name c)" and "name_size (d_name c) < 2 ^ 31"
  shows "\<exists>s'. ttl_insert now c s = Inr s' \<and> ttl_ok s' \<and> tc_maxSize s' = tc_maxSize s \<and>
    map_option te_certificate (map_of (tc_cache s') (Name (butlast (comps (d_name c))))) = Some c"
proof -
  let ?n = "Name (butlast (comps (d_name c)))"
  note p = version_prefix [OF assms(3,4)]
  show ?thesis
  proof (cases "map_of (tc_cache s) ?n")
    case (Some e)
    have it: "te_it e = ?n" "?n \<in> set (tc_lruList s)" using ttl_entry_it [OF assms(1) Some] by auto
    let ?e = "e\<lparr> te_timestamp := now + m_freshness (d_content c), te_certificate := c \<rparr>"
    have k: "fst ` set (map_assign ?n ?e (tc_cache s)) = fst ` set (tc_cache s)"
      using map_assign_keys [of ?n ?e "tc_cache s"] by (metis list.set_map)
    have "\<forall>(n, e) \<in> set (map_assign ?n ?e (tc_cache s)). te_it e = n"
      using assms(1) it(1) map_assign_set by (fastforce simp: ttl_ok_def)
    then show ?thesis
      using assms(1) it splice_end_perm [of ?n "tc_lruList s"] k p Some
      by (auto simp: ttl_insert_def ttl_ok_def Let_def map_assign_of)
  next
    case None
    then have fresh: "?n \<notin> fst ` set (tc_cache s)" by (simp add: map_of_eq_None_iff)
    obtain m lru where e: "evict_loop (tc_maxSize s) (tc_cache s) (tc_lruList s) = Inr (m, lru)"
        "sorted_wrt (<) (map fst m)" "distinct lru" "set lru = fst ` set m" "set m \<subseteq> set (tc_cache s)"
        "length lru < tc_maxSize s"
      using evict_loop_ok [of "tc_maxSize s" "tc_cache s" "tc_lruList s"] assms(1,2) by (auto simp: ttl_ok_def)
    have n: "?n \<notin> fst ` set m" using fresh e(5) by blast
    let ?e = "\<lparr> te_timestamp = now + m_freshness (d_content c), te_certificate = c, te_it = ?n \<rparr>"
    have k: "fst ` set (map_insert ?n ?e m) = insert ?n (fst ` set m)"
      using map_insert_keys [of ?n ?e m] by (metis list.set_map)
    have "\<forall>(n, e) \<in> set (map_insert ?n ?e m). te_it e = n"
      using assms(1) e(5) map_insert_set [of ?n ?e m] by (fastforce simp: ttl_ok_def)
    then show ?thesis
      using e n k p None map_insert_sorted [OF e(2), of ?n ?e] map_insert_of [OF n, of ?e]
      by (auto simp: ttl_insert_def ttl_ok_def Let_def)
  qed
qed

lemma ttl_get_ok:
  assumes "ttl_ok s" and "without_version n v = Inr m"
  shows "\<exists>s'. ttl_get n v s = Inr (map_option te_certificate (map_of (tc_cache s) m), s') \<and> ttl_ok s' \<and>
    tc_maxSize s' = tc_maxSize s \<and> tc_cache s' = tc_cache s"
proof (cases "map_of (tc_cache s) m")
  case (Some e)
  note it = ttl_entry_it [OF assms(1) Some]
  then show ?thesis
    using assms Some splice_end_perm [of m "tc_lruList s"] by (auto simp: ttl_get_def ttl_ok_def)
qed (use assms in \<open>simp add: ttl_get_def\<close>)

text \<open>Sequences of calls, with rounds of the cleaning thread in between.\<close>

datatype 'c ttl_op = TInsert int 'c | TGet name bool | TClean int

fun ttl_run :: "'a certificate_scheme ttl_op list \<Rightarrow> 'a certificate_scheme ttl_cache \<Rightarrow> 'a certificate_scheme ttl_cache result" where
  "ttl_run [] s = Inr s"
| "ttl_run (TInsert now c # ops) s = bindE (ttl_insert now c s) (ttl_run ops)"
| "ttl_run (TGet n v # ops) s = bindE (ttl_get n v s) (\<lambda>(r, s). ttl_run ops s)"
| "ttl_run (TClean now # ops) s = ttl_run ops (ttl_clean now s)"

fun op_names :: "'a certificate_scheme ttl_op \<Rightarrow> name list" where
  "op_names (TInsert now c) = [d_name c]"
| "op_names (TGet n v) = [n]"
| "op_names (TClean now) = []"

definition op_ok :: "'a certificate_scheme ttl_op \<Rightarrow> bool" where
  "op_ok op \<longleftrightarrow> list_all (\<lambda>n. name_wf n \<and> name_size n < 2 ^ 31) (op_names op)"

lemma without_version_ok: "name_wf n \<Longrightarrow> name_size n < 2 ^ 31 \<Longrightarrow>
  without_version n v = Inr (if v then Name (butlast (comps n)) else n)"
  by (simp add: without_version_def version_prefix)

lemma ttl_run_ok:
  "ttl_ok s \<Longrightarrow> 0 < tc_maxSize s \<Longrightarrow> list_all op_ok ops \<Longrightarrow>
    \<exists>s'. ttl_run ops s = Inr s' \<and> ttl_ok s' \<and> tc_maxSize s' = tc_maxSize s"
proof (induction ops arbitrary: s)
  case (Cons op ops)
  show ?case
  proof (cases op)
    case (TInsert now c)
    then obtain s1 where "ttl_insert now c s = Inr s1" "ttl_ok s1" "tc_maxSize s1 = tc_maxSize s"
      using ttl_insert_ok [of s c now] Cons.prems by (auto simp: op_ok_def)
    then show ?thesis using TInsert Cons.IH [of s1] Cons.prems by simp
  next
    case (TGet n v)
    then have "without_version n v = Inr (if v then Name (butlast (comps n)) else n)"
      using Cons.prems(3) by (intro without_version_ok) (auto simp: op_ok_def)
    from ttl_get_ok [OF Cons.prems(1) this] obtain r s1 where
      "ttl_get n v s = Inr (r, s1)" "ttl_ok s1" "tc_maxSize s1 = tc_maxSize s" by blast
    then show ?thesis using TGet Cons.IH [of s1] Cons.prems by simp
  next
    case (TClean now)
    then show ?thesis using Cons.IH [of "ttl_clean now s"] ttl_clean_ok [of s now] Cons.prems by simp
  qed
qed simp

section \<open>The contract of a cache\<close>

text \<open>
  What the policy manager relies on: a cache holds only certificates that were inserted, and returns
  only certificates that it holds.
\<close>

record ('c, 's) cache_ops =
  co_insert :: "int \<Rightarrow> 'c \<Rightarrow> 's \<Rightarrow> 's result"
  co_get :: "int \<Rightarrow> name \<Rightarrow> 's \<Rightarrow> ('c option \<times> 's) result"
  co_clean :: "int \<Rightarrow> 's \<Rightarrow> 's"

locale certificate_store =
  fixes ops :: "('c, 's) cache_ops"
    and held :: "'s \<Rightarrow> 'c set"
    and init :: 's
  assumes insert_held: "co_insert ops now c s = Inr s' \<Longrightarrow> held s' \<subseteq> insert c (held s)"
    and get_held: "co_get ops now n s = Inr (r, s') \<Longrightarrow> held s' \<subseteq> held s \<and> set_option r \<subseteq> held s"
    and clean_held: "held (co_clean ops now s) \<subseteq> held s"
    and init_held: "held init = {}"
begin

lemma get_found: "co_get ops now n s = Inr (Some c, s') \<Longrightarrow> c \<in> held s"
  using get_held by fastforce

lemma get_keeps: "co_get ops now n s = Inr (r, s') \<Longrightarrow> x \<in> held s' \<Longrightarrow> x \<in> held s"
  using get_held by fastforce

lemma insert_keeps: "co_insert ops now c s = Inr s' \<Longrightarrow> x \<in> held s' \<Longrightarrow> x = c \<or> x \<in> held s"
  using insert_held by fastforce

end

definition ttl_ops :: "('a certificate_scheme, 'a certificate_scheme ttl_cache) cache_ops" where
  "ttl_ops = \<lparr> co_insert = ttl_insert, co_get = (\<lambda>now n. ttl_get n False), co_clean = ttl_clean \<rparr>"

definition basic_ops :: "('a certificate_scheme, 'a certificate_scheme basic_cache) cache_ops" where
  "basic_ops = \<lparr> co_insert = (\<lambda>now c s. Inr (basic_insert c s)), co_get = (\<lambda>now n. basic_get now n False), co_clean = (\<lambda>now s. s) \<rparr>"

definition ttl_held :: "'c ttl_cache \<Rightarrow> 'c set" where
  "ttl_held s = te_certificate ` snd ` set (tc_cache s)"

definition basic_held :: "'c basic_cache \<Rightarrow> 'c set" where
  "basic_held s = snd ` set (bc_cache s)"

lemma ttl_held_iff: "c \<in> ttl_held s \<longleftrightarrow> (\<exists>n e. (n, e) \<in> set (tc_cache s) \<and> te_certificate e = c)"
  by (force simp: ttl_held_def)

lemma basic_held_iff: "c \<in> basic_held s \<longleftrightarrow> (\<exists>n. (n, c) \<in> set (bc_cache s))"
  by (force simp: basic_held_def)

lemma ttl_get_held:
  assumes "ttl_get n v s = Inr (r, s')"
  shows "ttl_held s' \<subseteq> ttl_held s \<and> set_option r \<subseteq> ttl_held s"
proof -
  obtain m where m: "without_version n v = Inr m" using assms by (auto simp: ttl_get_def bindE_Inr_iff)
  show ?thesis
  proof (cases "map_of (tc_cache s) m")
    case (Some e)
    then have "te_certificate e \<in> ttl_held s" using map_of_SomeD by (fastforce simp: ttl_held_iff)
    moreover have "tc_cache s' = tc_cache s" and "r = Some (te_certificate e)"
      using assms m Some by (auto simp: ttl_get_def)
    ultimately show ?thesis by (simp add: ttl_held_def)
  qed (use assms m in \<open>simp add: ttl_get_def\<close>)
qed

lemma basic_get_held:
  assumes "basic_get now n v s = Inr (r, s')"
  shows "basic_held s' \<subseteq> basic_held s \<and> set_option r \<subseteq> basic_held s"
proof -
  obtain m where m: "without_version n v = Inr m" using assms by (auto simp: basic_get_def bindE_Inr_iff)
  show ?thesis
  proof (cases "map_of (bc_cache s) m")
    case (Some c)
    then have "c \<in> basic_held s" using map_of_SomeD by (fastforce simp: basic_held_iff)
    then show ?thesis using assms m Some by (auto simp: basic_get_def basic_held_iff map_erase_def split: if_splits)
  qed (use assms m in \<open>simp add: basic_get_def\<close>)
qed

lemma evict_loop_subset: "evict_loop maxSize m lru = Inr (m', lru') \<Longrightarrow> set m' \<subseteq> set m"
  by (induction maxSize m lru rule: evict_loop.induct) (auto simp: map_erase_def split: if_splits)

lemma clean_map_subset: "set (fst (clean_map now m lru)) \<subseteq> set m"
  by (induction now m lru rule: clean_map.induct) (auto split: prod.splits)

lemma ttl_clean_held: "ttl_held (ttl_clean now s) \<subseteq> ttl_held s"
proof -
  have "set (tc_cache (ttl_clean now s)) \<subseteq> set (tc_cache s)"
    using clean_map_subset [of now "tc_cache s" "tc_lruList s"] by (auto simp: ttl_clean_def split: prod.splits)
  then show ?thesis unfolding ttl_held_def by (intro image_mono)
qed

lemma ttl_insert_held: "ttl_insert now c s = Inr s' \<Longrightarrow> ttl_held s' \<subseteq> insert c (ttl_held s)"
proof -
  assume "ttl_insert now c s = Inr s'"
  then obtain n where r: "(case map_of (tc_cache s) n of
      Some e \<Rightarrow> Inr (s\<lparr> tc_lruList := splice_end (te_it e) (tc_lruList s),
          tc_cache := map_assign n (e\<lparr> te_timestamp := now + m_freshness (d_content c), te_certificate := c \<rparr>) (tc_cache s) \<rparr>)
    | None \<Rightarrow> bindE (evict_loop (tc_maxSize s) (tc_cache s) (tc_lruList s)) (\<lambda>(m, lru).
        Inr (s\<lparr> tc_lruList := lru @ [n], tc_cache := map_insert n
          \<lparr> te_timestamp = now + m_freshness (d_content c), te_certificate = c, te_it = n \<rparr> m \<rparr>))) = Inr s'"
    by (auto simp: ttl_insert_def bindE_Inr_iff Let_def)
  show ?thesis
  proof (cases "map_of (tc_cache s) n")
    case (Some e)
    then have "tc_cache s' = map_assign n (e\<lparr> te_timestamp := now + m_freshness (d_content c), te_certificate := c \<rparr>) (tc_cache s)"
      using r by auto
    then have "x = c \<or> x \<in> ttl_held s" if "x \<in> ttl_held s'" for x
      using that map_assign_set unfolding ttl_held_iff by fastforce
    then show ?thesis by blast
  next
    case None
    then obtain m lru where "evict_loop (tc_maxSize s) (tc_cache s) (tc_lruList s) = Inr (m, lru)"
        "tc_cache s' = map_insert n \<lparr> te_timestamp = now + m_freshness (d_content c), te_certificate = c, te_it = n \<rparr> m"
      using r by (auto simp: bindE_Inr_iff)
    then show ?thesis using evict_loop_subset map_insert_set by (fastforce simp: ttl_held_iff)
  qed
qed

interpretation ttl_store: certificate_store ttl_ops ttl_held "new_ttl_cache maxSize"
proof
  fix now and c :: "'a certificate_scheme" and s s'
  assume "co_insert ttl_ops now c s = Inr s'"
  then show "ttl_held s' \<subseteq> insert c (ttl_held s)" by (simp add: ttl_ops_def ttl_insert_held)
next
  fix now n and s s' :: "'a certificate_scheme ttl_cache" and r
  assume "co_get ttl_ops now n s = Inr (r, s')"
  then show "ttl_held s' \<subseteq> ttl_held s \<and> set_option r \<subseteq> ttl_held s"
    using ttl_get_held [of n False s r s'] by (simp add: ttl_ops_def)
next
  fix now and s :: "'a certificate_scheme ttl_cache"
  show "ttl_held (co_clean ttl_ops now s) \<subseteq> ttl_held s" by (simp add: ttl_ops_def ttl_clean_held)
qed (simp add: ttl_held_def new_ttl_cache_def)

interpretation basic_store: certificate_store basic_ops basic_held "\<lparr> bc_cache = [] \<rparr>"
proof
  fix now and c :: "'a certificate_scheme" and s s'
  assume "co_insert basic_ops now c s = Inr s'"
  then show "basic_held s' \<subseteq> insert c (basic_held s)"
    using map_insert_set [of "d_name c" c "bc_cache s"] unfolding basic_ops_def basic_insert_def basic_held_def by auto
next
  fix now n and s s' :: "'a certificate_scheme basic_cache" and r
  assume "co_get basic_ops now n s = Inr (r, s')"
  then show "basic_held s' \<subseteq> basic_held s \<and> set_option r \<subseteq> basic_held s"
    using basic_get_held [of now n False s r s'] by (simp add: basic_ops_def)
qed (simp_all add: basic_held_def basic_ops_def)

section \<open>Properties\<close>

text \<open>C27. Whatever calls are made on a cache with expiry, with rounds of the cleaning thread in between,
  it never reads the front of an empty list, never holds more than \<open>maxSize\<close> entries, and tracks every
  entry exactly once; a certificate just inserted is found under its name with a version.\<close>

theorem ttl_cache_bounded:
  assumes "0 < maxSize" and "list_all op_ok ops" and "name_wf (d_name c)" and "name_size (d_name c) < 2 ^ 31"
  shows "\<exists>s s' s''. ttl_run ops (new_ttl_cache maxSize) = Inr s \<and>
    length (tc_cache s) \<le> maxSize \<and> distinct (tc_lruList s) \<and> set (tc_lruList s) = fst ` set (tc_cache s) \<and>
    ttl_insert now c s = Inr s' \<and> length (tc_cache s') \<le> maxSize \<and> ttl_get (d_name c) True s' = Inr (Some c, s'')"
proof -
  obtain s where s: "ttl_run ops (new_ttl_cache maxSize) = Inr s" "ttl_ok s" "tc_maxSize s = maxSize"
    using ttl_run_ok [OF ttl_ok_new, of maxSize ops] assms(1,2) by (auto simp: new_ttl_cache_def)
  obtain s' where s': "ttl_insert now c s = Inr s'" "ttl_ok s'" "tc_maxSize s' = maxSize"
      "map_option te_certificate (map_of (tc_cache s') (Name (butlast (comps (d_name c))))) = Some c"
    using ttl_insert_ok [OF s(2), of c now] assms s(3) by auto
  obtain s'' where "ttl_get (d_name c) True s' = Inr (Some c, s'')"
    using ttl_get_ok [OF s'(2) without_version_ok [OF assms(3,4), of True]] s'(4) by auto
  then show ?thesis using s s' ttl_ok_size [OF s(2)] ttl_ok_size [OF s'(2)] by (auto simp: ttl_ok_def)
qed

theorem ttl_cache_bounded_witness:
  "\<exists>s s' s''. ttl_run [TInsert 0 new_certificate, TClean 5, TGet (Name []) False] (new_ttl_cache 1) = Inr s \<and>
    length (tc_cache s) \<le> 1 \<and> distinct (tc_lruList s) \<and> set (tc_lruList s) = fst ` set (tc_cache s) \<and>
    ttl_insert 7 (new_certificate\<lparr> d_name := Name [Component [1], Component [2]] \<rparr>) s = Inr s' \<and> length (tc_cache s') \<le> 1 \<and>
    ttl_get (Name [Component [1], Component [2]]) True s' = Inr (Some (new_certificate\<lparr> d_name := Name [Component [1], Component [2]] \<rparr>), s'')"
  using ttl_cache_bounded [of 1 "[TInsert 0 new_certificate, TClean 5, TGet (Name []) False]"
      "new_certificate\<lparr> d_name := Name [Component [1], Component [2]] \<rparr>" 7]
  by (simp add: op_ok_def name_wf_def name_size_def new_certificate_def ndn_data.defs new_data_def)

text \<open>
  The plain cache stores a certificate under its whole name, but looks it up without the version: a
  certificate just inserted is not found under its own name with a version.
\<close>

lemma basic_cache_misses:
  "\<exists>c :: certificate. c_notBefore c = NegInfin \<and> c_notAfter c = PosInfin \<and>
     basic_get now (d_name c) True (basic_insert c \<lparr> bc_cache = [] \<rparr>) = Inr (None, basic_insert c \<lparr> bc_cache = [] \<rparr>)"
proof -
  let ?n = "Name [Component [1], Component [2]]"
  let ?c = "new_certificate\<lparr> d_name := ?n, c_notBefore := NegInfin, c_notAfter := PosInfin \<rparr>"
  have "without_version ?n True = Inr (Name [Component [1]])"
    using without_version_ok [of ?n True] by (simp add: name_wf_def name_size_def)
  then have "basic_get now (d_name ?c) True (basic_insert ?c \<lparr> bc_cache = [] \<rparr>) = Inr (None, basic_insert ?c \<lparr> bc_cache = [] \<rparr>)"
    by (simp add: basic_get_def basic_insert_def)
  then show ?thesis by (intro exI [of _ ?c]) simp
qed

end
