(* ===== verification/Name_Regex.thy ===== *)
theory Name_Regex
  imports Ndn_Name
begin

text \<open>
  \<open>ndn.cxx/regex\<close>: regular expressions over the components of a name.  Matchers form a
  tree; back references and sub-matches of components are shared objects that a manager
  numbers, so their results are kept in one list \<open>refs\<close> that matching threads through.
  \<open>boost::regex\<close>, which matches inside one component, is the parameter \<open>rx\<close>.  Offsets and
  lengths are \<open>int\<close> in the code and stay between 0 and the size of the name; they are
  natural numbers here.
\<close>

section \<open>Matchers\<close>

record boost_regex =
  rx_valid :: "string \<Rightarrow> bool"
  rx_mark_count :: "string \<Rightarrow> nat"
  rx_match :: "string \<Rightarrow> string \<Rightarrow> string list option"

datatype regex_component = RegexComponent (rc_expr: string) (rc_exact: bool) (rc_pseudo: "nat list")

datatype matcher =
    ComponentSet bool "regex_component list"
  | BackRef nat matcher
  | PatternList "matcher list"
  | Repeat nat nat matcher

text \<open>The results of the objects that the back reference manager holds, in its order.\<close>

type_synonym refs = "component list list"

definition pushRef :: "refs \<Rightarrow> nat \<times> refs" where
  "pushRef refs = (length refs, refs @ [[]])"

definition popRef :: "refs \<Rightarrow> nat \<times> refs" where
  "popRef refs = (length refs - 1, butlast refs)"

section \<open>Matching\<close>

text \<open>The loops \<open>for (i = offset; i < offset + len; i++) push_back (name.get (i))\<close>.\<close>

fun get_all :: "name \<Rightarrow> nat list \<Rightarrow> component list result" where
  "get_all n [] = Inr []"
| "get_all n (i # is) = bindE (name_get n (of_nat i)) (\<lambda>c. bindE (get_all n is) (\<lambda>cs. Inr (c # cs)))"

definition get_range :: "name \<Rightarrow> nat \<Rightarrow> nat \<Rightarrow> component list result" where
  "get_range n off len = get_all n [off..<off + len]"

text \<open>\<open>subResult[i]\<close>; an index without a sub-match is the empty string.\<close>

definition sub_match :: "string list \<Rightarrow> nat \<Rightarrow> string" where
  "sub_match sub i = (if i < length sub then sub ! i else [])"

fun set_pseudo :: "nat list \<Rightarrow> nat \<Rightarrow> string list \<Rightarrow> refs \<Rightarrow> refs result" where
  "set_pseudo [] i sub st = Inr st"
| "set_pseudo (p # ps) i sub st =
     bindE (component_of_uri (sub_match sub i)) (\<lambda>c. set_pseudo ps (Suc i) sub (st[p := [c]]))"

definition component_match :: "boost_regex \<Rightarrow> name \<Rightarrow> regex_component \<Rightarrow> nat \<Rightarrow> refs \<Rightarrow> (bool \<times> refs) result" where
  "component_match rx n r off st =
     (if rc_expr r = '''' then bindE (name_get n (of_nat off)) (\<lambda>_. Inr (True, st))
      else if rc_exact r then
        bindE (name_get n (of_nat off)) (\<lambda>c.
          case rx_match rx (rc_expr r) (component_toUri c) of
            None \<Rightarrow> Inr (False, st)
          | Some sub \<Rightarrow> bindE (set_pseudo (rc_pseudo r) 1 sub st) (\<lambda>st. Inr (True, st)))
      else Inl RegexException)"

fun any_component ::
  "boost_regex \<Rightarrow> name \<Rightarrow> regex_component list \<Rightarrow> nat \<Rightarrow> refs \<Rightarrow> (bool \<times> refs) result" where
  "any_component rx n [] off st = Inr (False, st)"
| "any_component rx n (r # rs) off st =
     bindE (component_match rx n r off st)
       (\<lambda>(matched, st). if matched then Inr (True, st) else any_component rx n rs off st)"

text \<open>
  A match returns the \<open>m_matchResult\<close> of a successful match, or \<open>None\<close> for \<open>false\<close>.
  The components of a set are kept in the order of the expression; the code keeps them in a
  \<open>std::set\<close> of pointers, which decides only which sub-matches are recorded.
\<close>

definition componentset_match ::
  "boost_regex \<Rightarrow> name \<Rightarrow> bool \<Rightarrow> regex_component list \<Rightarrow> nat \<Rightarrow> nat \<Rightarrow> refs \<Rightarrow>
   (component list option \<times> refs) result" where
  "componentset_match rx n inc rs off len st =
     (if len \<noteq> 1 then Inr (None, st)
      else bindE (any_component rx n rs off st) (\<lambda>(matched, st).
        if (if inc then matched else \<not> matched)
        then bindE (name_get n (of_nat off)) (\<lambda>c. Inr (Some [c], st))
        else Inr (None, st)))"

text \<open>The loop \<open>while (tried >= 0) { if (body) return true; tried--; } return false\<close>.\<close>

fun tried_loop :: "(nat \<Rightarrow> refs \<Rightarrow> (bool \<times> refs) result) \<Rightarrow> nat \<Rightarrow> refs \<Rightarrow> (bool \<times> refs) result" where
  "tried_loop body 0 st = body 0 st"
| "tried_loop body (Suc tried) st =
     bindE (body (Suc tried) st)
       (\<lambda>(b, st). if b then Inr (True, st) else tried_loop body tried st)"

lemma tried_loop_cong [fundef_cong]:
  assumes "tried = tried'" "st = st'" "\<And>t st. t \<le> tried' \<Longrightarrow> body t st = body' t st"
  shows "tried_loop body tried st = tried_loop body' tried' st'"
  using assms(3) unfolding assms(1,2)
  by (induction tried' arbitrary: st') (auto intro: bindE_cong)

type_synonym run = "nat \<Rightarrow> nat \<Rightarrow> refs \<Rightarrow> (component list option \<times> refs) result"

text \<open>\<open>RegexMatcher::recursiveMatch\<close>, over the matchers from \<open>mId\<close> on.\<close>

fun recursiveMatch :: "run list \<Rightarrow> nat \<Rightarrow> nat \<Rightarrow> refs \<Rightarrow> (bool \<times> refs) result" where
  "recursiveMatch [] off len st = Inr (len = 0, st)"
| "recursiveMatch (m # ms) off len st =
     tried_loop (\<lambda>tried st. bindE (m off tried st) (\<lambda>(r, st).
       if r \<noteq> None then recursiveMatch ms (off + tried) (len - tried) st else Inr (False, st))) len st"

text \<open>\<open>RegexRepeatMatcher::recursiveMatch\<close>.\<close>

function repeat_recursiveMatch :: "run \<Rightarrow> nat \<Rightarrow> nat \<Rightarrow> nat \<Rightarrow> nat \<Rightarrow> nat \<Rightarrow> refs \<Rightarrow> (bool \<times> refs) result" where
  "repeat_recursiveMatch m repeatMin repeatMax repeat off len st =
     (if 0 < len \<and> repeat \<ge> repeatMax then Inr (False, st)
      else if len = 0 \<and> repeat < repeatMin then Inr (False, st)
      else if len = 0 \<and> repeat \<ge> repeatMin then Inr (True, st)
      else tried_loop (\<lambda>tried st. bindE (m off tried st) (\<lambda>(r, st).
        if r \<noteq> None
        then repeat_recursiveMatch m repeatMin repeatMax (repeat + 1) (off + tried) (len - tried) st
        else Inr (False, st))) len st)"
  by pat_completeness auto
termination
  by (relation "measure (\<lambda>(m, mn, mx, repeat, off, len, st). mx - repeat)") auto

declare repeat_recursiveMatch.simps [simp del]

text \<open>The common end of the \<open>match\<close> functions: on success the components are collected.\<close>

definition collect :: "name \<Rightarrow> nat \<Rightarrow> nat \<Rightarrow> bool \<times> refs \<Rightarrow> (component list option \<times> refs) result" where
  "collect n off len = (\<lambda>(b, st).
     if b then bindE (get_range n off len) (\<lambda>cs. Inr (Some cs, st)) else Inr (None, st))"

fun regex_match :: "boost_regex \<Rightarrow> name \<Rightarrow> matcher \<Rightarrow> run" where
  "regex_match rx n (ComponentSet inc rs) off len st = componentset_match rx n inc rs off len st"
| "regex_match rx n (PatternList ms) off len st =
     bindE (recursiveMatch (map (\<lambda>m off len st. regex_match rx n m off len st) ms) off len st) (collect n off len)"
| "regex_match rx n (BackRef i m) off len st =
     bindE (bindE (recursiveMatch [\<lambda>off len st. regex_match rx n m off len st] off len (st[i := []])) (collect n off len))
       (\<lambda>(r, st). Inr (r, case r of None \<Rightarrow> st | Some cs \<Rightarrow> st[i := cs]))"
| "regex_match rx n (Repeat repeatMin repeatMax m) off len st =
     (if repeatMin = 0 \<and> len = 0 then Inr (Some [], st)
      else bindE (repeat_recursiveMatch (\<lambda>off len st. regex_match rx n m off len st) repeatMin repeatMax 0 off len st)
        (collect n off len))"

section \<open>Compilation\<close>

text \<open>\<open>m_expr[index]\<close>: one position behind the end a \<open>std::string\<close> holds the character 0.\<close>

definition char_at :: "string \<Rightarrow> nat \<Rightarrow> char" where
  "char_at expr index = (if index < length expr then expr ! index else CHR 0x00)"

definition substr :: "string \<Rightarrow> nat \<Rightarrow> nat \<Rightarrow> string" where
  "substr s start len = take len (drop start s)"

definition INT_MAX :: nat where
  "INT_MAX = 2147483647"

text \<open>\<open>RegexPatternListMatcher::extractSubPattern\<close>.\<close>

function sub_pattern_loop :: "string \<Rightarrow> char \<Rightarrow> char \<Rightarrow> nat \<Rightarrow> nat \<Rightarrow> nat \<Rightarrow> nat result" where
  "sub_pattern_loop expr left right lcount rcount index =
     (if lcount > rcount then
        if index \<ge> length expr then Inl RegexException
        else sub_pattern_loop expr left right
          (if left = expr ! index then lcount + 1 else lcount)
          (if right = expr ! index then rcount + 1 else rcount) (index + 1)
      else Inr index)"
  by pat_completeness auto
termination
  by (relation "measure (\<lambda>(expr, left, right, lcount, rcount, index). length expr - index)") auto

declare sub_pattern_loop.simps [simp del]

definition extractSubPattern :: "string \<Rightarrow> char \<Rightarrow> char \<Rightarrow> nat \<Rightarrow> nat result" where
  "extractSubPattern expr left right index = sub_pattern_loop expr left right 1 0 index"

function brace_loop :: "string \<Rightarrow> nat \<Rightarrow> nat" where
  "brace_loop expr index =
     (if index < length expr \<and> expr ! index \<noteq> CHR ''}'' then brace_loop expr (index + 1) else index)"
  by pat_completeness auto
termination
  by (relation "measure (\<lambda>(expr, index). length expr - index)") auto

declare brace_loop.simps [simp del]

definition extractRepetition :: "string \<Rightarrow> nat \<Rightarrow> nat result" where
  "extractRepetition expr index =
     (if index = length expr then Inr index
      else if expr ! index \<in> {CHR ''+'', CHR ''?'', CHR ''*''} then Inr (index + 1)
      else if expr ! index = CHR ''{'' then
        if brace_loop expr index = length expr then Inl RegexException else Inr (brace_loop expr index + 1)
      else Inr index)"

text \<open>
  \<open>RegexRepeatMatcher::parseRepetition\<close>.  The four patterns \<open>{m,n}\<close>, \<open>{,n}\<close>, \<open>{m,}\<close>,
  \<open>{m}\<close> are recognised directly; \<open>atoi\<close> stops at the first character that is no digit and is
  undefined for numbers out of range.  A single character other than \<open>?\<close>, \<open>+\<close>, \<open>*\<close> would leave
  the bounds unset; \<open>extractRepetition\<close> never passes one.
\<close>

definition is_digit_char :: "char \<Rightarrow> bool" where
  "is_digit_char c \<longleftrightarrow> (48 :: nat) \<le> of_char c \<and> of_char c \<le> (57 :: nat)"

definition is_digits :: "string \<Rightarrow> bool" where
  "is_digits s \<longleftrightarrow> s \<noteq> [] \<and> list_all is_digit_char s"

definition atoi :: "string \<Rightarrow> nat result" where
  "atoi s =
     (let v = foldl (\<lambda>v c. 10 * v + (of_char c - 48)) 0 s in if v \<le> INT_MAX then Inr v else Inl UndefinedBehaviour)"

definition parse_bounds :: "string \<Rightarrow> (nat \<times> nat) result" where
  "parse_bounds body =
     (let a = takeWhile (\<lambda>c. c \<noteq> CHR '','') body;
          b = dropWhile (\<lambda>c. c \<noteq> CHR '','') body
      in if b = [] then
           if is_digits a then bindE (atoi a) (\<lambda>v. Inr (v, v)) else Inl RegexException
         else if is_digits a \<and> is_digits (tl b) then
           bindE (atoi a) (\<lambda>mn. bindE (atoi (tl b)) (\<lambda>mx. Inr (mn, mx)))
         else if a = [] \<and> is_digits (tl b) then bindE (atoi (tl b)) (\<lambda>mx. Inr (0, mx))
         else if is_digits a \<and> tl b = [] then bindE (atoi a) (\<lambda>mn. Inr (mn, INT_MAX))
         else Inl RegexException)"

definition parseRepetition :: "string \<Rightarrow> nat \<Rightarrow> (nat \<times> nat) result" where
  "parseRepetition expr indicator =
     (if length expr = indicator then Inr (1, 1)
      else if length expr = indicator + 1 then
        if expr ! indicator = CHR ''?'' then Inr (0, 1)
        else if expr ! indicator = CHR ''+'' then Inr (1, INT_MAX)
        else if expr ! indicator = CHR ''*'' then Inr (0, INT_MAX)
        else Inl UndefinedBehaviour
      else
        let repeatStruct = drop indicator expr
        in if 2 \<le> length repeatStruct \<and> hd repeatStruct = CHR ''{'' \<and> last repeatStruct = CHR ''}'' then
             bindE (parse_bounds (butlast (tl repeatStruct)))
               (\<lambda>(mn, mx). if mn > mx then Inl RegexException else Inr (mn, mx))
           else Inl RegexException)"

text \<open>\<open>RegexComponentSetMatcher\<close>.\<close>

function component_loop :: "string \<Rightarrow> nat \<Rightarrow> nat \<Rightarrow> nat \<Rightarrow> nat result" where
  "component_loop expr lcount rcount index =
     (if lcount > rcount then
        if char_at expr index = CHR 0x00 then Inl RegexException
        else component_loop expr
          (if char_at expr index = CHR ''<'' then lcount + 1 else lcount)
          (if char_at expr index = CHR ''>'' then rcount + 1 else rcount) (index + 1)
      else Inr index)"
  by pat_completeness auto
termination
  by (relation "measure (\<lambda>(expr, lcount, rcount, index). length expr - index)")
    (auto simp: char_at_def split: if_splits)

declare component_loop.simps [simp del]

definition extractComponent :: "string \<Rightarrow> nat \<Rightarrow> nat result" where
  "extractComponent expr index = component_loop expr 1 0 index"

lemma component_loop_grows: "component_loop expr l r index = Inr index' \<Longrightarrow> index \<le> index' \<and> (r < l \<longrightarrow> index < index')"
proof (induction expr l r index rule: component_loop.induct)
  case (1 expr l r index)
  show ?case
  proof (cases "r < l")
    case True
    then have "char_at expr index \<noteq> CHR 0x00"
      using 1(2) by (auto simp: component_loop.simps [of expr l r index])
    then show ?thesis using 1(1) [OF True] 1(2) True by (auto simp: component_loop.simps [of expr l r index])
  qed (use 1 in \<open>auto simp: component_loop.simps [of expr l r index]\<close>)
qed

definition component_compile :: "boost_regex \<Rightarrow> string \<Rightarrow> refs \<Rightarrow> (regex_component \<times> refs) result" where
  "component_compile rx expr refs =
     (if \<not> rx_valid rx expr then Inl BoostRegexError
      else
        let k = rx_mark_count rx expr - 1
        in Inr (RegexComponent expr True [length refs..<length refs + k], refs @ replicate k []))"

definition compileSingleComponent :: "boost_regex \<Rightarrow> string \<Rightarrow> refs \<Rightarrow> (regex_component list \<times> refs) result" where
  "compileSingleComponent rx expr refs =
     bindE (extractComponent expr 1) (\<lambda>stop.
       if length expr \<noteq> stop then Inl RegexException
       else bindE (component_compile rx (substr expr 1 (stop - 2)) refs) (\<lambda>(c, refs). Inr ([c], refs)))"

function compileMultipleComponents ::
  "boost_regex \<Rightarrow> string \<Rightarrow> nat \<Rightarrow> nat \<Rightarrow> refs \<Rightarrow> (regex_component list \<times> refs) result" where
  "compileMultipleComponents rx expr index lastIndex refs =
     (if index < lastIndex then
        if char_at expr index \<noteq> CHR ''<'' then Inl RegexException
        else bindE (extractComponent expr (index + 1)) (\<lambda>nxt.
          bindE (component_compile rx (substr expr (index + 1) (nxt - (index + 1) - 1)) refs) (\<lambda>(c, refs).
            bindE (compileMultipleComponents rx expr nxt lastIndex refs) (\<lambda>(cs, refs). Inr (c # cs, refs))))
      else if index \<noteq> lastIndex then Inl RegexException
      else Inr ([], refs))"
  by pat_completeness auto
termination
  by (relation "measure (\<lambda>(rx, expr, index, lastIndex, refs). lastIndex - index)")
    (auto simp: extractComponent_def dest!: component_loop_grows)

declare compileMultipleComponents.simps [simp del]

definition componentset_compile :: "boost_regex \<Rightarrow> string \<Rightarrow> refs \<Rightarrow> (matcher \<times> refs) result" where
  "componentset_compile rx expr refs =
     (if char_at expr 0 = CHR ''<'' then
        bindE (compileSingleComponent rx expr refs) (\<lambda>(cs, refs). Inr (ComponentSet True cs, refs))
      else if char_at expr 0 = CHR ''['' then
        if char_at expr (length expr - 1) \<noteq> CHR '']'' then Inl RegexException
        else if char_at expr 1 = CHR ''^'' then
          bindE (compileMultipleComponents rx expr 2 (length expr - 1) refs) (\<lambda>(cs, refs). Inr (ComponentSet False cs, refs))
        else
          bindE (compileMultipleComponents rx expr 1 (length expr - 1) refs) (\<lambda>(cs, refs). Inr (ComponentSet True cs, refs))
      else Inl RegexException)"

text \<open>\<open>RegexBackRefMatcher::compile\<close>: the expression between the parentheses.\<close>

definition backref_inner :: "string \<Rightarrow> string result" where
  "backref_inner expr =
     (if char_at expr 0 = CHR ''('' \<and> char_at expr (length expr - 1) = CHR '')''
      then Inr (substr expr 1 (length expr - 2)) else Inl RegexException)"

lemma backref_inner_shorter: "backref_inner expr = Inr inner \<Longrightarrow> length inner < length expr"
  by (cases expr) (auto simp: backref_inner_def char_at_def substr_def split: if_splits)

lemma sub_pattern_grows:
  "sub_pattern_loop expr left right l r index = Inr index' \<Longrightarrow> index \<le> index' \<and> (index \<le> length expr \<longrightarrow> index' \<le> length expr)"
proof (induction expr left right l r index rule: sub_pattern_loop.induct)
  case (1 expr left right l r index)
  show ?case
  proof (cases "r < l \<and> index < length expr")
    case True
    then have "Suc index \<le> index' \<and> (Suc index \<le> length expr \<longrightarrow> index' \<le> length expr)"
      using 1(1) 1(2) by (simp add: sub_pattern_loop.simps [of expr left right l r index])
    then show ?thesis using True by auto
  qed (use 1(2) in \<open>auto simp: sub_pattern_loop.simps [of expr left right l r index] split: if_splits\<close>)
qed

lemma brace_loop_grows: "index \<le> brace_loop expr index"
  by (induction expr index rule: brace_loop.induct) (subst brace_loop.simps, auto)

lemma extractRepetition_grows: "extractRepetition expr index = Inr index' \<Longrightarrow> index \<le> index'"
  using brace_loop_grows [of index expr]
  by (auto simp: extractRepetition_def split: if_splits)

text \<open>
  \<open>RegexPatternListMatcher::compile\<close> with \<open>extractPattern\<close>, and \<open>RegexRepeatMatcher::compile\<close>
  for the matchers it creates.  A back reference is pushed before its inner expression is
  compiled, so references are numbered by their opening parentheses.
\<close>

function patternlist_compile :: "boost_regex \<Rightarrow> string \<Rightarrow> nat \<Rightarrow> refs \<Rightarrow> (matcher list \<times> refs) result" where
  "patternlist_compile rx expr index refs =
     (if index < length expr then
        if expr ! index = CHR ''('' then
          bindE (extractSubPattern expr CHR ''('' CHR '')'' (index + 1)) (\<lambda>indicator.
          bindE (extractRepetition expr indicator) (\<lambda>stop.
          bindE (backref_inner (substr (substr expr index (stop - index)) 0 (indicator - index))) (\<lambda>inner.
          bindE (patternlist_compile rx inner 0 (snd (pushRef refs))) (\<lambda>(ms, refs').
          bindE (if indicator = stop then Inr (BackRef (fst (pushRef refs)) (PatternList ms))
                 else bindE (parseRepetition (substr expr index (stop - index)) (indicator - index))
                   (\<lambda>(mn, mx). Inr (Repeat mn mx (BackRef (fst (pushRef refs)) (PatternList ms))))) (\<lambda>m.
          bindE (patternlist_compile rx expr stop refs') (\<lambda>(rest, refs''). Inr (m # rest, refs'')))))))
        else if expr ! index \<in> {CHR ''<'', CHR ''[''} then
          bindE (extractSubPattern expr (expr ! index) (if expr ! index = CHR ''<'' then CHR ''>'' else CHR '']'') (index + 1)) (\<lambda>indicator.
          bindE (extractRepetition expr indicator) (\<lambda>stop.
          bindE (componentset_compile rx (substr (substr expr index (stop - index)) 0 (indicator - index)) refs) (\<lambda>(m, refs').
          bindE (parseRepetition (substr expr index (stop - index)) (indicator - index)) (\<lambda>(mn, mx).
          bindE (patternlist_compile rx expr stop refs') (\<lambda>(rest, refs''). Inr (Repeat mn mx m # rest, refs''))))))
        else Inl RegexException
      else Inr ([], refs))"
  by pat_completeness auto
termination
proof (relation "measures [\<lambda>(rx, expr, index, refs). length expr, \<lambda>(rx, expr, index, refs). length expr - index]")
qed (auto simp: extractSubPattern_def substr_def dest!: backref_inner_shorter sub_pattern_grows extractRepetition_grows)

declare patternlist_compile.simps [simp del]

section \<open>The top matcher\<close>

record regex_top =
  m_expand :: string
  m_primaryMatcher :: matcher
  m_secondaryMatcher :: "matcher option"
  m_primaryRefs :: refs
  m_secondaryRefs :: refs
  m_matchResult :: "component list"
  m_secondaryUsed :: bool

definition pattern_list :: "boost_regex \<Rightarrow> string \<Rightarrow> (matcher \<times> refs) result" where
  "pattern_list rx expr = bindE (patternlist_compile rx expr 0 []) (\<lambda>(ms, refs). Inr (PatternList ms, refs))"

definition top_compile :: "boost_regex \<Rightarrow> string \<Rightarrow> string \<Rightarrow> regex_top result" where
  "top_compile rx expr expand =
     (if expr = [] then Inl UndefinedBehaviour
      else
        let expr = (if last expr \<noteq> CHR ''$'' then expr @ ''<.*>*'' else substr expr 0 (length expr - 1))
        in bindE (if char_at expr 0 \<noteq> CHR ''^''
                  then bindE (pattern_list rx (''<.*>*'' @ expr)) (\<lambda>(m, refs). Inr (Some m, refs, expr))
                  else Inr (None, [], substr expr 1 (length expr - 1))) (\<lambda>(secondary, srefs, expr).
           bindE (pattern_list rx expr) (\<lambda>(primary, prefs).
             Inr \<lparr> m_expand = expand, m_primaryMatcher = primary, m_secondaryMatcher = secondary,
               m_primaryRefs = prefs, m_secondaryRefs = srefs, m_matchResult = [], m_secondaryUsed = False \<rparr>)))"

definition top_match :: "boost_regex \<Rightarrow> regex_top \<Rightarrow> name \<Rightarrow> (bool \<times> regex_top) result" where
  "top_match rx t n =
     (let t = t\<lparr> m_secondaryUsed := False, m_matchResult := [] \<rparr>
      in bindE (regex_match rx n (m_primaryMatcher t) 0 (name_size n) (m_primaryRefs t)) (\<lambda>(r, refs).
           let t = t\<lparr> m_primaryRefs := refs \<rparr>
           in case r of
                Some cs \<Rightarrow> Inr (True, t\<lparr> m_matchResult := cs \<rparr>)
              | None \<Rightarrow>
                  (case m_secondaryMatcher t of
                     None \<Rightarrow> Inr (False, t)
                   | Some sm \<Rightarrow>
                       bindE (regex_match rx n sm 0 (name_size n) (m_secondaryRefs t)) (\<lambda>(r, refs).
                         let t = t\<lparr> m_secondaryRefs := refs \<rparr>
                         in case r of
                              Some cs \<Rightarrow> Inr (True, t\<lparr> m_matchResult := cs, m_secondaryUsed := True \<rparr>)
                            | None \<Rightarrow> Inr (False, t)))))"

text \<open>
  \<open>getItemFromExpand\<close> on what is left of the expand string.  The loop over a component also
  throws when the component ends the string.
\<close>

fun expand_component :: "string \<Rightarrow> nat \<Rightarrow> nat \<Rightarrow> string \<Rightarrow> (string \<times> string) result" where
  "expand_component acc left right [] = Inl RegexException"
| "expand_component acc left right (c # cs) =
     (let left = (if c = CHR ''<'' then left + 1 else left);
          right = (if c = CHR ''>'' then right + 1 else right)
      in if cs = [] then Inl RegexException
         else if right < left then expand_component (acc @ [c]) left right cs
         else Inr (acc @ [c], cs))"

definition getItemFromExpand :: "string \<Rightarrow> (string \<times> string) result" where
  "getItemFromExpand s =
     (if char_at s 0 = CHR 0x5C then
        let digits = takeWhile is_digit_char (tl s)
        in if digits = [] then Inl RegexException
           else Inr (CHR 0x5C # digits, drop (length digits) (tl s))
      else if char_at s 0 = CHR ''<'' then
        if length s \<le> 1 then Inl RegexException else expand_component ''<'' 1 0 (tl s)
      else Inl RegexException)"

lemma expand_component_shorter: "expand_component acc l r s = Inr (item, s') \<Longrightarrow> length s' < length s"
  by (induction s arbitrary: acc l r) (auto simp: Let_def less_SucI split: if_splits)

lemma getItem_shorter: "getItemFromExpand s = Inr (item, s') \<Longrightarrow> length s' < length s"
proof -
  assume a: "getItemFromExpand s = Inr (item, s')"
  then have "s \<noteq> []" by (auto simp: getItemFromExpand_def char_at_def)
  then show ?thesis
    using a expand_component_shorter [of "''<''" 1 0 "tl s" item s']
    by (cases s) (auto simp: getItemFromExpand_def Let_def split: if_splits)
qed

function expand_loop :: "component list \<Rightarrow> refs \<Rightarrow> string \<Rightarrow> name \<Rightarrow> name result" where
  "expand_loop matched refs s n =
     (if s = [] then Inr n
      else bindE (getItemFromExpand s) (\<lambda>(item, s).
        if hd item = CHR ''<'' then
          bindE (append_string n (substr item 1 (length item - 2))) (expand_loop matched refs s)
        else
          bindE (atoi (tl item)) (\<lambda>index.
            if index = 0 then expand_loop matched refs s (append_range n matched)
            else if index \<le> length refs then expand_loop matched refs s (append_range n (refs ! (index - 1)))
            else Inl RegexException)))"
  by pat_completeness auto
termination
  by (relation "measure (\<lambda>(matched, refs, s, n). length s)") (auto dest: getItem_shorter)

declare expand_loop.simps [simp del]

definition top_expand :: "regex_top \<Rightarrow> string \<Rightarrow> name result" where
  "top_expand t expandStr =
     expand_loop (m_matchResult t) (if m_secondaryUsed t then m_secondaryRefs t else m_primaryRefs t)
       (if expandStr \<noteq> [] then expandStr else m_expand t) (Name [])"

definition special_chars :: "char set" where
  "special_chars = set ''.[{}()*+?|^$'' \<union> {CHR 0x5C}"

definition convertSpecialChar :: "string \<Rightarrow> string" where
  "convertSpecialChar s = concat (map (\<lambda>c. if c \<in> special_chars then [CHR 0x5C, c] else [c]) s)"

definition fromName_expr :: "name \<Rightarrow> bool \<Rightarrow> string" where
  "fromName_expr n hasAnchor =
     ''^'' @ concat (map (\<lambda>c. ''<'' @ convertSpecialChar (component_toUri c) @ ''>'') (comps n)) @
     (if hasAnchor then ''$'' else [])"

definition fromName :: "boost_regex \<Rightarrow> name \<Rightarrow> bool \<Rightarrow> regex_top result" where
  "fromName rx n hasAnchor = top_compile rx (fromName_expr n hasAnchor) []"

section \<open>The language of a matcher\<close>

fun concats :: "'a list set list \<Rightarrow> 'a list set" where
  "concats [] = {[]}"
| "concats (L # Ls) = {u @ v | u v. u \<in> L \<and> v \<in> concats Ls}"

definition comp_ok :: "boost_regex \<Rightarrow> regex_component \<Rightarrow> component \<Rightarrow> bool" where
  "comp_ok rx r c \<longleftrightarrow> rc_expr r = '''' \<or> rx_match rx (rc_expr r) (component_toUri c) \<noteq> None"

text \<open>
  What each matcher accepts: a set of components, concatenation, and repetition.  Repetition is
  the usual union of powers on non-empty parts; the empty part is accepted only with a lower
  bound of 0, even when the repeated expression accepts it.
\<close>

fun lang :: "boost_regex \<Rightarrow> matcher \<Rightarrow> component list set" where
  "lang rx (ComponentSet inc rs) = {[c] | c. (\<exists>r\<in>set rs. comp_ok rx r c) = inc}"
| "lang rx (PatternList ms) = concats (map (lang rx) ms)"
| "lang rx (BackRef i m) = lang rx m"
| "lang rx (Repeat mn mx m) =
     {s. if s = [] then mn = 0 else \<exists>k. mn \<le> k \<and> k \<le> mx \<and> s \<in> concats (replicate k (lang rx m))}"

definition part :: "name \<Rightarrow> nat \<Rightarrow> nat \<Rightarrow> component list" where
  "part n off len = take len (drop off (comps n))"

definition run_ok :: "name \<Rightarrow> run \<Rightarrow> component list set \<Rightarrow> bool" where
  "run_ok n m L \<longleftrightarrow> (\<forall>off len st r st'. off + len \<le> name_size n \<and> m off len st = Inr (r, st') \<longrightarrow>
     r = (if part n off len \<in> L then Some (part n off len) else None))"

lemma part_split: "t \<le> len \<Longrightarrow> part n off len = part n off t @ part n (off + t) (len - t)"
  by (simp add: part_def take_add [symmetric] add.commute [of off] flip: drop_drop)

lemma part_length [simp]: "off + len \<le> name_size n \<Longrightarrow> length (part n off len) = len"
  by (simp add: part_def name_size_def)

lemma part_0 [simp]: "part n off 0 = []"
  by (simp add: part_def)

lemma part_Nil_iff: "off + len \<le> name_size n \<Longrightarrow> part n off len = [] \<longleftrightarrow> len = 0"
  by (metis part_length length_0_conv)

lemma part_decomp:
  assumes "off + len \<le> name_size n" and "part n off len = u @ v"
  shows "length u \<le> len \<and> u = part n off (length u) \<and> v = part n (off + length u) (len - length u)"
proof -
  have l: "length u \<le> len" using assms part_length by (metis length_append le_add1)
  then show ?thesis
    using assms part_split [OF l, of n off] by (simp add: append_eq_append_conv)
qed

lemma get_range_part:
  assumes "name_size n < 2 ^ 31" and "off + len \<le> name_size n"
  shows "get_range n off len = Inr (part n off len)"
proof -
  have "\<forall>i\<in>set is. i < name_size n \<Longrightarrow> get_all n is = Inr (map ((!) (comps n)) is)" for "is"
    using assms(1) by (induction "is") (simp_all add: name_get_of_nat)
  then show ?thesis
    using assms(2) map_nth_upt [of "off + len" "comps n" off]
    by (simp add: get_range_def part_def name_size_def)
qed

lemma tried_loop_true:
  assumes "tried_loop body tried st = Inr (b, st')"
    and "\<And>t st b st'. t \<le> tried \<Longrightarrow> body t st = Inr (b, st') \<Longrightarrow> b = P t"
  shows "b = (\<exists>t\<le>tried. P t)"
  using assms
proof (induction tried arbitrary: st)
  case (Suc tried)
  then obtain b1 st1 where 1: "body (Suc tried) st = Inr (b1, st1)" by (auto simp: bindE_Inr_iff)
  then have b1: "b1 = P (Suc tried)" using Suc.prems(2) by blast
  show ?case
  proof (cases b1)
    case True
    then show ?thesis using Suc.prems(1) 1 b1 by auto
  next
    case False
    then have "tried_loop body tried st1 = Inr (b, st')" using Suc.prems(1) 1 by simp
    then have "b = (\<exists>t\<le>tried. P t)" by (rule Suc.IH) (rule Suc.prems(2), simp_all)
    then show ?thesis using False b1 by (auto simp: le_Suc_eq)
  qed
next
  case 0
  show ?case using 0(1) 0(2) [of 0 st b st'] by simp
qed

lemma run_okD:
  "run_ok n m L \<Longrightarrow> m off len st = Inr (r, st') \<Longrightarrow> off + len \<le> name_size n \<Longrightarrow>
    r \<noteq> None \<longleftrightarrow> part n off len \<in> L"
  unfolding run_ok_def by (metis option.distinct(1))

lemma recursiveMatch_lang:
  assumes "list_all2 (run_ok n) ms Ls" and "off + len \<le> name_size n"
    and "recursiveMatch ms off len st = Inr (b, st')"
  shows "b \<longleftrightarrow> part n off len \<in> concats Ls"
  using assms
proof (induction ms Ls arbitrary: off len st b st' rule: list_all2_induct)
  case Nil
  then show ?case by (simp add: part_Nil_iff)
next
  case (Cons m ms L Ls)
  let ?P = "\<lambda>t. part n off t \<in> L \<and> part n (off + t) (len - t) \<in> concats Ls"
  have "b = (\<exists>t\<le>len. ?P t)"
    using Cons.prems(2) unfolding recursiveMatch.simps
  proof (rule tried_loop_true)
    fix t st b st'
    assume t: "t \<le> len"
      and "bindE (m off t st) (\<lambda>(r, st). if r \<noteq> None then recursiveMatch ms (off + t) (len - t) st else Inr (False, st)) = Inr (b, st')"
    then obtain r st1 where 1: "m off t st = Inr (r, st1)"
        "(if r \<noteq> None then recursiveMatch ms (off + t) (len - t) st1 else Inr (False, st1)) = Inr (b, st')"
      by (auto simp: bindE_Inr_iff)
    have r: "r \<noteq> None \<longleftrightarrow> part n off t \<in> L" using run_okD [OF Cons(1) 1(1)] t Cons.prems(1) by simp
    show "b = ?P t"
    proof (cases "r = None")
      case False
      then have "recursiveMatch ms (off + t) (len - t) st1 = Inr (b, st')" using 1(2) by simp
      then have "b \<longleftrightarrow> part n (off + t) (len - t) \<in> concats Ls" using t Cons.prems(1) by (intro Cons.IH) auto
      then show ?thesis using r False by simp
    qed (use 1 r in auto)
  qed
  also have "\<dots> \<longleftrightarrow> part n off len \<in> concats (L # Ls)"
  proof
    assume "\<exists>t\<le>len. ?P t"
    then show "part n off len \<in> concats (L # Ls)" using part_split by fastforce
  next
    assume "part n off len \<in> concats (L # Ls)"
    then obtain u v where "part n off len = u @ v" "u \<in> L" "v \<in> concats Ls" by auto
    then show "\<exists>t\<le>len. ?P t" using part_decomp [OF Cons.prems(1)] by metis
  qed
  finally show ?case .
qed

lemma Nil_concats: "[] \<in> concats Ls \<longleftrightarrow> (\<forall>L\<in>set Ls. [] \<in> L)"
  by (induction Ls) auto

text \<open>
  In a power that yields a non-empty word the empty factors can be moved to the front, so that
  the rest after the first factor is again non-empty, or the first factor is the last.
\<close>

lemma power_step:
  assumes "s \<in> concats (replicate k L)" and "s \<noteq> []"
  shows "\<exists>u v. s = u @ v \<and> u \<in> L \<and> (if v = [] then k = 1 else v \<in> concats (replicate (k - 1) L))"
proof -
  obtain j where k: "k = Suc j" using assms by (cases k) auto
  then obtain u v where uv: "s = u @ v" "u \<in> L" "v \<in> concats (replicate j L)" using assms(1) by auto
  show ?thesis
  proof (cases "v = [] \<and> j \<noteq> 0")
    case True
    then obtain i where j: "j = Suc i" by (cases j) auto
    have "[] \<in> L" "[] \<in> concats (replicate i L)" using uv(3) True j by (auto simp: Nil_concats)
    then have "s \<in> concats (replicate j L)" using uv True j by auto
    then show ?thesis using \<open>[] \<in> L\<close> assms(2) k by (intro exI [of _ "[]"] exI [of _ s]) simp
  qed (use uv k in auto)
qed

lemma repeat_lang:
  assumes "run_ok n m L" and "off + len \<le> name_size n"
    and "repeat_recursiveMatch m mn mx repeat off len st = Inr (b, st')"
  shows "b \<longleftrightarrow> (if len = 0 then mn \<le> repeat
    else \<exists>k. mn \<le> repeat + k \<and> repeat + k \<le> mx \<and> part n off len \<in> concats (replicate k L))"
  using assms
proof (induction "mx - repeat" arbitrary: repeat off len st b st' rule: less_induct)
  case less
  let ?rest = "\<lambda>t. if len - t = 0 then mn \<le> repeat + 1
    else \<exists>k. mn \<le> repeat + 1 + k \<and> repeat + 1 + k \<le> mx \<and> part n (off + t) (len - t) \<in> concats (replicate k L)"
  let ?Q = "\<exists>k. mn \<le> repeat + k \<and> repeat + k \<le> mx \<and> part n off len \<in> concats (replicate k L)"
  note step = less.prems(3) [unfolded repeat_recursiveMatch.simps [of m mn mx repeat]]
  have ne: "k \<noteq> 0" if "len \<noteq> 0" "part n off len \<in> concats (replicate k L)" for k
    using that less.prems(2) by (cases k) (auto simp: part_Nil_iff)
  consider "len = 0" | "len \<noteq> 0" "mx \<le> repeat" | "len \<noteq> 0" "repeat < mx" by linarith
  then show ?case
  proof cases
    case 1
    then show ?thesis using step by (auto split: if_splits)
  next
    case 2
    have "\<not> ?Q"
    proof
      assume ?Q
      then obtain k where "repeat + k \<le> mx" "k \<noteq> 0" using ne [OF 2(1)] by auto
      then show False using 2(2) by linarith
    qed
    then show ?thesis using step 2 by simp
  next
    case 3
    have "b = (\<exists>t\<le>len. part n off t \<in> L \<and> ?rest t)"
    proof (rule tried_loop_true)
      show "tried_loop (\<lambda>tried st. bindE (m off tried st) (\<lambda>(r, st). if r \<noteq> None
          then repeat_recursiveMatch m mn mx (repeat + 1) (off + tried) (len - tried) st
          else Inr (False, st))) len st = Inr (b, st')"
        using step 3 by simp
    next
      fix t st b st'
      assume t: "t \<le> len" and "bindE (m off t st) (\<lambda>(r, st). if r \<noteq> None
          then repeat_recursiveMatch m mn mx (repeat + 1) (off + t) (len - t) st
          else Inr (False, st)) = Inr (b, st')"
      then obtain r st1 where 1: "m off t st = Inr (r, st1)"
          "(if r \<noteq> None then repeat_recursiveMatch m mn mx (repeat + 1) (off + t) (len - t) st1 else Inr (False, st1)) = Inr (b, st')"
        by (auto simp: bindE_Inr_iff)
      have r: "r \<noteq> None \<longleftrightarrow> part n off t \<in> L" using run_okD [OF assms(1) 1(1)] t less.prems(2) by simp
      show "b = (part n off t \<in> L \<and> ?rest t)"
      proof (cases "r = None")
        case False
        then have "repeat_recursiveMatch m mn mx (repeat + 1) (off + t) (len - t) st1 = Inr (b, st')" using 1(2) by simp
        then have "b = ?rest t"
          using t 3(2) less.prems(1,2) by (intro less.hyps) auto
        then show ?thesis using r False by simp
      qed (use 1 r in auto)
    qed
    also have "\<dots> \<longleftrightarrow> ?Q"
    proof
      assume "\<exists>t\<le>len. part n off t \<in> L \<and> ?rest t"
      then obtain t where t: "t \<le> len" "part n off t \<in> L" "?rest t" by auto
      show ?Q
      proof (cases "len - t = 0")
        case True
        then show ?thesis using t 3 by (intro exI [of _ 1]) auto
      next
        case False
        then obtain k where k: "mn \<le> repeat + 1 + k" "repeat + 1 + k \<le> mx"
            "part n (off + t) (len - t) \<in> concats (replicate k L)"
          using t(3) by auto
        then have "part n off len \<in> concats (replicate (Suc k) L)" using t part_split [OF t(1)] by fastforce
        then show ?thesis using k by (intro exI [of _ "Suc k"]) simp
      qed
    next
      assume ?Q
      then obtain k where k: "mn \<le> repeat + k" "repeat + k \<le> mx" "part n off len \<in> concats (replicate k L)" by auto
      then obtain u v where uv: "part n off len = u @ v" "u \<in> L" "if v = [] then k = 1 else v \<in> concats (replicate (k - 1) L)"
        using power_step 3(1) less.prems(2) by (metis part_Nil_iff)
      note d = part_decomp [OF less.prems(2) uv(1)]
      have v: "v = [] \<longleftrightarrow> len - length u = 0"
        using d less.prems(2) by (metis part_Nil_iff add_le_imp_le_left le_add_diff_inverse add.assoc)
      have "?rest (length u)"
      proof (cases "v = []")
        case True
        then show ?thesis using uv(3) k v by simp
      next
        case False
        then have "mn \<le> repeat + 1 + (k - 1)" "repeat + 1 + (k - 1) \<le> mx" "v \<in> concats (replicate (k - 1) L)"
          using uv(3) k ne [OF 3(1) k(3)] by auto
        then show ?thesis using False v d by metis
      qed
      then show "\<exists>t\<le>len. part n off t \<in> L \<and> ?rest t" using d uv(2) by metis
    qed
    finally show ?thesis using 3 by simp
  qed
qed

lemma any_component_lang:
  assumes "name_size n < 2 ^ 31" and "off < name_size n" and "any_component rx n rs off st = Inr (b, st')"
  shows "b \<longleftrightarrow> (\<exists>r\<in>set rs. comp_ok rx r (comps n ! off))"
  using assms(3)
proof (induction rs arbitrary: st)
  case (Cons r rs)
  obtain b1 st1 where 1: "component_match rx n r off st = Inr (b1, st1)"
    using Cons.prems by (auto simp: bindE_Inr_iff)
  then have "b1 \<longleftrightarrow> comp_ok rx r (comps n ! off)"
    using assms(1,2)
    by (auto simp: component_match_def comp_ok_def name_get_of_nat bindE_Inr_iff split: if_splits option.splits)
  then show ?case using Cons 1 by (auto split: if_splits)
qed simp

lemma collect_ok:
  assumes "name_size n < 2 ^ 31" and "off + len \<le> name_size n" and "collect n off len (b, st) = Inr (r, st')"
  shows "r = (if b then Some (part n off len) else None)"
  using assms by (auto simp: collect_def get_range_part split: if_splits)

lemma run_okI:
  assumes "\<And>off len st r st'. off + len \<le> name_size n \<Longrightarrow> m off len st = Inr (r, st') \<Longrightarrow>
    r = (if part n off len \<in> L then Some (part n off len) else None)"
  shows "run_ok n m L"
  unfolding run_ok_def using assms by blast

lemma base_match_ok:
  assumes "name_size n < 2 ^ 31" and "list_all2 (run_ok n) ms Ls" and "off + len \<le> name_size n"
    and "bindE (recursiveMatch ms off len st) (collect n off len) = Inr (r, st')"
  shows "r = (if part n off len \<in> concats Ls then Some (part n off len) else None)"
proof -
  obtain b st1 where b: "recursiveMatch ms off len st = Inr (b, st1)" "collect n off len (b, st1) = Inr (r, st')"
    using assms(4) by (auto simp: bindE_Inr_iff)
  then show ?thesis
    using recursiveMatch_lang [OF assms(2,3) b(1)] collect_ok [OF assms(1,3) b(2)] by simp
qed

text \<open>Every run of the matcher decides the language.\<close>

lemma match_lang:
  assumes "name_size n < 2 ^ 31"
  shows "run_ok n (\<lambda>off len st. regex_match rx n m off len st) (lang rx m)"
proof (induction m)
  case (ComponentSet inc rs)
  show ?case
  proof (rule run_okI)
    fix off len st r st'
    assume off: "off + len \<le> name_size n" and "regex_match rx n (ComponentSet inc rs) off len st = Inr (r, st')"
    then have m: "componentset_match rx n inc rs off len st = Inr (r, st')" by simp
    show "r = (if part n off len \<in> lang rx (ComponentSet inc rs) then Some (part n off len) else None)"
    proof (cases "len = 1")
      case True
      then have p: "part n off len = [comps n ! off]" "off < name_size n"
        using off by (simp_all add: part_def name_size_def take_Suc_conv_app_nth Cons_nth_drop_Suc [symmetric])
      obtain b st1 where 1: "any_component rx n rs off st = Inr (b, st1)"
        using m True by (auto simp: componentset_match_def bindE_Inr_iff)
      then have "b \<longleftrightarrow> (\<exists>r\<in>set rs. comp_ok rx r (comps n ! off))"
        using assms p(2) any_component_lang by blast
      then show ?thesis
        using m 1 True p assms by (auto simp: componentset_match_def name_get_of_nat split: if_splits)
    next
      case False
      then have "part n off len \<notin> lang rx (ComponentSet inc rs)"
        using part_length [OF off] by auto
      then show ?thesis using m False by (simp add: componentset_match_def)
    qed
  qed
next
  case (PatternList ms)
  then have "list_all2 (run_ok n) (map (\<lambda>m off len st. regex_match rx n m off len st) ms) (map (lang rx) ms)"
    by (simp add: list_all2_conv_all_nth)
  from base_match_ok [OF assms this] show ?case by (intro run_okI) simp
next
  case (BackRef i m)
  then have "list_all2 (run_ok n) [\<lambda>off len st. regex_match rx n m off len st] [lang rx m]" by simp
  note ok = base_match_ok [OF assms this]
  show ?case
  proof (rule run_okI)
    fix off len st r st'
    assume "off + len \<le> name_size n" "regex_match rx n (BackRef i m) off len st = Inr (r, st')"
    then show "r = (if part n off len \<in> lang rx (BackRef i m) then Some (part n off len) else None)"
      using ok [of off len "st[i := []]"] by (fastforce simp: bindE_Inr_iff)
  qed
next
  case (Repeat mn mx m)
  show ?case
  proof (rule run_okI)
    fix off len st r st'
    assume off: "off + len \<le> name_size n" and m: "regex_match rx n (Repeat mn mx m) off len st = Inr (r, st')"
    show "r = (if part n off len \<in> lang rx (Repeat mn mx m) then Some (part n off len) else None)"
    proof (cases "mn = 0 \<and> len = 0")
      case True
      then show ?thesis using m by simp
    next
      case False
      then obtain b st1 where b:
          "repeat_recursiveMatch (\<lambda>off len st. regex_match rx n m off len st) mn mx 0 off len st = Inr (b, st1)"
          "collect n off len (b, st1) = Inr (r, st')"
        using m by (auto simp: bindE_Inr_iff)
      then show ?thesis
        using repeat_lang [OF Repeat off b(1)] collect_ok [OF assms off b(2)] part_Nil_iff [OF off] by auto
    qed
  qed
qed

section \<open>Matching returns\<close>

text \<open>
  A match can only fail with an exception in a component: a search that is not exact, or a
  recorded sub-match that is no URI.  Without sub-matches it always returns.
\<close>

fun plain :: "matcher \<Rightarrow> bool" where
  "plain (ComponentSet inc rs) \<longleftrightarrow> (\<forall>r\<in>set rs. rc_exact r \<and> rc_pseudo r = [])"
| "plain (PatternList ms) \<longleftrightarrow> (\<forall>m\<in>set ms. plain m)"
| "plain (BackRef i m) \<longleftrightarrow> plain m"
| "plain (Repeat mn mx m) \<longleftrightarrow> plain m"

definition returns :: "'a result \<Rightarrow> bool" where
  "returns x \<longleftrightarrow> (\<exists>y. x = Inr y)"

lemma returns_Inr [simp]: "returns (Inr y)"
  by (simp add: returns_def)

lemma returns_bind: "returns x \<Longrightarrow> (\<And>y. x = Inr y \<Longrightarrow> returns (f y)) \<Longrightarrow> returns (bindE x f)"
  by (auto simp: returns_def)

lemma tried_loop_returns:
  "(\<And>t st. t \<le> tried \<Longrightarrow> returns (body t st)) \<Longrightarrow> returns (tried_loop body tried st)"
  by (induction tried arbitrary: st) (auto intro!: returns_bind)

definition run_returns :: "name \<Rightarrow> run \<Rightarrow> bool" where
  "run_returns n m \<longleftrightarrow> (\<forall>off len st. off + len \<le> name_size n \<longrightarrow> returns (m off len st))"

lemma recursiveMatch_returns:
  "\<forall>m\<in>set ms. run_returns n m \<Longrightarrow> off + len \<le> name_size n \<Longrightarrow> returns (recursiveMatch ms off len st)"
proof (induction ms arbitrary: off len st)
  case (Cons m ms)
  then show ?case
    by (auto simp: run_returns_def intro!: tried_loop_returns returns_bind)
qed simp

lemma repeat_returns:
  "run_returns n m \<Longrightarrow> off + len \<le> name_size n \<Longrightarrow> returns (repeat_recursiveMatch m mn mx repeat off len st)"
proof (induction "mx - repeat" arbitrary: repeat off len st rule: less_induct)
  case less
  then show ?case
    by (subst repeat_recursiveMatch.simps) (auto simp: run_returns_def intro!: tried_loop_returns returns_bind)
qed

lemma collect_returns:
  "name_size n < 2 ^ 31 \<Longrightarrow> off + len \<le> name_size n \<Longrightarrow> returns (collect n off len x)"
  by (cases x) (simp add: collect_def get_range_part)

lemma any_component_returns:
  "name_size n < 2 ^ 31 \<Longrightarrow> off < name_size n \<Longrightarrow> \<forall>r\<in>set rs. rc_exact r \<and> rc_pseudo r = [] \<Longrightarrow>
    returns (any_component rx n rs off st)"
  by (induction rs arbitrary: st)
    (auto simp: component_match_def name_get_of_nat intro!: returns_bind split: option.splits)

lemma match_returns:
  assumes "name_size n < 2 ^ 31"
  shows "plain m \<Longrightarrow> run_returns n (\<lambda>off len st. regex_match rx n m off len st)"
proof (induction m)
  case (ComponentSet inc rs)
  then show ?case
    using assms any_component_returns [OF assms]
    by (auto simp: run_returns_def componentset_match_def name_get_of_nat intro!: returns_bind)
next
  case (PatternList ms)
  then have "\<forall>m\<in>set (map (\<lambda>m off len st. regex_match rx n m off len st) ms). run_returns n m" by simp
  from recursiveMatch_returns [OF this] show ?case
    unfolding run_returns_def by (auto intro!: returns_bind collect_returns [OF assms])
next
  case (BackRef i m)
  then have "\<forall>m\<in>set [\<lambda>off len st. regex_match rx n m off len st]. run_returns n m" by simp
  from recursiveMatch_returns [OF this] show ?case
    unfolding run_returns_def by (auto intro!: returns_bind collect_returns [OF assms] simp del: recursiveMatch.simps)
next
  case (Repeat mn mx m)
  then have "run_returns n (\<lambda>off len st. regex_match rx n m off len st)" by simp
  from repeat_returns [OF this] show ?case
    unfolding run_returns_def by (auto intro!: returns_bind collect_returns [OF assms])
qed

section \<open>Back references\<close>

fun backrefs :: "matcher \<Rightarrow> (nat \<times> matcher) list" where
  "backrefs (ComponentSet inc rs) = []"
| "backrefs (PatternList ms) = concat (map backrefs ms)"
| "backrefs (BackRef i m) = (i, m) # backrefs m"
| "backrefs (Repeat mn mx m) = backrefs m"

fun pseudos :: "matcher \<Rightarrow> nat list" where
  "pseudos (ComponentSet inc rs) = concat (map rc_pseudo rs)"
| "pseudos (PatternList ms) = concat (map pseudos ms)"
| "pseudos (BackRef i m) = pseudos m"
| "pseudos (Repeat mn mx m) = pseudos m"

text \<open>
  A condition \<open>J\<close> on the recorded results that holds for whatever a group or a sub-match may
  record is kept by every run.
\<close>

definition refs_inv :: "(nat \<Rightarrow> component list \<Rightarrow> bool) \<Rightarrow> refs \<Rightarrow> bool" where
  "refs_inv J st \<longleftrightarrow> (\<forall>i<length st. J i (st ! i))"

lemma refs_inv_upd: "refs_inv J st \<Longrightarrow> J i x \<Longrightarrow> refs_inv J (st[i := x])"
  unfolding refs_inv_def by (metis length_list_update nth_list_update_eq nth_list_update_neq)

definition run_keeps :: "name \<Rightarrow> (nat \<Rightarrow> component list \<Rightarrow> bool) \<Rightarrow> run \<Rightarrow> bool" where
  "run_keeps n J m \<longleftrightarrow> (\<forall>off len st r st'. off + len \<le> name_size n \<and> m off len st = Inr (r, st') \<and> refs_inv J st \<longrightarrow>
     refs_inv J st' \<and> length st' = length st)"

lemma tried_loop_keeps:
  assumes "tried_loop body tried st = Inr (b, st')" and "refs_inv J st"
    and "\<And>t st b st'. t \<le> tried \<Longrightarrow> body t st = Inr (b, st') \<Longrightarrow> refs_inv J st \<Longrightarrow> refs_inv J st' \<and> length st' = length st"
  shows "refs_inv J st' \<and> length st' = length st"
  using assms
proof (induction tried arbitrary: st)
  case 0
  then show ?case using 0(3) [of 0 st b st'] by simp
next
  case (Suc tried)
  obtain b1 st1 where 1: "body (Suc tried) st = Inr (b1, st1)" using Suc.prems(1) by (auto simp: bindE_Inr_iff)
  have k: "refs_inv J st1 \<and> length st1 = length st" using Suc.prems(3) [OF le_refl 1 Suc.prems(2)] .
  show ?case
  proof (cases b1)
    case True
    then show ?thesis using Suc.prems(1) 1 k by simp
  next
    case False
    then have "tried_loop body tried st1 = Inr (b, st')" using Suc.prems(1) 1 by simp
    then have "refs_inv J st' \<and> length st' = length st1"
      by (rule Suc.IH) (use k in blast, rule Suc.prems(3), simp_all)
    then show ?thesis using k by simp
  qed
qed

text \<open>One attempt: a run, and then a continuation when it succeeded.\<close>

lemma attempt_keeps:
  assumes "run_keeps n J m" and "off + t \<le> name_size n" and "refs_inv J st"
    and "bindE (m off t st) (\<lambda>(r, st). if r \<noteq> None then k st else Inr (False, st)) = Inr (b, st')"
    and "\<And>st st'. k st = Inr (b, st') \<Longrightarrow> refs_inv J st \<Longrightarrow> refs_inv J st' \<and> length st' = length st"
  shows "refs_inv J st' \<and> length st' = length st"
proof -
  obtain r st1 where 1: "m off t st = Inr (r, st1)" "(if r \<noteq> None then k st1 else Inr (False, st1)) = Inr (b, st')"
    using assms(4) by (auto simp: bindE_Inr_iff)
  then have "refs_inv J st1 \<and> length st1 = length st" using assms(1,2,3) unfolding run_keeps_def by blast
  then show ?thesis using 1(2) assms(5) by (metis Inr_inject prod.inject)
qed

lemma recursiveMatch_keeps:
  "\<forall>m\<in>set ms. run_keeps n J m \<Longrightarrow> off + len \<le> name_size n \<Longrightarrow> refs_inv J st \<Longrightarrow>
    recursiveMatch ms off len st = Inr (b, st') \<Longrightarrow> refs_inv J st' \<and> length st' = length st"
proof (induction ms arbitrary: off len st b st')
  case (Cons m ms)
  show ?case
    using Cons.prems(4) unfolding recursiveMatch.simps
  proof (rule tried_loop_keeps [OF _ Cons.prems(3)])
    fix t st b st'
    assume t: "t \<le> len" and a: "bindE (m off t st) (\<lambda>(r, st). if r \<noteq> None then recursiveMatch ms (off + t) (len - t) st else Inr (False, st)) = Inr (b, st')"
      and st: "refs_inv J st"
    have m: "run_keeps n J m" and o: "off + t \<le> name_size n" "off + t + (len - t) \<le> name_size n"
      using Cons.prems(1,2) t by auto
    show "refs_inv J st' \<and> length st' = length st"
      using Cons.prems(1) Cons.IH [OF _ o(2)] by (intro attempt_keeps [OF m o(1) st a]) auto
  qed
qed simp

lemma repeat_keeps:
  "run_keeps n J m \<Longrightarrow> off + len \<le> name_size n \<Longrightarrow> refs_inv J st \<Longrightarrow>
    repeat_recursiveMatch m mn mx repeat off len st = Inr (b, st') \<Longrightarrow> refs_inv J st' \<and> length st' = length st"
proof (induction "mx - repeat" arbitrary: repeat off len st b st' rule: less_induct)
  case less
  note step = less.prems(4) [unfolded repeat_recursiveMatch.simps [of m mn mx repeat]]
  show ?case
  proof (cases "len \<noteq> 0 \<and> repeat < mx")
    case True
    then have "tried_loop (\<lambda>tried st. bindE (m off tried st) (\<lambda>(r, st). if r \<noteq> None
          then repeat_recursiveMatch m mn mx (repeat + 1) (off + tried) (len - tried) st
          else Inr (False, st))) len st = Inr (b, st')"
      using step by simp
    then show ?thesis
    proof (rule tried_loop_keeps [OF _ less.prems(3)])
      fix t st b st'
      assume t: "t \<le> len" and a: "bindE (m off t st) (\<lambda>(r, st). if r \<noteq> None
          then repeat_recursiveMatch m mn mx (repeat + 1) (off + t) (len - t) st else Inr (False, st)) = Inr (b, st')"
        and st: "refs_inv J st"
      have o: "off + t \<le> name_size n" "off + t + (len - t) \<le> name_size n" "mx - (repeat + 1) < mx - repeat"
        using less.prems(2) t True by auto
      show "refs_inv J st' \<and> length st' = length st"
        using less.hyps [OF o(3) less.prems(1) o(2)] by (intro attempt_keeps [OF less.prems(1) o(1) st a]) auto
    qed
  next
    case False
    then show ?thesis using step less.prems(3) by (auto split: if_splits)
  qed
qed

lemma set_pseudo_keeps:
  "\<forall>p\<in>set ps. \<forall>c. J p [c] \<Longrightarrow> refs_inv J st \<Longrightarrow> set_pseudo ps i sub st = Inr st' \<Longrightarrow>
    refs_inv J st' \<and> length st' = length st"
proof (induction ps arbitrary: i st)
  case (Cons p ps)
  then obtain c where "set_pseudo ps (Suc i) sub (st[p := [c]]) = Inr st'" by (auto simp: bindE_Inr_iff)
  then show ?case using Cons.IH [of "st[p := [c]]"] Cons.prems refs_inv_upd [of J st p "[c]"] by simp
qed simp

lemma any_component_keeps:
  "\<forall>r\<in>set rs. \<forall>p\<in>set (rc_pseudo r). \<forall>c. J p [c] \<Longrightarrow> refs_inv J st \<Longrightarrow>
    any_component rx n rs off st = Inr (b, st') \<Longrightarrow> refs_inv J st' \<and> length st' = length st"
proof (induction rs arbitrary: st)
  case (Cons r rs)
  obtain b1 st1 where 1: "component_match rx n r off st = Inr (b1, st1)" using Cons.prems(3) by (auto simp: bindE_Inr_iff)
  then have k: "refs_inv J st1 \<and> length st1 = length st"
    using Cons.prems(1,2) set_pseudo_keeps [of "rc_pseudo r" J st]
    by (auto simp: component_match_def bindE_Inr_iff split: if_splits option.splits)
  show ?case
  proof (cases b1)
    case False
    then have "refs_inv J st' \<and> length st' = length st1" using 1 Cons.prems k by (intro Cons.IH) auto
    then show ?thesis using k by simp
  qed (use 1 k Cons.prems(3) in auto)
qed simp

lemma collect_state: "collect n off len (b, st) = Inr (r, st') \<Longrightarrow> st' = st"
  by (auto simp: collect_def bindE_Inr_iff split: if_splits)

lemma match_keeps:
  assumes "name_size n < 2 ^ 31"
    and "\<forall>(i, g)\<in>set (backrefs m). J i [] \<and> (\<forall>off len. off + len \<le> name_size n \<longrightarrow> part n off len \<in> lang rx g \<longrightarrow> J i (part n off len))"
    and "\<forall>p\<in>set (pseudos m). \<forall>c. J p [c]"
  shows "run_keeps n J (\<lambda>off len st. regex_match rx n m off len st)"
  using assms(2,3)
proof (induction m)
  case (ComponentSet inc rs)
  have rs: "\<forall>r\<in>set rs. \<forall>p\<in>set (rc_pseudo r). \<forall>c. J p [c]" using ComponentSet.prems by auto
  show ?case unfolding run_keeps_def
  proof (intro allI impI, elim conjE)
    fix off len st r st'
    assume a: "regex_match rx n (ComponentSet inc rs) off len st = Inr (r, st')" and st: "refs_inv J st"
    show "refs_inv J st' \<and> length st' = length st"
    proof (cases "len = 1")
      case True
      then obtain b where "any_component rx n rs off st = Inr (b, st')"
        using a by (auto simp: componentset_match_def bindE_Inr_iff split: if_splits)
      then show ?thesis using any_component_keeps [OF rs st] by blast
    qed (use a st in \<open>auto simp: componentset_match_def\<close>)
  qed
next
  case (PatternList ms)
  then have "\<forall>r\<in>set (map (\<lambda>m off len st. regex_match rx n m off len st) ms). run_keeps n J r" by fastforce
  from recursiveMatch_keeps [OF this] show ?case
    unfolding run_keeps_def by (fastforce simp: bindE_Inr_iff dest: collect_state)
next
  case (Repeat mn mx m)
  then have "run_keeps n J (\<lambda>off len st. regex_match rx n m off len st)" by simp
  from repeat_keeps [OF this] show ?case
    unfolding run_keeps_def by (fastforce simp: bindE_Inr_iff dest: collect_state split: if_splits)
next
  case (BackRef i m)
  then have "\<forall>r\<in>set [\<lambda>off len st. regex_match rx n m off len st]. run_keeps n J r" by simp
  note keeps = recursiveMatch_keeps [OF this]
  show ?case unfolding run_keeps_def
  proof (intro allI impI, elim conjE)
    fix off len st r st'
    assume o: "off + len \<le> name_size n" and a: "regex_match rx n (BackRef i m) off len st = Inr (r, st')"
      and st: "refs_inv J st"
    obtain b st1 where b: "recursiveMatch [\<lambda>off len st. regex_match rx n m off len st] off len (st[i := []]) = Inr (b, st1)"
        "collect n off len (b, st1) = Inr (r, st1)" "st' = (case r of None \<Rightarrow> st1 | Some cs \<Rightarrow> st1[i := cs])"
      using a by (auto simp: bindE_Inr_iff simp del: recursiveMatch.simps dest: collect_state)
    have "refs_inv J (st[i := []])" using st BackRef.prems(1) by (intro refs_inv_upd) auto
    from keeps [OF o this b(1)] have k: "refs_inv J st1" "length st1 = length st" by auto
    have "run_ok n (\<lambda>off len st. regex_match rx n m off len st) (lang rx m)" by (rule match_lang [OF assms(1)])
    then have "list_all2 (run_ok n) [\<lambda>off len st. regex_match rx n m off len st] [lang rx m]" by simp
    from recursiveMatch_lang [OF this o b(1)] collect_ok [OF assms(1) o b(2)]
    have r: "r = (if part n off len \<in> lang rx m then Some (part n off len) else None)" by simp
    show "refs_inv J st' \<and> length st' = length st"
      using b(3) r k o BackRef.prems(1) refs_inv_upd [OF k(1), of i "part n off len"] by auto
  qed
qed

end
