(* ===== verification/Regex_Search.thy ===== *)
theory Regex_Search
  imports Name_Regex
begin

text \<open>
  What compiling and matching a whole expression gives: how back references are numbered, that
  an expression without anchors searches for a contiguous part of the name, and that the
  expression made from a name matches exactly that name.
\<close>

section \<open>Numbering of back references\<close>

definition owned :: "matcher \<Rightarrow> nat list" where
  "owned m = map fst (backrefs m) @ pseudos m"

text \<open>A matcher whose references have exactly the numbers from \<open>a\<close> up to \<open>b\<close>.\<close>

definition numbered :: "matcher \<Rightarrow> nat \<Rightarrow> nat \<Rightarrow> bool" where
  "numbered m a b \<longleftrightarrow> a \<le> b \<and> distinct (owned m) \<and> set (owned m) = {a..<b}"

lemma numbered_Nil [simp]: "numbered (PatternList []) a a"
  by (simp add: numbered_def owned_def)

lemma distinct_interleave:
  "distinct (xs @ ps) \<Longrightarrow> distinct (ys @ qs) \<Longrightarrow> set (xs @ ps) \<inter> set (ys @ qs) = {} \<Longrightarrow> distinct ((xs @ ys) @ ps @ qs)"
  by auto

lemma numbered_Cons:
  assumes "numbered m a b" and "numbered (PatternList ms) b c"
  shows "numbered (PatternList (m # ms)) a c"
proof -
  have s: "set (owned (PatternList (m # ms))) = set (owned m) \<union> set (owned (PatternList ms))"
    by (auto simp: owned_def)
  have "set (owned m) \<inter> set (owned (PatternList ms)) = {}" using assms by (auto simp: numbered_def)
  then have "distinct (owned (PatternList (m # ms)))"
    using assms distinct_interleave [of "map fst (backrefs m)" "pseudos m" "map fst (backrefs (PatternList ms))" "pseudos (PatternList ms)"]
    by (simp only: numbered_def owned_def backrefs.simps pseudos.simps list.map concat.simps map_append)
  then show ?thesis using assms s by (auto simp: numbered_def)
qed

lemma numbered_Repeat [simp]: "numbered (Repeat mn mx m) a b \<longleftrightarrow> numbered m a b"
  by (simp add: numbered_def owned_def)

lemma numbered_BackRef: "numbered m (Suc a) b \<Longrightarrow> numbered (BackRef a m) a b"
  by (auto simp: numbered_def owned_def)

lemma component_compile_refs:
  assumes "component_compile rx e refs = Inr (c, refs')"
  shows "\<exists>k. refs' = refs @ replicate k [] \<and> rc_pseudo c = [length refs..<length refs']"
  using assms by (auto simp: component_compile_def Let_def split: if_splits)

lemma components_compile_refs:
  "compileMultipleComponents rx e i j refs = Inr (cs, refs') \<Longrightarrow>
    \<exists>k. refs' = refs @ replicate k [] \<and> concat (map rc_pseudo cs) = [length refs..<length refs']"
proof (induction rx e i j refs arbitrary: cs rule: compileMultipleComponents.induct)
  case (1 rx e i j refs)
  show ?case
  proof (cases "i < j")
    case True
    then obtain nxt c refs1 cs1 where c: "char_at e i = CHR ''<''" "extractComponent e (i + 1) = Inr nxt"
        "component_compile rx (substr e (i + 1) (nxt - (i + 1) - 1)) refs = Inr (c, refs1)"
        "compileMultipleComponents rx e nxt j refs1 = Inr (cs1, refs')" "cs = c # cs1"
      using 1(2) by (subst (asm) compileMultipleComponents.simps) (auto simp: bindE_Inr_iff split: if_splits)
    obtain k1 where k1: "refs1 = refs @ replicate k1 []" "rc_pseudo c = [length refs..<length refs1]"
      using component_compile_refs [OF c(3)] by blast
    obtain k2 where k2: "refs' = refs1 @ replicate k2 []" "concat (map rc_pseudo cs1) = [length refs1..<length refs']"
      using 1(1) [OF True _ c(2,3) refl c(4)] c(1) by auto
    have "refs' = refs @ replicate (k1 + k2) []" using k1 k2 by (simp add: replicate_add)
    moreover have "concat (map rc_pseudo cs) = [length refs..<length refs']"
      using k1 k2 c(5) upt_add_eq_append [of "length refs" "length refs1" k2] by (simp add: add.assoc)
    ultimately show ?thesis by blast
  next
    case False
    then show ?thesis
      using 1(2) by (subst (asm) compileMultipleComponents.simps) (auto split: if_splits intro: exI [of _ 0])
  qed
qed

lemma componentset_compile_refs:
  assumes "componentset_compile rx e refs = Inr (m, refs')"
  shows "(\<exists>k. refs' = refs @ replicate k []) \<and> numbered m (length refs) (length refs')"
proof -
  have *: "\<exists>inc cs k. m = ComponentSet inc cs \<and> refs' = refs @ replicate k [] \<and> concat (map rc_pseudo cs) = [length refs..<length refs']"
    using assms
    by (fastforce simp: componentset_compile_def compileSingleComponent_def bindE_Inr_iff split: if_splits
        dest: component_compile_refs components_compile_refs)
  then show ?thesis by (auto simp: numbered_def owned_def)
qed

lemma patternlist_compile_refs:
  "patternlist_compile rx e i refs = Inr (ms, refs') \<Longrightarrow>
    (\<exists>k. refs' = refs @ replicate k []) \<and> numbered (PatternList ms) (length refs) (length refs')"
proof (induction rx e i refs arbitrary: ms refs' rule: patternlist_compile.induct)
  case (1 rx e i refs)
  note step = 1(4) [unfolded patternlist_compile.simps [of rx e i]]
  consider "\<not> i < length e" | "i < length e" "e ! i = CHR ''(''" | "i < length e" "e ! i \<in> {CHR ''<'', CHR ''[''}"
    using step by (auto split: if_splits)
  then show ?case
  proof cases
    case 1
    then show ?thesis using step by (auto intro: exI [of _ 0])
  next
    case 2
    then obtain ind stop inner ms1 refs1 m ms2 where c: "extractSubPattern e CHR ''('' CHR '')'' (i + 1) = Inr ind"
        "extractRepetition e ind = Inr stop"
        "backref_inner (substr (substr e i (stop - i)) 0 (ind - i)) = Inr inner"
        "patternlist_compile rx inner 0 (snd (pushRef refs)) = Inr (ms1, refs1)"
        "(if ind = stop then Inr (BackRef (fst (pushRef refs)) (PatternList ms1))
           else bindE (parseRepetition (substr e i (stop - i)) (ind - i))
             (\<lambda>(mn, mx). Inr (Repeat mn mx (BackRef (fst (pushRef refs)) (PatternList ms1))))) = Inr m"
        "patternlist_compile rx e stop refs1 = Inr (ms2, refs')" "ms = m # ms2"
      using step by (auto simp: bindE_Inr_iff)
    have inner: "(\<exists>k. refs1 = snd (pushRef refs) @ replicate k []) \<and>
        numbered (PatternList ms1) (length (snd (pushRef refs))) (length refs1)"
      by (rule "1.IH"(1) [OF 2 c(1-4)])
    then have "numbered (BackRef (length refs) (PatternList ms1)) (length refs) (length refs1)"
      by (intro numbered_BackRef) (simp add: pushRef_def)
    then have m: "numbered m (length refs) (length refs1)"
      using c(5) by (auto simp: pushRef_def bindE_Inr_iff split: if_splits)
    have rest: "(\<exists>k. refs' = refs1 @ replicate k []) \<and> numbered (PatternList ms2) (length refs1) (length refs')"
      by (rule "1.IH"(2) [OF 2 c(1-4) refl c(5,6)])
    obtain k1 where "refs1 = refs @ [[]] @ replicate k1 []" using inner by (auto simp: pushRef_def)
    moreover obtain k2 where "refs' = refs1 @ replicate k2 []" using rest by auto
    ultimately have "refs' = refs @ replicate (Suc k1 + k2) []" by (simp add: replicate_add)
    then show ?thesis using numbered_Cons [OF m] rest c(7) by blast
  next
    case 3
    then obtain ind stop m refs1 mn mx ms2 where c:
        "extractSubPattern e (e ! i) (if e ! i = CHR ''<'' then CHR ''>'' else CHR '']'') (i + 1) = Inr ind"
        "extractRepetition e ind = Inr stop"
        "componentset_compile rx (substr (substr e i (stop - i)) 0 (ind - i)) refs = Inr (m, refs1)"
        "parseRepetition (substr e i (stop - i)) (ind - i) = Inr (mn, mx)"
        "patternlist_compile rx e stop refs1 = Inr (ms2, refs')" "ms = Repeat mn mx m # ms2"
      using step by (auto simp: bindE_Inr_iff)
    have ne: "e ! i \<noteq> CHR ''(''" using 3 by auto
    have rest: "(\<exists>k. refs' = refs1 @ replicate k []) \<and> numbered (PatternList ms2) (length refs1) (length refs')"
      by (rule "1.IH"(3) [OF 3(1) ne 3(2) c(1-3) refl c(4) refl c(5)])
    have m: "(\<exists>k. refs1 = refs @ replicate k []) \<and> numbered m (length refs) (length refs1)"
      by (rule componentset_compile_refs [OF c(3)])
    then have "\<exists>k. refs' = refs @ replicate k []" using rest by (metis append_assoc replicate_add)
    then show ?thesis using numbered_Cons [of "Repeat mn mx m"] m rest c(6) by auto
  qed
qed

section \<open>Compiling a concatenation\<close>

text \<open>
  An expression compiles to the same matchers inside a longer expression, when what follows does
  not begin with a repetition.
\<close>

lemma sub_pattern_context:
  "sub_pattern_loop e l r a b i = Inr j \<Longrightarrow> sub_pattern_loop (p @ e @ s) l r a b (length p + i) = Inr (length p + j)"
proof (induction e l r a b i rule: sub_pattern_loop.induct)
  case (1 e l r a b i)
  show ?case
  proof (cases "b < a")
    case True
    then have i: "i < length e" using 1(2) by (subst (asm) sub_pattern_loop.simps) (auto split: if_splits)
    then have "sub_pattern_loop e l r (if l = e ! i then a + 1 else a) (if r = e ! i then b + 1 else b) (i + 1) = Inr j"
      using 1(2) True by (subst (asm) sub_pattern_loop.simps) simp
    from 1(1) [OF True _ this] i show ?thesis
      using True by (subst sub_pattern_loop.simps) (simp add: nth_append)
  next
    case False
    then show ?thesis using 1(2) by (subst sub_pattern_loop.simps) (subst (asm) sub_pattern_loop.simps, simp)
  qed
qed

lemma brace_context:
  "brace_loop e i < length e \<Longrightarrow> brace_loop (p @ e @ s) (length p + i) = length p + brace_loop e i"
proof (induction e i rule: brace_loop.induct)
  case (1 e i)
  have i: "i < length e" using 1(2) brace_loop_grows [of i e] by linarith
  show ?case
  proof (cases "e ! i = CHR ''}''")
    case True
    then show ?thesis using i by (subst (1 2) brace_loop.simps) (simp add: nth_append)
  next
    case False
    then have "brace_loop e i = brace_loop e (i + 1)" using i by (subst brace_loop.simps) simp
    then show ?thesis using 1 i False by (subst brace_loop.simps) (simp add: nth_append)
  qed
qed

lemma brace_le: "i \<le> length e \<Longrightarrow> brace_loop e i \<le> length e"
  by (induction e i rule: brace_loop.induct) (subst brace_loop.simps, auto)

definition no_repetition :: "string \<Rightarrow> bool" where
  "no_repetition s \<longleftrightarrow> s = [] \<or> hd s \<notin> {CHR ''+'', CHR ''?'', CHR ''*'', CHR ''{''}"

lemma extractRepetition_context:
  assumes "extractRepetition e i = Inr j" and "i \<le> length e" and "no_repetition s"
  shows "extractRepetition (p @ e @ s) (length p + i) = Inr (length p + j) \<and> j \<le> length e"
proof (cases "i = length e")
  case True
  then show ?thesis
    using assms by (cases s) (auto simp: extractRepetition_def no_repetition_def nth_append)
next
  case False
  then have i: "i < length e" using assms(2) by simp
  then show ?thesis
    using assms(1) brace_context [of e i p s] brace_le [of i e]
    by (auto simp: extractRepetition_def nth_append split: if_splits)
qed

lemma substr_context:
  "j \<le> length e \<Longrightarrow> substr (p @ e @ s) (length p + i) (length p + j - (length p + i)) = substr e i (j - i)"
  by (simp add: substr_def)

lemma compile_context:
  "patternlist_compile rx e i refs = Inr (ms, refs') \<Longrightarrow> i \<le> length e \<Longrightarrow> no_repetition s \<Longrightarrow>
    patternlist_compile rx (p @ e @ s) (length p + i) refs =
      bindE (patternlist_compile rx (p @ e @ s) (length p + length e) refs') (\<lambda>(ms2, refs2). Inr (ms @ ms2, refs2))"
proof (induction rx e i refs arbitrary: ms refs' rule: patternlist_compile.induct)
  case (1 rx e i refs)
  let ?e = "p @ e @ s"
  note step = 1(4) [unfolded patternlist_compile.simps [of rx e i]]
  have ch: "i < length e \<Longrightarrow> ?e ! (length p + i) = e ! i" by (simp add: nth_append)
  have sub: "extractSubPattern ?e l r (length p + i + 1) = Inr (length p + ind) \<and> ind \<le> length e"
    if "extractSubPattern e l r (i + 1) = Inr ind" "i < length e" for l r ind
    using that sub_pattern_context [of e l r 1 0 "i + 1" ind p s] sub_pattern_grows [of e l r 1 0 "i + 1" ind]
    by (simp add: extractSubPattern_def)
  consider "i = length e" | "i < length e" "e ! i = CHR ''(''" | "i < length e" "e ! i \<in> {CHR ''<'', CHR ''[''}"
    using step 1(5) by (cases "i = length e") (auto split: if_splits)
  then show ?case
  proof cases
    case 1
    then have "ms = []" "refs' = refs" using step by auto
    then show ?thesis using 1 by (cases "patternlist_compile rx ?e (length p + length e) refs") (auto simp: split_beta)
  next
    case 2
    then obtain ind stop inner ms1 refs1 m ms2 where c: "extractSubPattern e CHR ''('' CHR '')'' (i + 1) = Inr ind"
        "extractRepetition e ind = Inr stop"
        "backref_inner (substr (substr e i (stop - i)) 0 (ind - i)) = Inr inner"
        "patternlist_compile rx inner 0 (snd (pushRef refs)) = Inr (ms1, refs1)"
        "(if ind = stop then Inr (BackRef (fst (pushRef refs)) (PatternList ms1))
           else bindE (parseRepetition (substr e i (stop - i)) (ind - i))
             (\<lambda>(mn, mx). Inr (Repeat mn mx (BackRef (fst (pushRef refs)) (PatternList ms1))))) = Inr m"
        "patternlist_compile rx e stop refs1 = Inr (ms2, refs')" "ms = m # ms2"
      using step by (auto simp: bindE_Inr_iff)
    note s1 = sub [OF c(1) 2(1)]
    note s2 = extractRepetition_context [OF c(2) conjunct2 [OF s1] 1(6), of p]
    note s3 = substr_context [OF conjunct2 [OF s2], of p s i]
    have "patternlist_compile rx ?e (length p + stop) refs1 =
        bindE (patternlist_compile rx ?e (length p + length e) refs') (\<lambda>(ms', refs2). Inr (ms2 @ ms', refs2))"
      by (rule "1.IH"(2) [OF 2 c(1-4) refl c(5,6)]) (use s2 1(6) in auto)
    moreover have "ind \<noteq> stop \<Longrightarrow> \<exists>mn mx. parseRepetition (substr e i (stop - i)) (ind - i) = Inr (mn, mx) \<and>
        m = Repeat mn mx (BackRef (fst (pushRef refs)) (PatternList ms1))"
      using c(5) by (auto simp: bindE_Inr_iff)
    ultimately show ?thesis
      using 2 ch s1 s2 s3 c
      by (cases "ind = stop"; subst patternlist_compile.simps) (auto simp: bindE_assoc case_prod_unfold)
  next
    case 3
    then obtain ind stop m refs1 mn mx ms2 where c:
        "extractSubPattern e (e ! i) (if e ! i = CHR ''<'' then CHR ''>'' else CHR '']'') (i + 1) = Inr ind"
        "extractRepetition e ind = Inr stop"
        "componentset_compile rx (substr (substr e i (stop - i)) 0 (ind - i)) refs = Inr (m, refs1)"
        "parseRepetition (substr e i (stop - i)) (ind - i) = Inr (mn, mx)"
        "patternlist_compile rx e stop refs1 = Inr (ms2, refs')" "ms = Repeat mn mx m # ms2"
      using step by (auto simp: bindE_Inr_iff)
    have ne: "e ! i \<noteq> CHR ''(''" using 3 by auto
    note s1 = sub [OF c(1) 3(1)]
    note s2 = extractRepetition_context [OF c(2) conjunct2 [OF s1] 1(6), of p]
    note s3 = substr_context [OF conjunct2 [OF s2], of p s i]
    have "patternlist_compile rx ?e (length p + stop) refs1 =
        bindE (patternlist_compile rx ?e (length p + length e) refs') (\<lambda>(ms', refs2). Inr (ms2 @ ms', refs2))"
      by (rule "1.IH"(3) [OF 3(1) ne 3(2) c(1-3) refl c(4) refl c(5)]) (use s2 1(6) in auto)
    then show ?thesis
      using 3 ne ch s1 s2 s3 c by (subst patternlist_compile.simps) (simp add: bindE_assoc case_prod_unfold)
  qed
qed

lemma compile_end [simp]: "patternlist_compile rx e (length e) refs = Inr ([], refs)"
  by (simp add: patternlist_compile.simps)

lemma compile_append:
  assumes "patternlist_compile rx e 0 refs = Inr (ms, refs1)" and "no_repetition s"
    and "patternlist_compile rx s 0 refs1 = Inr (ms2, refs2)"
  shows "patternlist_compile rx (e @ s) 0 refs = Inr (ms @ ms2, refs2)"
  using compile_context [OF assms(1) _ assms(2), of "[]"] compile_context [OF assms(3), of "[]" e]
    compile_end [of rx "e @ s" refs2]
  by (simp add: no_repetition_def)

section \<open>A single component\<close>

lemma component_loop_reads:
  "\<forall>c\<in>set e. c \<notin> {CHR ''<'', CHR ''>'', CHR 0x00} \<Longrightarrow>
    component_loop (p @ e @ CHR ''>'' # s) 1 0 (length p) = Inr (length p + length e + 1)"
proof (induction e arbitrary: p)
  case Nil
  show ?case by (subst component_loop.simps, subst component_loop.simps) (simp add: char_at_def nth_append)
next
  case (Cons c e)
  then show ?case
    using Cons.IH [of "p @ [c]"] by (subst component_loop.simps) (simp add: char_at_def nth_append)
qed

lemma sub_pattern_reads:
  "l \<notin> set e \<Longrightarrow> r \<notin> set e \<Longrightarrow> l \<noteq> r \<Longrightarrow>
    sub_pattern_loop (p @ e @ r # s) l r 1 0 (length p) = Inr (length p + length e + 1)"
proof (induction e arbitrary: p)
  case Nil
  then show ?case by (subst sub_pattern_loop.simps, subst sub_pattern_loop.simps) (simp add: nth_append)
next
  case (Cons c e)
  then show ?case
    using Cons.IH [of "p @ [c]"] by (subst sub_pattern_loop.simps) (auto simp: nth_append)
qed

text \<open>An expression that can stand between \<open><\<close> and \<open>>\<close> and has no sub-matches of its own.\<close>

definition simple_expr :: "boost_regex \<Rightarrow> string \<Rightarrow> bool" where
  "simple_expr rx e \<longleftrightarrow> (\<forall>c\<in>set e. c \<notin> {CHR ''<'', CHR ''>'', CHR 0x00}) \<and> rx_valid rx e \<and> rx_mark_count rx e \<le> 1"

lemma componentset_single:
  assumes "simple_expr rx e"
  shows "componentset_compile rx (''<'' @ e @ ''>'') refs = Inr (ComponentSet True [RegexComponent e True []], refs)"
  using assms component_loop_reads [of e "''<''" "[]"]
  by (simp add: componentset_compile_def compileSingleComponent_def extractComponent_def simple_expr_def
      component_compile_def char_at_def substr_def Let_def)

lemma compile_single:
  assumes "simple_expr rx e" and "rep = [] \<and> mn = 1 \<and> mx = 1 \<or> rep = ''*'' \<and> mn = 0 \<and> mx = INT_MAX"
  shows "patternlist_compile rx (''<'' @ e @ ''>'' @ rep) 0 refs =
    Inr ([Repeat mn mx (ComponentSet True [RegexComponent e True []])], refs)"
proof -
  let ?e = "''<'' @ e @ ''>'' @ rep"
  let ?ind = "length e + 2"
  have sub: "extractSubPattern ?e CHR ''<'' CHR ''>'' 1 = Inr ?ind"
    using assms(1) sub_pattern_reads [of "CHR ''<''" e "CHR ''>''" "''<''" rep]
    by (auto simp: extractSubPattern_def simple_expr_def)
  have rep: "extractRepetition ?e ?ind = Inr (length ?e)"
    using assms(2) by (auto simp: extractRepetition_def nth_append)
  have par: "parseRepetition ?e ?ind = Inr (mn, mx)"
    using assms(2) by (auto simp: parseRepetition_def nth_append)
  have sb: "substr ?e 0 (length ?e) = ?e" "substr ?e 0 ?ind = ''<'' @ e @ ''>''"
    by (simp_all add: substr_def)
  show ?thesis
    using sub rep par sb componentset_single [OF assms(1), of refs] compile_end [of rx ?e refs]
    by (subst patternlist_compile.simps) simp
qed

section \<open>Search\<close>

text \<open>What the code relies on of \<open>boost::regex\<close>: the expression \<open>.*\<close> matches every string.\<close>

definition any_regex :: "boost_regex \<Rightarrow> bool" where
  "any_regex rx \<longleftrightarrow> rx_valid rx ''.*'' \<and> rx_mark_count rx ''.*'' \<le> 1 \<and> (\<forall>t. rx_match rx ''.*'' t \<noteq> None)"

definition any_matcher :: matcher where
  "any_matcher = Repeat 0 INT_MAX (ComponentSet True [RegexComponent ''.*'' True []])"

lemma compile_any: "any_regex rx \<Longrightarrow> patternlist_compile rx ''<.*>*'' 0 refs = Inr ([any_matcher], refs)"
  using compile_single [of rx "''.*''" "''*''" 0 INT_MAX refs]
  by (simp add: any_regex_def any_matcher_def simple_expr_def)

lemma concats_append: "concats (Ls @ Ms) = {u @ v | u v. u \<in> concats Ls \<and> v \<in> concats Ms}"
proof (induction Ls)
  case (Cons L Ls)
  show ?case unfolding append_Cons concats.simps Cons by (auto, metis append.assoc, metis append.assoc)
qed auto

lemma any_lang: "any_regex rx \<Longrightarrow> length s \<le> INT_MAX \<Longrightarrow> s \<in> lang rx any_matcher"
proof -
  assume rx: "any_regex rx" and l: "length s \<le> INT_MAX"
  have "s \<in> concats (replicate (length s) (lang rx (ComponentSet True [RegexComponent ''.*'' True []])))"
  proof (induction s)
    case (Cons c s)
    then show ?case using rx by (simp add: comp_ok_def any_regex_def) (rule exI [of _ "[c]"], simp)
  qed simp
  then show ?thesis using l by (auto simp: any_matcher_def intro!: exI [of _ "length s"])
qed

lemma compile_first:
  "patternlist_compile rx e 0 refs = Inr (ms, refs') \<Longrightarrow> e = [] \<or> hd e \<in> {CHR ''('', CHR ''<'', CHR ''[''}"
  by (cases e) (auto simp: patternlist_compile.simps [of rx _ 0] split: if_splits)

text \<open>The expression of the primary and of the secondary matcher.\<close>

definition top_langs :: "boost_regex \<Rightarrow> regex_top \<Rightarrow> component list set" where
  "top_langs rx t = lang rx (m_primaryMatcher t) \<union> (case m_secondaryMatcher t of None \<Rightarrow> {} | Some m \<Rightarrow> lang rx m)"

lemma top_match_lang:
  assumes "name_size n < 2 ^ 31" and "top_match rx t n = Inr (b, t')"
  shows "(b \<longleftrightarrow> comps n \<in> top_langs rx t) \<and> (b \<longrightarrow> m_matchResult t' = comps n)"
proof -
  have whole: "part n 0 (name_size n) = comps n" by (simp add: part_def name_size_def)
  have run: "r = (if comps n \<in> lang rx m then Some (comps n) else None)"
    if "regex_match rx n m 0 (name_size n) st = Inr (r, st')" for m st r st'
    using match_lang [OF assms(1), of rx m] that unfolding run_ok_def whole [symmetric] by (metis add_0 le_refl)
  obtain r refs where 1: "regex_match rx n (m_primaryMatcher t) 0 (name_size n) (m_primaryRefs t) = Inr (r, refs)"
    using assms(2) by (auto simp: top_match_def bindE_Inr_iff Let_def)
  show ?thesis
  proof (cases r)
    case (Some cs)
    then show ?thesis using assms(2) 1 run [OF 1] by (auto simp: top_match_def top_langs_def Let_def split: if_splits)
  next
    case None
    show ?thesis
    proof (cases "m_secondaryMatcher t")
      case (Some m)
      obtain r2 refs2 where 2: "regex_match rx n m 0 (name_size n) (m_secondaryRefs t) = Inr (r2, refs2)"
        using assms(2) 1 None Some by (auto simp: top_match_def bindE_Inr_iff Let_def)
      then show ?thesis
        using assms(2) 1 None Some run [OF 1] run [OF 2]
        by (cases r2) (auto simp: top_match_def top_langs_def Let_def split: if_splits)
    qed (use assms(2) 1 None run [OF 1] in \<open>auto simp: top_match_def top_langs_def Let_def split: if_splits\<close>)
  qed
qed

lemma any_around:
  assumes "any_regex rx" and "length s \<le> INT_MAX"
  shows "s \<in> concats (map (lang rx) (ms @ [any_matcher])) \<longleftrightarrow> (\<exists>v w. s = v @ w \<and> v \<in> lang rx (PatternList ms))"
    and "s \<in> concats (map (lang rx) ([any_matcher] @ ms)) \<longleftrightarrow> (\<exists>u v. s = u @ v \<and> v \<in> lang rx (PatternList ms))"
proof -
  have one: "concats [L] = L" for L :: "component list set" by auto
  have any: "w \<in> lang rx any_matcher" if "s = v @ w \<or> s = w @ v" for v w
    using that assms by (intro any_lang) auto
  show "s \<in> concats (map (lang rx) (ms @ [any_matcher])) \<longleftrightarrow> (\<exists>v w. s = v @ w \<and> v \<in> lang rx (PatternList ms))"
    unfolding map_append concats_append list.map one lang.simps using any by blast
  show "s \<in> concats (map (lang rx) ([any_matcher] @ ms)) \<longleftrightarrow> (\<exists>u v. s = u @ v \<and> v \<in> lang rx (PatternList ms))"
    unfolding map_append concats_append list.map one lang.simps using any by blast
qed

text \<open>The matchers of an expression with and without the two anchors.\<close>

lemma top_compile_body:
  assumes "any_regex rx" and "patternlist_compile rx body 0 [] = Inr (ms, refs)"
    and "expr = (if a then ''^'' else []) @ body @ (if z then ''$'' else [])" and "expr \<noteq> []"
    and "body \<noteq> [] \<longrightarrow> last body \<noteq> CHR ''$''"
  shows "\<exists>t. top_compile rx expr ex = Inr t \<and>
    m_primaryMatcher t = PatternList (ms @ (if z then [] else [any_matcher])) \<and>
    m_secondaryMatcher t = (if a then None else Some (PatternList ([any_matcher] @ ms @ (if z then [] else [any_matcher])))) \<and>
    m_primaryRefs t = refs \<and> m_secondaryRefs t = (if a then [] else refs)"
proof -
  define tail where "tail = (if z then [] else ''<.*>*'')"
  define head where "head = (if a then ''^'' else [])"
  let ?ms = "ms @ (if z then [] else [any_matcher])"
  have e1: "(if last expr \<noteq> CHR ''$'' then expr @ ''<.*>*'' else substr expr 0 (length expr - 1)) = head @ body @ tail"
    using assms(3-5) by (cases z; cases a) (auto simp: tail_def head_def substr_def last_append split: if_splits)
  have "no_repetition tail" by (simp add: tail_def no_repetition_def)
  moreover have "patternlist_compile rx tail 0 refs = Inr (if z then [] else [any_matcher], refs)"
    using compile_any [OF assms(1)] compile_end [of rx "[]" refs] by (simp add: tail_def)
  ultimately have prim: "patternlist_compile rx (body @ tail) 0 [] = Inr (?ms, refs)"
    using compile_append [OF assms(2)] by blast
  have first: "body @ tail = [] \<or> hd (body @ tail) \<in> {CHR ''('', CHR ''<'', CHR ''[''}"
    using compile_first [OF prim] .
  then have nr: "no_repetition (body @ tail)" by (auto simp: no_repetition_def)
  have sec: "patternlist_compile rx (''<.*>*'' @ body @ tail) 0 [] = Inr ([any_matcher] @ ?ms, refs)"
    using compile_append [OF compile_any [OF assms(1), of "[]"] nr prim] .
  have ch: "char_at (head @ body @ tail) 0 = CHR ''^'' \<longleftrightarrow> a"
    using first by (cases "body @ tail") (auto simp: head_def char_at_def)
  have sb: "a \<Longrightarrow> substr (head @ body @ tail) 1 (length (head @ body @ tail) - 1) = body @ tail"
    by (simp add: head_def substr_def)
  show ?thesis
  proof (cases a)
    case True
    then show ?thesis
      using assms(4) e1 ch sb prim by (simp add: top_compile_def pattern_list_def Let_def)
  next
    case False
    then have "head = []" by (simp add: head_def)
    then show ?thesis
      using False assms(4) e1 ch prim sec by (simp add: top_compile_def pattern_list_def Let_def)
  qed
qed

text \<open>Property C7.  A compiled expression decides its language: a match that returns gives
  \<open>true\<close> exactly for the parts of the name in the language of the matcher, with the matched
  components as its result, and without component sub-matches it always returns.\<close>

theorem regex_decides:
  assumes "name_size n < 2 ^ 31" and "off + len \<le> name_size n"
  shows "(\<forall>r st'. regex_match rx n m off len st = Inr (r, st') \<longrightarrow>
      r = (if part n off len \<in> lang rx m then Some (part n off len) else None)) \<and>
    (plain m \<longrightarrow> (\<exists>r st'. regex_match rx n m off len st = Inr (r, st')))"
  using match_lang [OF assms(1), of rx m] match_returns [OF assms(1), of m rx] assms(2)
  by (fastforce simp: run_ok_def run_returns_def returns_def)

theorem regex_decides_witness:
  "\<forall>st. \<exists>st'. regex_match \<lparr> rx_valid = (\<lambda>_. True), rx_mark_count = (\<lambda>_. 0), rx_match = (\<lambda>p t. if p = t then Some [t] else None) \<rparr>
      (Name [Component [97], Component [98]]) (Repeat 0 5 (ComponentSet True [RegexComponent ''a'' True []])) 0 1 st =
    Inr (Some [Component [97]], st')"
proof
  fix st
  let ?rx = "\<lparr> rx_valid = (\<lambda>_. True), rx_mark_count = (\<lambda>_. 0), rx_match = (\<lambda>p t. if p = t then Some [t] else None) \<rparr>"
  let ?m = "Repeat 0 5 (ComponentSet True [RegexComponent ''a'' True []])"
  have uri: "component_toUri (Component [97]) = ''a''"
    by (simp add: component_toUri_def escape_byte_def must_escape_iff char_of_byte_def char_of_def bit_0)
  have "[Component [97]] \<in> lang ?rx ?m"
    using uri
    by (simp add: comp_ok_def) (rule exI [of _ 1], simp add: comp_ok_def, rule exI [of _ "Component [97]"], simp)
  then show "\<exists>st'. regex_match ?rx (Name [Component [97], Component [98]]) ?m 0 1 st = Inr (Some [Component [97]], st')"
    using regex_decides [of "Name [Component [97], Component [98]]" 0 1 ?rx ?m st]
    by (auto simp: name_size_def part_def)
qed

text \<open>A concrete \<open>boost::regex\<close> that knows \<open>.*\<close> and escaped literals.\<close>

definition literal_rx :: boost_regex where
  "literal_rx = \<lparr> rx_valid = (\<lambda>_. True), rx_mark_count = (\<lambda>_. 0),
     rx_match = (\<lambda>p t. if p = ''.*'' \<or> p = convertSpecialChar t then Some [t] else None) \<rparr>"

lemma any_literal_rx: "any_regex literal_rx"
  by (simp add: any_regex_def literal_rx_def)

lemma top_match_returns:
  assumes "name_size n < 2 ^ 31" and "plain (m_primaryMatcher t)" and "\<forall>m. m_secondaryMatcher t = Some m \<longrightarrow> plain m"
  shows "\<exists>b t'. top_match rx t n = Inr (b, t')"
proof -
  have run: "\<exists>r st'. regex_match rx n m 0 (name_size n) st = Inr (r, st')" if "plain m" for m st
    using match_returns [OF assms(1) that, of rx] by (fastforce simp: run_returns_def returns_def)
  obtain r st where 1: "regex_match rx n (m_primaryMatcher t) 0 (name_size n) (m_primaryRefs t) = Inr (r, st)"
    using run [OF assms(2)] by blast
  show ?thesis
  proof (cases "r = None \<and> m_secondaryMatcher t \<noteq> None")
    case True
    then obtain m where m: "m_secondaryMatcher t = Some m" by auto
    obtain r2 st2 where "regex_match rx n m 0 (name_size n) (m_secondaryRefs t) = Inr (r2, st2)"
      using run assms(3) m by blast
    then show ?thesis using 1 True m by (cases r2) (auto simp: top_match_def Let_def)
  next
    case False
    then show ?thesis
      using 1 by (cases r; cases "m_secondaryMatcher t") (auto simp: top_match_def Let_def)
  qed
qed

lemma plain_any [simp]: "plain any_matcher"
  by (simp add: any_matcher_def)

text \<open>Property C33.  Search: an expression matches a name exactly when some contiguous part of the
  name is in the language of its body, where \<open>^\<close> forces the part to begin the name and \<open>$\<close> forces
  it to end it; the result of a match is the whole name, and without component sub-matches the
  match returns.\<close>

theorem regex_search:
  assumes "any_regex rx" and "patternlist_compile rx body 0 [] = Inr (ms, refs)"
    and "expr = (if a then ''^'' else []) @ body @ (if z then ''$'' else [])" and "expr \<noteq> []"
    and "body \<noteq> [] \<longrightarrow> last body \<noteq> CHR ''$''" and "name_size n < 2 ^ 31"
  shows "\<exists>t. top_compile rx expr ex = Inr t \<and>
    (\<forall>b t'. top_match rx t n = Inr (b, t') \<longrightarrow>
      (b \<longleftrightarrow> (\<exists>u v w. comps n = u @ v @ w \<and> v \<in> lang rx (PatternList ms) \<and> (a \<longrightarrow> u = []) \<and> (z \<longrightarrow> w = []))) \<and>
      (b \<longrightarrow> m_matchResult t' = comps n)) \<and>
    (plain (PatternList ms) \<longrightarrow> (\<exists>b t'. top_match rx t n = Inr (b, t')))"
proof -
  let ?ms = "ms @ (if z then [] else [any_matcher])"
  obtain t where t: "top_compile rx expr ex = Inr t" "m_primaryMatcher t = PatternList ?ms"
      "m_secondaryMatcher t = (if a then None else Some (PatternList ([any_matcher] @ ?ms)))"
    using top_compile_body [OF assms(1-5)] by blast
  have len: "length (comps n) \<le> INT_MAX" using assms(6) by (simp add: name_size_def INT_MAX_def)
  have prim: "s \<in> lang rx (PatternList ?ms) \<longleftrightarrow> (\<exists>v w. s = v @ w \<and> v \<in> lang rx (PatternList ms) \<and> (z \<longrightarrow> w = []))"
    if "length s \<le> INT_MAX" for s
    using any_around(1) [OF assms(1) that, of ms] by (cases z) auto
  have sec: "comps n \<in> lang rx (PatternList ([any_matcher] @ ?ms)) \<longleftrightarrow>
      (\<exists>u v w. comps n = u @ v @ w \<and> v \<in> lang rx (PatternList ms) \<and> (z \<longrightarrow> w = []))"
  proof -
    have "comps n \<in> lang rx (PatternList ([any_matcher] @ ?ms)) \<longleftrightarrow> (\<exists>u s. comps n = u @ s \<and> s \<in> lang rx (PatternList ?ms))"
      using any_around(2) [OF assms(1) len, of ?ms] by (simp only: lang.simps(2))
    moreover have "s \<in> lang rx (PatternList ?ms) \<longleftrightarrow> (\<exists>v w. s = v @ w \<and> v \<in> lang rx (PatternList ms) \<and> (z \<longrightarrow> w = []))"
      if "comps n = u @ s" for u s
      using prim [of s] len that by simp
    ultimately show ?thesis by metis
  qed
  have "comps n \<in> top_langs rx t \<longleftrightarrow>
      (\<exists>u v w. comps n = u @ v @ w \<and> v \<in> lang rx (PatternList ms) \<and> (a \<longrightarrow> u = []) \<and> (z \<longrightarrow> w = []))"
  proof (cases a)
    case True
    then have "top_langs rx t = lang rx (PatternList ?ms)" using t by (simp add: top_langs_def)
    then show ?thesis using prim [OF len] True by auto
  next
    case False
    then have "top_langs rx t = lang rx (PatternList ?ms) \<union> lang rx (PatternList ([any_matcher] @ ?ms))"
      using t by (simp add: top_langs_def)
    then show ?thesis using prim [OF len] sec False by (metis Un_iff append_Nil)
  qed
  moreover have "\<exists>b t'. top_match rx t n = Inr (b, t')" if "plain (PatternList ms)"
    using that t by (intro top_match_returns [OF assms(6)]) auto
  ultimately show ?thesis
    using top_match_lang [OF assms(6)] t(1) by (metis (no_types, lifting))
qed

theorem regex_search_witness:
  "\<exists>t b t'. top_compile literal_rx ''<a>'' [] = Inr t \<and>
    top_match literal_rx t (Name [Component [98], Component [97]]) = Inr (b, t') \<and>
    (b \<longleftrightarrow> (\<exists>u v w. [Component [98], Component [97]] = u @ v @ w \<and>
       v \<in> lang literal_rx (PatternList [Repeat 1 1 (ComponentSet True [RegexComponent ''a'' True []])])))"
proof -
  have c: "patternlist_compile literal_rx ''<a>'' 0 [] = Inr ([Repeat 1 1 (ComponentSet True [RegexComponent ''a'' True []])], [])"
    using compile_single [of literal_rx "''a''" "[]" 1 1 "[]"] by (simp add: simple_expr_def literal_rx_def)
  show ?thesis
    using regex_search [OF any_literal_rx c, of "''<a>''" False False "Name [Component [98], Component [97]]" "[]"]
    by (fastforce simp: name_size_def)
qed

section \<open>The expression of a name\<close>

text \<open>
  What \<open>fromName\<close> relies on of \<open>boost::regex\<close>: an expression in which the special characters
  are escaped is valid, has no sub-matches, and matches exactly the string it was made from.
\<close>

definition literal_regex :: "boost_regex \<Rightarrow> bool" where
  "literal_regex rx \<longleftrightarrow> (\<forall>s. s \<noteq> [] \<longrightarrow> rx_valid rx (convertSpecialChar s) \<and> rx_mark_count rx (convertSpecialChar s) \<le> 1 \<and>
     (\<forall>t. rx_match rx (convertSpecialChar s) t \<noteq> None \<longleftrightarrow> t = s))"

lemma char_of_byte_eq: "char_of_byte b = c \<longleftrightarrow> unat b = of_char c"
  by (metis char_of_byte_def char_of_byte_of_char of_char_of unat_byte_of_char byte_of_char_of_byte)

lemma escaped_chars: "c \<in> set (toEscaped bs) \<Longrightarrow> c \<notin> {CHR ''<'', CHR ''>'', CHR 0x00, CHR 0x5C}"
proof (induction bs)
  case (Cons b bs)
  have hex: "hex_from_4_bit d \<notin> {CHR ''<'', CHR ''>'', CHR 0x00, CHR 0x5C}" if "unat d < 16" for d
  proof -
    have "hex_from_4_bit d \<in> set hex_lookup_table"
      unfolding hex_from_4_bit_def by (rule nth_mem) (use that in \<open>simp add: hex_lookup_table_def\<close>)
    then show ?thesis by (auto simp: hex_lookup_table_def)
  qed
  have "char_of_byte b \<notin> {CHR ''<'', CHR ''>'', CHR 0x00, CHR 0x5C}" if "\<not> must_escape b"
    using that by (auto simp: must_escape_iff char_of_byte_eq)
  then have "c \<notin> {CHR ''<'', CHR ''>'', CHR 0x00, CHR 0x5C}" if "c \<in> set (escape_byte b)"
    using that hex [OF nibble_less] hex [OF nibble_less] by (auto simp: escape_byte_def split: if_splits)
  then show ?case using Cons by auto
qed simp

lemma convert_chars: "c \<in> set (convertSpecialChar s) \<Longrightarrow> c \<in> set s \<or> c = CHR 0x5C"
  by (auto simp: convertSpecialChar_def split: if_splits)

lemma uri_nonempty: "bytes c \<noteq> [] \<Longrightarrow> component_toUri c \<noteq> []"
  by (cases "bytes c") (simp_all add: component_toUri_def escape_byte_def)

lemma toUri_inj: "component_toUri c = component_toUri d \<longleftrightarrow> c = d"
proof
  assume "component_toUri c = component_toUri d"
  then have "fromEscaped (toEscaped (bytes c)) = fromEscaped (toEscaped (bytes d))" by (simp add: component_toUri_def)
  then have "bytes c = bytes d"
    using fromEscaped_toEscaped_append [of "bytes c" "[]"] fromEscaped_toEscaped_append [of "bytes d" "[]"] by simp
  then show "c = d" by (simp add: component.expand)
qed simp

definition literal_matcher :: "component \<Rightarrow> matcher" where
  "literal_matcher c = Repeat 1 1 (ComponentSet True [RegexComponent (convertSpecialChar (component_toUri c)) True []])"

lemma literal_lang:
  assumes "literal_regex rx" and "bytes c \<noteq> []"
  shows "lang rx (literal_matcher c) = {[c]}"
proof -
  let ?e = "convertSpecialChar (component_toUri c)"
  have ne: "?e \<noteq> []" using uri_nonempty [OF assms(2)] by (cases "component_toUri c") (auto simp: convertSpecialChar_def)
  have "comp_ok rx (RegexComponent ?e True []) d \<longleftrightarrow> d = c" for d
    using assms(1) uri_nonempty [OF assms(2)] ne
    by (simp only: comp_ok_def literal_regex_def regex_component.sel) (metis toUri_inj)
  then have "lang rx (ComponentSet True [RegexComponent ?e True []]) = {[c]}" by auto
  moreover have "(\<exists>k\<ge>1. k \<le> 1 \<and> s \<in> concats (replicate k L)) \<longleftrightarrow> s \<in> L" for s and L :: "component list set"
  proof
    assume "\<exists>k\<ge>1. k \<le> 1 \<and> s \<in> concats (replicate k L)"
    then obtain k where "k = 1" "s \<in> concats (replicate k L)" by (metis le_antisym)
    then show "s \<in> L" by simp
  qed (rule exI [of _ 1], simp)
  ultimately show ?thesis
    unfolding literal_matcher_def lang.simps(4) by auto
qed

lemma compile_name:
  assumes "literal_regex rx" and "\<forall>c\<in>set cs. bytes c \<noteq> []"
  shows "patternlist_compile rx (concat (map (\<lambda>c. ''<'' @ convertSpecialChar (component_toUri c) @ ''>'') cs)) 0 refs =
    Inr (map literal_matcher cs, refs)"
  using assms(2)
proof (induction cs)
  case Nil
  show ?case using compile_end [of rx "[]" refs] by simp
next
  case (Cons c cs)
  let ?e = "convertSpecialChar (component_toUri c)"
  have "simple_expr rx ?e"
    using assms(1) uri_nonempty [of c] Cons.prems escaped_chars [of _ "bytes c"] convert_chars [of _ "component_toUri c"]
    unfolding simple_expr_def literal_regex_def component_toUri_def by fastforce
  from compile_single [OF this, of "[]" 1 1 refs]
  have 1: "patternlist_compile rx (''<'' @ ?e @ ''>'') 0 refs = Inr ([literal_matcher c], refs)"
    by (simp add: literal_matcher_def)
  have 2: "no_repetition (concat (map (\<lambda>c. ''<'' @ convertSpecialChar (component_toUri c) @ ''>'') cs))"
    by (cases cs) (auto simp: no_repetition_def)
  show ?case using compile_append [OF 1 2] Cons by simp
qed

lemma concats_literal:
  "literal_regex rx \<Longrightarrow> \<forall>c\<in>set cs. bytes c \<noteq> [] \<Longrightarrow> lang rx (PatternList (map literal_matcher cs)) = {cs}"
  by (induction cs) (auto simp: literal_lang)

text \<open>The expression that \<open>fromName\<close> builds from a name matches exactly that name
  when it is anchored, and exactly the names that have it as a prefix when it is not; building
  and matching never throw.\<close>

theorem fromName_matches:
  assumes "any_regex rx" and "literal_regex rx" and "name_wf m" and "name_size n < 2 ^ 31"
  shows "\<exists>t t'. fromName rx m hasAnchor = Inr t \<and>
    top_match rx t n = Inr (if hasAnchor then n = m else \<exists>w. comps n = comps m @ w, t')"
proof -
  let ?body = "concat (map (\<lambda>c. ''<'' @ convertSpecialChar (component_toUri c) @ ''>'') (comps m))"
  have wf: "\<forall>c\<in>set (comps m). bytes c \<noteq> []" using assms(3) by (simp add: name_wf_def)
  have last: "?body \<noteq> [] \<longrightarrow> last ?body \<noteq> CHR ''$''"
    by (cases "comps m" rule: rev_cases) auto
  have expr: "fromName_expr m hasAnchor = (if True then ''^'' else []) @ ?body @ (if hasAnchor then ''$'' else [])"
    by (simp add: fromName_expr_def)
  have ne: "fromName_expr m hasAnchor \<noteq> []" by (simp add: fromName_expr_def)
  let ?ms = "map literal_matcher (comps m) @ (if hasAnchor then [] else [any_matcher])"
  obtain t where t: "fromName rx m hasAnchor = Inr t" "m_primaryMatcher t = PatternList ?ms" "m_secondaryMatcher t = None"
    using top_compile_body [OF assms(1) compile_name [OF assms(2) wf] expr ne last, of "[]"]
    unfolding fromName_def by auto
  have "plain (literal_matcher c)" for c by (simp add: literal_matcher_def)
  then have "plain (m_primaryMatcher t)" using t(2) by (cases hasAnchor) simp_all
  then obtain b t' where b: "top_match rx t n = Inr (b, t')"
    using top_match_returns [OF assms(4), of t rx] t(3) by auto
  have len: "length (comps n) \<le> INT_MAX" using assms(4) by (simp add: name_size_def INT_MAX_def)
  have "b \<longleftrightarrow> comps n \<in> lang rx (PatternList ?ms)"
    using top_match_lang [OF assms(4) b] t by (simp add: top_langs_def)
  also have "\<dots> \<longleftrightarrow> (if hasAnchor then n = m else \<exists>w. comps n = comps m @ w)"
  proof (cases hasAnchor)
    case True
    have "comps n = comps m \<longleftrightarrow> n = m" by (auto intro: name.expand)
    then show ?thesis using concats_literal [OF assms(2) wf] True by simp
  next
    case False
    have "comps n \<in> lang rx (PatternList (map literal_matcher (comps m) @ [any_matcher])) \<longleftrightarrow>
        (\<exists>v w. comps n = v @ w \<and> v \<in> {comps m})"
      using any_around(1) [OF assms(1) len, of "map literal_matcher (comps m)", unfolded concats_literal [OF assms(2) wf]]
      by (simp only: lang.simps(2))
    then show ?thesis using False by simp
  qed
  finally have "b = (if hasAnchor then n = m else \<exists>w. comps n = comps m @ w)" .
  then show ?thesis using t(1) b by blast
qed

lemma convert_inj: "convertSpecialChar s = convertSpecialChar t \<longleftrightarrow> s = t"
proof (induction s arbitrary: t)
  case Nil
  then show ?case by (cases t) (auto simp: convertSpecialChar_def)
next
  case (Cons c s)
  then show ?case by (cases t) (auto simp: convertSpecialChar_def special_chars_def)
qed

lemma convert_not_any: "s \<noteq> [] \<Longrightarrow> convertSpecialChar s \<noteq> ''.*''"
  by (cases s) (auto simp: convertSpecialChar_def special_chars_def)

lemma literal_literal_rx: "literal_regex literal_rx"
  unfolding literal_regex_def literal_rx_def by (auto simp: convert_inj convert_not_any)

theorem fromName_matches_witness:
  "(\<exists>t t'. fromName literal_rx (Name [Component [97]]) False = Inr t \<and>
    top_match literal_rx t (Name [Component [97], Component [98]]) =
      Inr (\<exists>w. comps (Name [Component [97], Component [98]]) = comps (Name [Component [97]]) @ w, t'))"
  using fromName_matches [OF any_literal_rx literal_literal_rx, of "Name [Component [97]]" "Name [Component [97], Component [98]]" False]
  by (simp add: name_wf_def name_size_def)

section \<open>What back references hold\<close>

text \<open>
  \<open>captured rx m s refs\<close>: the recorded results \<open>refs\<close> are those of a match of \<open>m\<close> with the part \<open>s\<close>.  A group holds the
  part that it matched; in a concatenation the parts of the elements make up the whole; a repeated matcher has
  recorded its last, non-empty repetition; a component with sub-matches holds them, one component each.  Nothing is
  said of a repetition that matched the empty part, where the code may leave results of abandoned attempts.
\<close>

fun splits :: "('a list \<Rightarrow> bool) list \<Rightarrow> 'a list \<Rightarrow> bool" where
  "splits [] s \<longleftrightarrow> s = []"
| "splits (P # Ps) s \<longleftrightarrow> (\<exists>u v. s = u @ v \<and> P u \<and> splits Ps v)"

definition component_captured :: "boost_regex \<Rightarrow> regex_component \<Rightarrow> component \<Rightarrow> refs \<Rightarrow> bool" where
  "component_captured rx r c refs \<longleftrightarrow> rc_expr r = '''' \<or>
     (\<exists>sub. rx_match rx (rc_expr r) (component_toUri c) = Some sub \<and>
        (\<forall>j<length (rc_pseudo r). \<exists>x. component_of_uri (sub_match sub (Suc j)) = Inr x \<and> refs ! (rc_pseudo r ! j) = [x]))"

fun captured :: "boost_regex \<Rightarrow> matcher \<Rightarrow> component list \<Rightarrow> refs \<Rightarrow> bool" where
  "captured rx (ComponentSet inc rs) s refs \<longleftrightarrow> (inc \<longrightarrow> (\<exists>c. s = [c] \<and> (\<exists>r\<in>set rs. component_captured rx r c refs)))"
| "captured rx (PatternList ms) s refs \<longleftrightarrow> splits (map (\<lambda>m u. u \<in> lang rx m \<and> captured rx m u refs) ms) s"
| "captured rx (BackRef i m) s refs \<longleftrightarrow> refs ! i = s \<and> captured rx m s refs"
| "captured rx (Repeat mn mx m) s refs \<longleftrightarrow>
     s = [] \<or> (\<exists>u v. s = u @ v \<and> v \<noteq> [] \<and> v \<in> lang rx m \<and> captured rx m v refs)"

lemma owned_simps [simp]:
  "set (owned (ComponentSet inc rs)) = (\<Union>r\<in>set rs. set (rc_pseudo r))"
  "set (owned (PatternList (m # ms))) = set (owned m) \<union> set (owned (PatternList ms))"
  "set (owned (BackRef i m)) = insert i (set (owned m))"
  "set (owned (Repeat mn mx m)) = set (owned m)"
  by (auto simp: owned_def)

lemma owned_member: "m \<in> set ms \<Longrightarrow> set (owned m) \<subseteq> set (owned (PatternList ms))"
  by (induction ms) auto

lemma owned_distinct:
  "distinct (owned (PatternList (m # ms))) \<Longrightarrow>
    distinct (owned m) \<and> distinct (owned (PatternList ms)) \<and> set (owned m) \<inter> set (owned (PatternList ms)) = {}"
  "distinct (owned (BackRef i m)) \<Longrightarrow> distinct (owned m) \<and> i \<notin> set (owned m)"
  "distinct (owned (Repeat mn mx m)) \<longleftrightarrow> distinct (owned m)"
  unfolding owned_def backrefs.simps pseudos.simps list.map concat.simps map_append distinct_append set_append
  by (blast, simp, simp)

lemma owned_parts: "(i, g) \<in> set (backrefs m) \<Longrightarrow> i \<in> set (owned m)" "p \<in> set (pseudos m) \<Longrightarrow> p \<in> set (owned m)"
  by (force simp: owned_def)+

lemma splits_cong: "list_all2 (\<lambda>P Q. \<forall>s. P s \<longrightarrow> Q s) Ps Qs \<Longrightarrow> splits Ps s \<Longrightarrow> splits Qs s"
  by (induction Ps Qs arbitrary: s rule: list_all2_induct) fastforce+

text \<open>Only the results that a matcher owns count.\<close>

lemma captured_cong: "captured rx m s refs \<Longrightarrow> \<forall>i\<in>set (owned m). refs' ! i = refs ! i \<Longrightarrow> captured rx m s refs'"
proof (induction m arbitrary: s)
  case (ComponentSet inc rs)
  then show ?case by (fastforce simp: component_captured_def)
next
  case (PatternList ms)
  have "captured rx m u refs'" if "m \<in> set ms" "captured rx m u refs" for m u
    using PatternList(1) [OF that] PatternList(3) owned_member [OF that(1)] by blast
  then show ?case using PatternList(2) by (auto simp: list_all2_conv_all_nth elim!: splits_cong [rotated])
qed auto

lemma match_frame:
  assumes "name_size n < 2 ^ 31" and "off + len \<le> name_size n" and "regex_match rx n m off len st = Inr (r, st')"
  shows "length st' = length st \<and> (\<forall>i<length st. i \<notin> set (owned m) \<longrightarrow> st' ! i = st ! i)"
proof -
  let ?J = "\<lambda>i x. i \<notin> set (owned m) \<longrightarrow> x = st ! i"
  have "run_keeps n ?J (\<lambda>off len st. regex_match rx n m off len st)"
    by (rule match_keeps [OF assms(1)]) (auto dest: owned_parts)
  moreover have "refs_inv ?J st" by (simp add: refs_inv_def)
  ultimately show ?thesis using assms(2,3) unfolding run_keeps_def refs_inv_def by metis
qed

abbreviation runs_of :: "boost_regex \<Rightarrow> name \<Rightarrow> matcher list \<Rightarrow> run list" where
  "runs_of rx n ms \<equiv> map (\<lambda>m off len st. regex_match rx n m off len st) ms"

lemma list_frame:
  assumes "name_size n < 2 ^ 31" and "off + len \<le> name_size n" and "recursiveMatch (runs_of rx n ms) off len st = Inr (b, st')"
  shows "length st' = length st \<and> (\<forall>i<length st. i \<notin> set (owned (PatternList ms)) \<longrightarrow> st' ! i = st ! i)"
proof -
  let ?J = "\<lambda>i x. i \<notin> set (owned (PatternList ms)) \<longrightarrow> x = st ! i"
  have "run_keeps n ?J (\<lambda>off len st. regex_match rx n m off len st)" if "m \<in> set ms" for m
    using owned_member [OF that] by (intro match_keeps [OF assms(1)]) (auto dest: owned_parts)
  then have "\<forall>m\<in>set (runs_of rx n ms). run_keeps n ?J m" by auto
  moreover have "refs_inv ?J st" by (simp add: refs_inv_def)
  ultimately have "refs_inv ?J st' \<and> length st' = length st" by (rule recursiveMatch_keeps [OF _ assms(2) _ assms(3)])
  then show ?thesis by (simp add: refs_inv_def)
qed

text \<open>The attempt with which a loop succeeds.\<close>

lemma tried_loop_success:
  assumes "tried_loop body tried st = Inr (True, st')"
    and "\<And>t st b st'. t \<le> tried \<Longrightarrow> body t st = Inr (b, st') \<Longrightarrow> length st' = length st"
  shows "\<exists>t st1. t \<le> tried \<and> length st1 = length st \<and> body t st1 = Inr (True, st')"
  using assms
proof (induction tried arbitrary: st)
  case (Suc tried)
  then obtain b1 st1 where 1: "body (Suc tried) st = Inr (b1, st1)" by (auto simp: bindE_Inr_iff)
  show ?case
  proof (cases b1)
    case True
    then show ?thesis using Suc.prems(1) 1 by (intro exI [of _ "Suc tried"] exI [of _ st]) simp
  next
    case False
    have "\<exists>t st2. t \<le> tried \<and> length st2 = length st1 \<and> body t st2 = Inr (True, st')"
    proof (rule Suc.IH [OF _ Suc.prems(2)])
      show "tried_loop body tried st1 = Inr (True, st')" using Suc.prems(1) 1 False by simp
    qed simp_all
    then show ?thesis using Suc.prems(2) [OF _ 1] by (metis le_SucI le_refl)
  qed
qed auto

lemma set_pseudo_captures:
  assumes "set_pseudo ps i sub st = Inr st'" and "distinct ps" and "\<forall>p\<in>set ps. p < length st" and "j < length ps"
  shows "\<exists>x. component_of_uri (sub_match sub (i + j)) = Inr x \<and> st' ! (ps ! j) = [x]"
  using assms
proof (induction ps arbitrary: i st j)
  case (Cons p ps)
  then obtain c where c: "component_of_uri (sub_match sub i) = Inr c" "set_pseudo ps (Suc i) sub (st[p := [c]]) = Inr st'"
    by (auto simp: bindE_Inr_iff)
  show ?case
  proof (cases j)
    case 0
    have "refs_inv (\<lambda>k x. k = p \<longrightarrow> x = [c]) st' \<and> length st' = length (st[p := [c]])"
      by (rule set_pseudo_keeps [OF _ _ c(2)]) (use Cons.prems in \<open>auto simp: refs_inv_def nth_list_update\<close>)
    then show ?thesis using 0 c(1) Cons.prems(3) by (simp add: refs_inv_def)
  next
    case (Suc k)
    then show ?thesis using Cons.IH [OF c(2), of k] Cons.prems by auto
  qed
qed simp

lemma any_component_captures:
  assumes "name_size n < 2 ^ 31" and "off < name_size n" and "any_component rx n rs off st = Inr (True, st')"
    and "distinct (concat (map rc_pseudo rs))" and "\<forall>r\<in>set rs. \<forall>p\<in>set (rc_pseudo r). p < length st"
  shows "\<exists>r\<in>set rs. component_captured rx r (comps n ! off) st'"
  using assms(3-5)
proof (induction rs arbitrary: st)
  case (Cons r rs)
  obtain b1 st1 where 1: "component_match rx n r off st = Inr (b1, st1)" using Cons.prems by (auto simp: bindE_Inr_iff)
  show ?case
  proof (cases b1)
    case True
    then have "st' = st1" using Cons.prems(1) 1 by simp
    moreover have "component_captured rx r (comps n ! off) st1"
      using 1 True assms(1,2) set_pseudo_captures [of "rc_pseudo r" 1 _ st st1] Cons.prems(2,3)
      by (auto simp: component_match_def component_captured_def name_get_of_nat bindE_Inr_iff split: if_splits option.splits)
    ultimately show ?thesis by simp
  next
    case False
    then have "st1 = st" using 1 by (auto simp: component_match_def bindE_Inr_iff split: if_splits option.splits)
    then show ?thesis using Cons.IH [of st] Cons.prems 1 False by auto
  qed
qed simp

text \<open>What a matcher records when it succeeds, its results being within the list.\<close>

definition captures :: "boost_regex \<Rightarrow> name \<Rightarrow> matcher \<Rightarrow> bool" where
  "captures rx n m \<longleftrightarrow> (\<forall>off len st cs st'. off + len \<le> name_size n \<and> (\<forall>i\<in>set (owned m). i < length st) \<and>
     regex_match rx n m off len st = Inr (Some cs, st') \<longrightarrow> captured rx m (part n off len) st')"

lemma attempt_success:
  assumes "name_size n < 2 ^ 31" and "off + len \<le> name_size n"
    and "tried_loop (\<lambda>tried st. bindE (regex_match rx n m off tried st) (\<lambda>(r, st).
       if r \<noteq> None then k tried st else Inr (False, st))) len st = Inr (True, st')"
    and "\<And>t st b st'. t \<le> len \<Longrightarrow> k t st = Inr (b, st') \<Longrightarrow> length st' = length st"
    and "captures rx n m" and "\<forall>i\<in>set (owned m). i < length st"
  shows "\<exists>t st2. t \<le> len \<and> length st2 = length st \<and> part n off t \<in> lang rx m \<and> captured rx m (part n off t) st2 \<and>
    k t st2 = Inr (True, st')"
proof -
  let ?body = "\<lambda>tried st. bindE (regex_match rx n m off tried st) (\<lambda>(r, st). if r \<noteq> None then k tried st else Inr (False, st))"
  have frame: "length st' = length st" if "regex_match rx n m off t st = Inr (r, st')" "t \<le> len" for t st r st'
    using match_frame [OF assms(1) _ that(1)] that(2) assms(2) by simp
  have keep: "length st' = length st" if t: "t \<le> len" "?body t st = Inr (b, st')" for t st b st'
  proof -
    obtain r st1 where 1: "regex_match rx n m off t st = Inr (r, st1)" "(if r \<noteq> None then k t st1 else Inr (False, st1)) = Inr (b, st')"
      using t(2) by (auto simp: bindE_Inr_iff)
    then show ?thesis using frame [OF 1(1) t(1)] assms(4) [OF t(1)] by (metis Inr_inject prod.inject)
  qed
  have "\<exists>t st1. t \<le> len \<and> length st1 = length st \<and> ?body t st1 = Inr (True, st')"
    by (rule tried_loop_success [OF assms(3)]) (erule (1) keep)
  then obtain t st1 where
    1: "t \<le> len" "length st1 = length st" "?body t st1 = Inr (True, st')" by blast
  then obtain cs st2 where 2: "regex_match rx n m off t st1 = Inr (Some cs, st2)" "k t st2 = Inr (True, st')"
    by (auto simp: bindE_Inr_iff split: if_splits)
  have o: "off + t \<le> name_size n" using 1(1) assms(2) by simp
  have "captured rx m (part n off t) st2" using assms(5,6) 1(2) 2(1) o unfolding captures_def by metis
  moreover have "part n off t \<in> lang rx m" using run_okD [OF match_lang [OF assms(1)] 2(1) o] by simp
  ultimately show ?thesis using 1 2 frame [OF 2(1)] by (intro exI [of _ t] exI [of _ st2]) simp
qed

lemma list_captures:
  assumes "name_size n < 2 ^ 31" and "off + len \<le> name_size n" and "recursiveMatch (runs_of rx n ms) off len st = Inr (True, st')"
    and "\<forall>m\<in>set ms. captures rx n m" and "distinct (owned (PatternList ms))" and "\<forall>i\<in>set (owned (PatternList ms)). i < length st"
  shows "splits (map (\<lambda>m u. u \<in> lang rx m \<and> captured rx m u st') ms) (part n off len)"
  using assms(2-)
proof (induction ms arbitrary: off len st)
  case (Cons m ms)
  have fr: "length st' = length st" if "t \<le> len" "recursiveMatch (runs_of rx n ms) (off + t) (len - t) st = Inr (b, st')" for t st b st'
    using list_frame [OF assms(1) _ that(2)] that(1) Cons.prems(1) by simp
  have "\<exists>t st2. t \<le> len \<and> length st2 = length st \<and> part n off t \<in> lang rx m \<and> captured rx m (part n off t) st2 \<and>
      recursiveMatch (runs_of rx n ms) (off + t) (len - t) st2 = Inr (True, st')"
    by (rule attempt_success [OF assms(1) Cons.prems(1) Cons.prems(2) [unfolded list.map recursiveMatch.simps]])
      (erule (1) fr, use Cons.prems(3,5) in auto)
  then obtain t st2 where t: "t \<le> len" "length st2 = length st" "part n off t \<in> lang rx m" "captured rx m (part n off t) st2"
      "recursiveMatch (runs_of rx n ms) (off + t) (len - t) st2 = Inr (True, st')" by blast
  have o: "off + t + (len - t) \<le> name_size n" using t(1) Cons.prems(1) by simp
  note d = owned_distinct(1) [OF Cons.prems(4)]
  have "splits (map (\<lambda>m u. u \<in> lang rx m \<and> captured rx m u st') ms) (part n (off + t) (len - t))"
    using Cons.prems(3,5) d t(2) by (intro Cons.IH [OF o t(5)]) auto
  moreover have "captured rx m (part n off t) st'"
    using list_frame [OF assms(1) o t(5)] Cons.prems(5) d t(2) by (intro captured_cong [OF t(4)]) auto
  ultimately show ?case using part_split [OF t(1), of n off] t(3) by auto
qed (use part_Nil_iff in auto)

lemma repeat_captures:
  assumes "name_size n < 2 ^ 31" and "captures rx n m" and "off + len \<le> name_size n" and "\<forall>i\<in>set (owned m). i < length st"
    and "repeat_recursiveMatch (\<lambda>off len st. regex_match rx n m off len st) mn mx repeat off len st = Inr (True, st')" and "len \<noteq> 0"
  shows "\<exists>u v. part n off len = u @ v \<and> v \<noteq> [] \<and> v \<in> lang rx m \<and> captured rx m v st'"
  using assms(3-)
proof (induction "mx - repeat" arbitrary: repeat off len st rule: less_induct)
  case less
  let ?run = "\<lambda>off len st. regex_match rx n m off len st"
  let ?k = "\<lambda>t st. repeat_recursiveMatch ?run mn mx (repeat + 1) (off + t) (len - t) st"
  note step = less.prems(3) [unfolded repeat_recursiveMatch.simps [of ?run mn mx repeat]]
  have keeps: "run_keeps n (\<lambda>_ _. True) ?run" by (rule match_keeps [OF assms(1)]) auto
  have fr: "length st' = length st" if "t \<le> len" "?k t st = Inr (b, st')" for t st b st'
    using repeat_keeps [OF keeps _ _ that(2)] that(1) less.prems(1) by (simp add: refs_inv_def)
  have r: "repeat < mx" using step less.prems(4) by (auto split: if_splits)
  then have loop: "tried_loop (\<lambda>tried st. bindE (regex_match rx n m off tried st) (\<lambda>(r, st).
      if r \<noteq> None then ?k tried st else Inr (False, st))) len st = Inr (True, st')"
    using step less.prems(4) by simp
  have "\<exists>t st2. t \<le> len \<and> length st2 = length st \<and> part n off t \<in> lang rx m \<and> captured rx m (part n off t) st2 \<and>
      ?k t st2 = Inr (True, st')"
    by (rule attempt_success [OF assms(1) less.prems(1) loop _ assms(2) less.prems(2)]) (erule (1) fr)
  then obtain t st2 where t: "t \<le> len" "length st2 = length st" "part n off t \<in> lang rx m" "captured rx m (part n off t) st2"
      "?k t st2 = Inr (True, st')" by blast
  show ?case
  proof (cases "len - t = 0")
    case True
    then have "st' = st2" using t(5) by (auto simp: repeat_recursiveMatch.simps [of ?run mn mx "Suc repeat"] split: if_splits)
    then show ?thesis using True t less.prems(1,4) by (intro exI [of _ "[]"] exI [of _ "part n off t"]) (auto simp: part_Nil_iff)
  next
    case False
    then obtain u v where "part n (off + t) (len - t) = u @ v" "v \<noteq> []" "v \<in> lang rx m" "captured rx m v st'"
      using less.hyps [of "repeat + 1" "off + t" "len - t" st2] r t less.prems(1,2) by fastforce
    then show ?thesis using part_split [OF t(1), of n off] by (intro exI [of _ "part n off t @ u"] exI [of _ v]) simp
  qed
qed

lemma match_captures:
  assumes "name_size n < 2 ^ 31" and "distinct (owned m)"
  shows "captures rx n m"
  using assms(2)
proof (induction m)
  case (ComponentSet inc rs)
  show ?case unfolding captures_def
  proof (intro allI impI, elim conjE)
    fix off len st cs st'
    assume o: "off + len \<le> name_size n" "\<forall>i\<in>set (owned (ComponentSet inc rs)). i < length st"
      and m: "regex_match rx n (ComponentSet inc rs) off len st = Inr (Some cs, st')"
    then have l: "len = 1" by (auto simp: componentset_match_def split: if_splits)
    then have p: "part n off len = [comps n ! off]" "off < name_size n"
      using o by (simp_all add: part_def name_size_def take_Suc_conv_app_nth Cons_nth_drop_Suc [symmetric])
    have "any_component rx n rs off st = Inr (True, st')" if inc
      using m l that by (auto simp: componentset_match_def bindE_Inr_iff split: if_splits)
    then show "captured rx (ComponentSet inc rs) (part n off len) st'"
      using any_component_captures [OF assms(1) p(2)] o(2) p(1) ComponentSet by (auto simp: owned_def)
  qed
next
  case (PatternList ms)
  have d: "distinct (owned m)" if "m \<in> set ms" for m
    using that PatternList.prems by (induction ms) (auto dest: owned_distinct(1))
  then show ?case
    using PatternList list_captures [OF assms(1)] unfolding captures_def [of rx n "PatternList ms"]
    by (fastforce simp: bindE_Inr_iff collect_def split: if_splits)
next
  case (BackRef i m)
  note d = owned_distinct(2) [OF BackRef.prems]
  show ?case unfolding captures_def
  proof (intro allI impI, elim conjE)
    fix off len st cs st'
    assume o: "off + len \<le> name_size n" "\<forall>k\<in>set (owned (BackRef i m)). k < length st"
      and a: "regex_match rx n (BackRef i m) off len st = Inr (Some cs, st')"
    then obtain st1 where b: "recursiveMatch (runs_of rx n [m]) off len (st[i := []]) = Inr (True, st1)"
        "collect n off len (True, st1) = Inr (Some cs, st1)" "st' = st1[i := cs]"
      by (auto simp: bindE_Inr_iff collect_def simp del: recursiveMatch.simps split: if_splits)
    have "splits (map (\<lambda>m u. u \<in> lang rx m \<and> captured rx m u st1) [m]) (part n off len)"
      using BackRef d o(2) by (intro list_captures [OF assms(1) o(1) b(1)]) (auto simp: owned_def)
    then have c: "captured rx m (part n off len) st1" by auto
    have "cs = part n off len" using collect_ok [OF assms(1) o(1) b(2)] by simp
    moreover have "i < length st1" using list_frame [OF assms(1) o(1) b(1)] o(2) by simp
    moreover have "\<forall>k\<in>set (owned m). st' ! k = st1 ! k" unfolding b(3) using d by (auto intro!: nth_list_update_neq)
    then have "captured rx m (part n off len) st'" by (rule captured_cong [OF c])
    ultimately show "captured rx (BackRef i m) (part n off len) st'" using b(3) by simp
  qed
next
  case (Repeat mn mx m)
  have c: "captures rx n m" using Repeat.IH Repeat.prems unfolding owned_distinct(3) by blast
  show ?case unfolding captures_def
  proof (intro allI impI, elim conjE)
    fix off len st cs st'
    assume o: "off + len \<le> name_size n" "\<forall>k\<in>set (owned (Repeat mn mx m)). k < length st"
      and a: "regex_match rx n (Repeat mn mx m) off len st = Inr (Some cs, st')"
    show "captured rx (Repeat mn mx m) (part n off len) st'"
    proof (cases "len = 0")
      case False
      with a have "repeat_recursiveMatch (\<lambda>off len st. regex_match rx n m off len st) mn mx 0 off len st = Inr (True, st')"
        by (auto simp: bindE_Inr_iff collect_def split: if_splits)
      from repeat_captures [OF assms(1) c o(1) _ this False] o(2) show ?thesis by simp
    qed simp
  qed
qed

text \<open>An expression after any number of matches.\<close>

inductive used :: "boost_regex \<Rightarrow> regex_top \<Rightarrow> regex_top \<Rightarrow> bool" for rx t where
  fresh: "used rx t t"
| again: "used rx t t1 \<Longrightarrow> name_size n < 2 ^ 31 \<Longrightarrow> top_match rx t1 n = Inr (b, t2) \<Longrightarrow> used rx t t2"

lemma top_match_cases:
  assumes "top_match rx t n = Inr (b, t')"
  obtains r refs where "regex_match rx n (m_primaryMatcher t) 0 (name_size n) (m_primaryRefs t) = Inr (r, refs)"
      "m_primaryRefs t' = refs" "m_primaryMatcher t' = m_primaryMatcher t" "m_secondaryMatcher t' = m_secondaryMatcher t"
      "m_secondaryRefs t' = m_secondaryRefs t" "\<not> m_secondaryUsed t'" "b \<longleftrightarrow> r \<noteq> None"
  | r refs m r' refs' where "regex_match rx n (m_primaryMatcher t) 0 (name_size n) (m_primaryRefs t) = Inr (r, refs)"
      "m_secondaryMatcher t = Some m" "regex_match rx n m 0 (name_size n) (m_secondaryRefs t) = Inr (r', refs')"
      "m_primaryRefs t' = refs" "m_primaryMatcher t' = m_primaryMatcher t" "m_secondaryMatcher t' = m_secondaryMatcher t"
      "m_secondaryRefs t' = refs'" "m_secondaryUsed t' \<longleftrightarrow> r' \<noteq> None" "b \<longleftrightarrow> r' \<noteq> None"
  using assms by (auto simp: top_match_def bindE_Inr_iff Let_def split: option.splits)

lemma used_same:
  assumes "used rx t t1"
  shows "m_primaryMatcher t1 = m_primaryMatcher t \<and> m_secondaryMatcher t1 = m_secondaryMatcher t \<and>
    length (m_primaryRefs t1) = length (m_primaryRefs t) \<and> length (m_secondaryRefs t1) = length (m_secondaryRefs t)"
  using assms
proof induction
  case (again t1 n b t2)
  show ?case
    by (rule top_match_cases [OF again.hyps(3)]) (use again.IH in \<open>auto dest!: match_frame [OF again.hyps(2), rotated]\<close>)
qed simp

lemma compiled_numbered:
  assumes "top_compile rx expr ex = Inr t"
  shows "numbered (m_primaryMatcher t) 0 (length (m_primaryRefs t)) \<and>
    (\<forall>m. m_secondaryMatcher t = Some m \<longrightarrow> numbered m 0 (length (m_secondaryRefs t)))"
  using assms patternlist_compile_refs [of rx _ 0 "[]"]
  by (fastforce simp: top_compile_def pattern_list_def Let_def bindE_Inr_iff split: if_splits)

lemma whole_captured:
  assumes "name_size n < 2 ^ 31" and "numbered m 0 (length st)" and "regex_match rx n m 0 (name_size n) st = Inr (Some cs, st')"
  shows "captured rx m (comps n) st'"
proof -
  have "captures rx n m" using match_captures [OF assms(1)] assms(2) by (simp add: numbered_def)
  moreover have "\<forall>i\<in>set (owned m). i < length st" using assms(2) by (simp add: numbered_def)
  ultimately have "captured rx m (part n 0 (name_size n)) st'" using assms(3) unfolding captures_def by (metis add_0 le_refl)
  then show ?thesis by (simp add: part_def name_size_def)
qed

text \<open>Property C34.  Back references: when a compiled expression matches a name, however often it was used before, the
  results that \<open>expand\<close> then reads are those of this match.  Every group holds exactly the part of the
  name that it matched, where the parts of successive elements make up the part of their list; a repeated element
  has recorded its last non-empty repetition, and a component its sub-matches.  This holds for the
  primary results, and for the secondary results when the secondary matcher decided.  What a group holds inside
  a repetition that matched nothing is left open.\<close>

theorem backrefs_hold_groups:
  assumes "top_compile rx expr ex = Inr t" and "used rx t t1" and "name_size n < 2 ^ 31" and "top_match rx t1 n = Inr (True, t')"
  shows "if m_secondaryUsed t' then \<exists>m. m_secondaryMatcher t = Some m \<and> captured rx m (comps n) (m_secondaryRefs t')
    else captured rx (m_primaryMatcher t) (comps n) (m_primaryRefs t')"
  using top_match_cases [OF assms(4)]
proof cases
  case (1 r refs)
  then show ?thesis
    using whole_captured [OF assms(3), of "m_primaryMatcher t" "m_primaryRefs t1"] compiled_numbered [OF assms(1)] used_same [OF assms(2)] by auto
next
  case (2 r refs m r' refs')
  then show ?thesis
    using whole_captured [OF assms(3), of m "m_secondaryRefs t1"] compiled_numbered [OF assms(1)] used_same [OF assms(2)] by auto
qed

lemma group_example:
  "top_compile literal_rx ''^(<a>)<b>$'' [] = Inr \<lparr> m_expand = [], m_primaryMatcher = PatternList
       [BackRef 0 (PatternList [Repeat 1 1 (ComponentSet True [RegexComponent ''a'' True []])]),
        Repeat 1 1 (ComponentSet True [RegexComponent ''b'' True []])], m_secondaryMatcher = None,
       m_primaryRefs = [[]], m_secondaryRefs = [], m_matchResult = [], m_secondaryUsed = False \<rparr>"
  by code_simp

lemma group_example_match:
  "map_sum (\<lambda>x. x) fst (bindE (top_compile literal_rx ''^(<a>)<b>$'' []) (\<lambda>t. top_match literal_rx t (Name [Component [97], Component [98]]))) = Inr True"
  by code_simp

lemma single_lang: "s \<in> lang rx (Repeat 1 1 (ComponentSet inc rs)) \<Longrightarrow> length s = 1"
  by (auto simp: le_Suc_eq split: if_splits)

theorem backrefs_hold_groups_witness:
  "\<exists>t t'. top_compile literal_rx ''^(<a>)<b>$'' [] = Inr t \<and>
    top_match literal_rx t (Name [Component [97], Component [98]]) = Inr (True, t') \<and>
    m_primaryRefs t' ! 0 = [Component [97]]"
proof -
  obtain t t' where t: "top_compile literal_rx ''^(<a>)<b>$'' [] = Inr t"
      "top_match literal_rx t (Name [Component [97], Component [98]]) = Inr (True, t')"
    using group_example_match by (cases "top_compile literal_rx ''^(<a>)<b>$'' []") (auto simp: map_sum_def split: sum.splits)
  let ?g = "PatternList [Repeat 1 1 (ComponentSet True [RegexComponent ''a'' True []])]"
  have "u = [Component [97]]" if "u \<in> lang literal_rx ?g" "[Component [97], Component [98]] = u @ v" for u v
    using that single_lang [of u literal_rx True "[RegexComponent ''a'' True []]"] by (cases u) (auto simp del: lang.simps(4))
  moreover have m: "m_primaryMatcher t = PatternList [BackRef 0 ?g, Repeat 1 1 (ComponentSet True [RegexComponent ''b'' True []])]"
      "m_secondaryMatcher t = None"
    using t(1) group_example by auto
  ultimately have "m_primaryRefs t' ! 0 = [Component [97]]"
    if "captured literal_rx (m_primaryMatcher t) [Component [97], Component [98]] (m_primaryRefs t')"
    using that by (auto simp del: lang.simps(4))
  then show ?thesis
    using backrefs_hold_groups [OF t(1) used.fresh _ t(2)] t m(2) by (auto simp: name_size_def split: if_splits)
qed

text \<open>
  A literal component at the end of an expand string is refused, although the same component
  followed by a back reference is accepted.
\<close>

lemma expand_refuses_last_component:
  "expand_loop [] refs ''<a>'' n = Inl RegexException"
  "append_string n ''a'' = Inr m \<Longrightarrow>
    expand_loop [] [[Component [98]]] (''<a>'' @ [CHR 0x5C, CHR ''1'']) n = Inr (append_range m [Component [98]])"
  by (simp_all add: expand_loop.simps getItemFromExpand_def char_at_def substr_def is_digit_char_def atoi_def INT_MAX_def)

text \<open>An expression that accepts the empty part does not accept it when repeated exactly once.\<close>

lemma repeat_rejects_empty:
  "[] \<in> lang rx (Repeat 0 1 m)" "[] \<notin> lang rx (Repeat 1 1 (Repeat 0 1 m))"
  by simp_all

end
