(* ===== verification/Trust_Policy.thy ===== *)
theory Trust_Policy
  imports Certificate_Cache Regex_Search
begin

text \<open>
  \<open>ndn.cxx/security/policy\<close>, the verification half of \<open>security/keychain.cc\<close> and the callbacks of
  \<open>wrapper/wrapper.cc\<close> that drive it.  Rules and regular expressions are objects that matching
  changes and that several lists may share, so the lists hold addresses of a store.  A callback
  is either the application's or \<open>onCertificateVerified\<close> bound to the data that waits for the
  certificate: the datatype \<open>cont\<close>.  The executor has one thread and a queue of tasks.  The RSA check of
  Crypto++ is the parameter \<open>rsa_verify\<close>, the cache any \<open>certificate_store\<close>.
\<close>

section \<open>Signatures\<close>

type_synonym rsa = "blob \<Rightarrow> blob \<Rightarrow> blob \<Rightarrow> bool result"

definition verifySignature :: "rsa \<Rightarrow> ndn_data \<Rightarrow> publickey \<Rightarrow> bool result" where
  "verifySignature rsa_verify data publickey =
     (case d_wire data of
        None \<Rightarrow> Inl UndefinedBehaviour
      | Some wire \<Rightarrow>
          (case d_signature data of
             None \<Rightarrow> Inl UndefinedBehaviour
           | Some sig \<Rightarrow> rsa_verify (pk_key publickey) (signed_bytes wire) (m_signatureBits sig)))"

section \<open>Identity policy rules\<close>

record policy_rule =
  pr_isPositive :: bool
  pr_op :: string
  pr_dataNameRegex :: regex_top
  pr_signerNameRegex :: regex_top

definition new_identity_rule ::
    "boost_regex \<Rightarrow> string \<Rightarrow> string \<Rightarrow> string \<Rightarrow> string \<Rightarrow> string \<Rightarrow> bool \<Rightarrow> policy_rule result" where
  "new_identity_rule rx dataRegex signerRegex op dataExpand signerExpand isPositive =
     bindE (top_compile rx dataRegex dataExpand) (\<lambda>d.
       bindE (top_compile rx signerRegex signerExpand) (\<lambda>s.
         if op \<noteq> ''>'' \<and> op \<noteq> ''>='' \<and> op \<noteq> ''=='' then Inl SecException
         else Inr \<lparr> pr_isPositive = isPositive, pr_op = op, pr_dataNameRegex = d, pr_signerNameRegex = s \<rparr>))"

fun compare_loop :: "component list \<Rightarrow> component list \<Rightarrow> bool" where
  "compare_loop (i # is) (j # js) = (if component_compare i j = 0 then compare_loop is js else False)"
| "compare_loop is js = (if is = [] then False else True)"

definition rule_compare :: "string \<Rightarrow> name \<Rightarrow> name \<Rightarrow> bool" where
  "rule_compare op dataName signerName =
     (if name_compare dataName signerName = 0 \<and> (''=='' = op \<or> ''>='' = op) then True
      else compare_loop (comps dataName) (comps signerName))"

definition satisfy_names :: "boost_regex \<Rightarrow> policy_rule \<Rightarrow> name \<Rightarrow> name \<Rightarrow> (bool \<times> policy_rule) result" where
  "satisfy_names rx r dataName signerName =
     bindE (top_match rx (pr_dataNameRegex r) dataName) (\<lambda>(b, t).
       let r = r\<lparr> pr_dataNameRegex := t \<rparr>
       in if \<not> b then Inr (False, r)
          else bindE (top_expand (pr_dataNameRegex r) []) (\<lambda>expandDataName.
            bindE (top_match rx (pr_signerNameRegex r) signerName) (\<lambda>(b, t).
              let r = r\<lparr> pr_signerNameRegex := t \<rparr>
              in if \<not> b then Inr (False, r)
                 else bindE (top_expand (pr_signerNameRegex r) []) (\<lambda>expandSignerName.
                   Inr (rule_compare (pr_op r) expandDataName expandSignerName, r)))))"

definition signer_name :: "ndn_data \<Rightarrow> name result" where
  "signer_name data =
     (case d_signature data of
        None \<Rightarrow> Inl UndefinedBehaviour
      | Some sig \<Rightarrow> getKeyName (m_keyLocator sig))"

definition satisfy :: "boost_regex \<Rightarrow> ndn_data \<Rightarrow> policy_rule \<Rightarrow> (bool \<times> policy_rule) result" where
  "satisfy rx data r = bindE (signer_name data) (satisfy_names rx r (d_name data))"

definition matchDataName :: "boost_regex \<Rightarrow> ndn_data \<Rightarrow> policy_rule \<Rightarrow> (bool \<times> policy_rule) result" where
  "matchDataName rx data r =
     bindE (top_match rx (pr_dataNameRegex r) (d_name data)) (\<lambda>(b, t). Inr (b, r\<lparr> pr_dataNameRegex := t \<rparr>))"

definition matchSignerName :: "boost_regex \<Rightarrow> ndn_data \<Rightarrow> policy_rule \<Rightarrow> (bool \<times> policy_rule) result" where
  "matchSignerName rx data r =
     bindE (signer_name data) (\<lambda>n.
       bindE (top_match rx (pr_signerNameRegex r) n) (\<lambda>(b, t). Inr (b, r\<lparr> pr_signerNameRegex := t \<rparr>)))"

section \<open>The policy manager\<close>

record 's policy_manager =
  pm_stepLimit :: int
  pm_cache :: 's
  pm_rules :: "nat \<Rightarrow> policy_rule"
  pm_regexes :: "nat \<Rightarrow> regex_top"
  pm_mustFailVerify :: "nat list"
  pm_verifyPolicies :: "nat list"
  pm_verifyExempt :: "nat list"
  pm_signPolicies :: "nat list"
  pm_mustFailSign :: "nat list"
  pm_signInference :: "nat list"
  pm_trustAnchors :: "(name \<times> identity_certificate) list"

definition addSigningPolicyRule :: "nat \<Rightarrow> 's policy_manager \<Rightarrow> 's policy_manager" where
  "addSigningPolicyRule p m =
     (if pr_isPositive (pm_rules m p) then m\<lparr> pm_signPolicies := pm_signPolicies m @ [p] \<rparr>
      else m\<lparr> pm_mustFailSign := pm_mustFailSign m @ [p] \<rparr>)"

definition addVerificationPolicyRule :: "nat \<Rightarrow> 's policy_manager \<Rightarrow> 's policy_manager" where
  "addVerificationPolicyRule p m =
     (if pr_isPositive (pm_rules m p) then m\<lparr> pm_verifyPolicies := pm_verifyPolicies m @ [p] \<rparr>
      else m\<lparr> pm_mustFailVerify := pm_mustFailVerify m @ [p] \<rparr>)"

definition addSigningInference :: "nat \<Rightarrow> 's policy_manager \<Rightarrow> 's policy_manager" where
  "addSigningInference p m = m\<lparr> pm_signInference := pm_signInference m @ [p] \<rparr>"

definition addVerificationExemption :: "nat \<Rightarrow> 's policy_manager \<Rightarrow> 's policy_manager" where
  "addVerificationExemption p m = m\<lparr> pm_verifyExempt := pm_verifyExempt m @ [p] \<rparr>"

definition addTrustAnchor :: "identity_certificate \<Rightarrow> 's policy_manager \<Rightarrow> 's policy_manager result" where
  "addTrustAnchor c m =
     bindE (getPrefix (d_name c) (of_nat (name_size (d_name c)) - 1) 0) (\<lambda>n.
       Inr (m\<lparr> pm_trustAnchors := map_insert n c (pm_trustAnchors m) \<rparr>))"

text \<open>The loops over a list of shared objects that stop at the first one for which \<open>f\<close> holds.\<close>

fun first_match :: "('o \<Rightarrow> (bool \<times> 'o) result) \<Rightarrow> nat list \<Rightarrow> (nat \<Rightarrow> 'o) \<Rightarrow> (nat option \<times> (nat \<Rightarrow> 'o)) result" where
  "first_match f [] h = Inr (None, h)"
| "first_match f (p # ps) h =
     bindE (f (h p)) (\<lambda>(b, r). if b then Inr (Some p, h(p := r)) else first_match f ps (h(p := r)))"

definition requireVerify :: "boost_regex \<Rightarrow> ndn_data \<Rightarrow> 's policy_manager \<Rightarrow> (bool \<times> 's policy_manager) result" where
  "requireVerify rx data m =
     bindE (first_match (matchDataName rx data) (pm_verifyPolicies m) (pm_rules m)) (\<lambda>(found, h).
       if found \<noteq> None then Inr (True, m\<lparr> pm_rules := h \<rparr>)
       else bindE (first_match (matchDataName rx data) (pm_mustFailVerify m) h) (\<lambda>(found, h).
              Inr (found \<noteq> None, m\<lparr> pm_rules := h \<rparr>)))"

definition skipVerifyAndTrust :: "boost_regex \<Rightarrow> ndn_data \<Rightarrow> 's policy_manager \<Rightarrow> (bool \<times> 's policy_manager) result" where
  "skipVerifyAndTrust rx data m =
     bindE (first_match (\<lambda>t. top_match rx t (d_name data)) (pm_verifyExempt m) (pm_regexes m)) (\<lambda>(found, h).
       Inr (found \<noteq> None, m\<lparr> pm_regexes := h \<rparr>))"

definition checkSigningPolicy :: "boost_regex \<Rightarrow> name \<Rightarrow> name \<Rightarrow> 's policy_manager \<Rightarrow> (bool \<times> 's policy_manager) result" where
  "checkSigningPolicy rx dataName certName m =
     bindE (first_match (\<lambda>r. satisfy_names rx r dataName certName) (pm_mustFailSign m) (pm_rules m)) (\<lambda>(found, h).
       if found \<noteq> None then Inr (False, m\<lparr> pm_rules := h \<rparr>)
       else bindE (first_match (\<lambda>r. satisfy_names rx r dataName certName) (pm_signPolicies m) h) (\<lambda>(found, h).
              Inr (found \<noteq> None, m\<lparr> pm_rules := h \<rparr>)))"

definition inferSigningIdentity :: "boost_regex \<Rightarrow> name \<Rightarrow> 's policy_manager \<Rightarrow> (name \<times> 's policy_manager) result" where
  "inferSigningIdentity rx dataName m =
     bindE (first_match (\<lambda>t. top_match rx t dataName) (pm_signInference m) (pm_regexes m)) (\<lambda>(found, h).
       case found of
         None \<Rightarrow> Inr (Name [], m\<lparr> pm_regexes := h \<rparr>)
       | Some p \<Rightarrow> bindE (top_expand (h p) []) (\<lambda>n. Inr (n, m\<lparr> pm_regexes := h \<rparr>)))"

text \<open>
  \<open>checkVerificationPolicy\<close>: the callback that it calls, or the interest for the certificate that
  it asks for (retry 3, one step further).
\<close>

datatype decision = CallVerified | CallUnverified | FetchCertificate interest

definition lookup_trusted ::
    "(identity_certificate, 's) cache_ops \<Rightarrow> int \<Rightarrow> name \<Rightarrow> 's policy_manager \<Rightarrow>
      (identity_certificate option \<times> 's policy_manager) result" where
  "lookup_trusted ops now keyLocatorName m =
     (case map_of (pm_trustAnchors m) keyLocatorName of
        None \<Rightarrow> bindE (co_get ops now keyLocatorName (pm_cache m)) (\<lambda>(c, s). Inr (c, m\<lparr> pm_cache := s \<rparr>))
      | Some c \<Rightarrow> Inr (Some c, m))"

definition CHILD_RIGHT :: byte where "CHILD_RIGHT = 1"

text \<open>The body of the loop for a rule that is satisfied.\<close>

definition check_signer ::
    "rsa \<Rightarrow> (identity_certificate, 's) cache_ops \<Rightarrow> int \<Rightarrow> ndn_data \<Rightarrow> 's policy_manager \<Rightarrow> (decision \<times> 's policy_manager) result" where
  "check_signer rsa_verify ops now data m =
     (case d_signature data of
        None \<Rightarrow> Inl UndefinedBehaviour
      | Some sha256sig \<Rightarrow>
          if KEYNAME \<noteq> getType (m_keyLocator sha256sig) then Inr (CallUnverified, m)
          else bindE (getKeyName (m_keyLocator sha256sig)) (\<lambda>keyLocatorName.
            bindE (lookup_trusted ops now keyLocatorName m) (\<lambda>(trustedCert, m).
              case trustedCert of
                Some c \<Rightarrow>
                  bindE (verifySignature rsa_verify data (c_key c)) (\<lambda>ok.
                    Inr (if ok then CallVerified else CallUnverified, m))
              | None \<Rightarrow>
                  Inr (FetchCertificate (setChildSelector CHILD_RIGHT (new_interest keyLocatorName)), m))))"

definition checkVerificationPolicy ::
    "boost_regex \<Rightarrow> rsa \<Rightarrow> (identity_certificate, 's) cache_ops \<Rightarrow> int \<Rightarrow> ndn_data \<Rightarrow> int \<Rightarrow> 's policy_manager \<Rightarrow>
      (decision \<times> 's policy_manager) result" where
  "checkVerificationPolicy rx rsa_verify ops now data stepCount m =
     (if pm_stepLimit m = stepCount then Inr (CallUnverified, m)
      else bindE (first_match (satisfy rx data) (pm_mustFailVerify m) (pm_rules m)) (\<lambda>(found, h).
        if found \<noteq> None then Inr (CallUnverified, m\<lparr> pm_rules := h \<rparr>)
        else bindE (first_match (satisfy rx data) (pm_verifyPolicies m) h) (\<lambda>(found, h).
          if found = None then Inr (CallUnverified, m\<lparr> pm_rules := h \<rparr>)
          else check_signer rsa_verify ops now data (m\<lparr> pm_rules := h \<rparr>))))"

section \<open>Driving the verification\<close>

text \<open>Who waits for a packet: the application's closure \<open>i\<close>, or the data that its certificate may verify.\<close>

datatype cont = User nat | ForData ndn_data cont

record request =
  rq_interest :: interest
  rq_cont :: cont
  rq_retry :: nat
  rq_step :: int

datatype task = RunData cont ndn_data | RunUnverified cont ndn_data | RunTimeout request

datatype verdict = Verified nat ndn_data | Unverified nat ndn_data | TimedOut nat

text \<open>\<open>Keychain::verifyData\<close>: the interests that it sends and the tasks that its callbacks queue.\<close>

definition verifyData ::
    "boost_regex \<Rightarrow> rsa \<Rightarrow> (identity_certificate, 's) cache_ops \<Rightarrow> int \<Rightarrow> ndn_data \<Rightarrow> cont \<Rightarrow> int \<Rightarrow> 's policy_manager \<Rightarrow>
      (request list \<times> task list \<times> 's policy_manager) result" where
  "verifyData rx rsa_verify ops now data k stepCount m =
     bindE (requireVerify rx data m) (\<lambda>(required, m).
       if required then
         bindE (checkVerificationPolicy rx rsa_verify ops now data stepCount m) (\<lambda>(d, m).
           Inr (case d of
                  CallVerified \<Rightarrow> ([], [RunData k data], m)
                | CallUnverified \<Rightarrow> ([], [RunUnverified k data], m)
                | FetchCertificate i \<Rightarrow>
                    ([\<lparr> rq_interest = i, rq_cont = ForData data k, rq_retry = 3, rq_step = stepCount + 1 \<rparr>], [], m)))
       else bindE (skipVerifyAndTrust rx data m) (\<lambda>(skip, m).
              Inr ([], [if skip then RunData k data else RunUnverified k data], m)))"

text \<open>\<open>onCertificateVerified\<close>: a wrong signature calls neither callback.\<close>

definition onCertificateVerified ::
    "rsa \<Rightarrow> (string \<Rightarrow> ptime result) \<Rightarrow> (identity_certificate, 's) cache_ops \<Rightarrow> int \<Rightarrow> ndn_data \<Rightarrow> ndn_data \<Rightarrow> cont \<Rightarrow>
      's policy_manager \<Rightarrow> (task list \<times> 's policy_manager) result" where
  "onCertificateVerified rsa_verify from_iso ops now signCertificate data k m =
     bindE (identity_certificate_of_data from_iso signCertificate) (\<lambda>certificate.
       if \<not> isTooLate (PTime now) certificate \<and> \<not> isTooEarly (PTime now) certificate then
         bindE (co_insert ops now certificate (pm_cache m)) (\<lambda>s.
           let m = m\<lparr> pm_cache := s \<rparr>
           in bindE (verifySignature rsa_verify data (c_key certificate)) (\<lambda>ok.
                Inr (if ok then [RunData k data] else [], m)))
       else Inr ([RunUnverified k data], m))"

definition onCertificateUnverified :: "ndn_data \<Rightarrow> cont \<Rightarrow> task list" where
  "onCertificateUnverified data k = [RunUnverified k data]"

definition onCertificateInterestTimeout :: "request \<Rightarrow> ndn_data \<Rightarrow> cont \<Rightarrow> request list \<times> task list" where
  "onCertificateInterestTimeout r data k =
     (if rq_retry r > 0 then ([r\<lparr> rq_retry := rq_retry r - 1 \<rparr>], []) else ([], [RunUnverified k data]))"

record 's vstate =
  vs_manager :: "'s policy_manager"
  vs_pending :: "request list"
  vs_tasks :: "task list"
  vs_log :: "verdict list"

text \<open>One task of the executor: what it sends, queues and reports.\<close>

fun run_task ::
    "rsa \<Rightarrow> (string \<Rightarrow> ptime result) \<Rightarrow> (identity_certificate, 's) cache_ops \<Rightarrow> int \<Rightarrow> task \<Rightarrow> 's policy_manager \<Rightarrow>
      (request list \<times> task list \<times> verdict list \<times> 's policy_manager) result" where
  "run_task rsa_verify from_iso ops now (RunData (User i) d) m = Inr ([], [], [Verified i d], m)"
| "run_task rsa_verify from_iso ops now (RunData (ForData d k) c) m =
     bindE (onCertificateVerified rsa_verify from_iso ops now c d k m) (\<lambda>(ts, m). Inr ([], ts, [], m))"
| "run_task rsa_verify from_iso ops now (RunUnverified (User i) d) m = Inr ([], [], [Unverified i d], m)"
| "run_task rsa_verify from_iso ops now (RunUnverified (ForData d k) c) m = Inr ([], onCertificateUnverified d k, [], m)"
| "run_task rsa_verify from_iso ops now (RunTimeout r) m =
     Inr (case rq_cont r of
            User i \<Rightarrow> ([], [], [TimedOut i], m)
          | ForData d k \<Rightarrow> (case onCertificateInterestTimeout r d k of (rs, ts) \<Rightarrow> (rs, ts, [], m)))"

text \<open>Rules and expressions that differ only in the results of earlier matches.\<close>

definition regex_like :: "regex_top \<Rightarrow> regex_top \<Rightarrow> bool" where
  "regex_like t t' \<longleftrightarrow>
     m_expand t = m_expand t' \<and> m_primaryMatcher t = m_primaryMatcher t' \<and> m_secondaryMatcher t = m_secondaryMatcher t'"

definition rule_like :: "policy_rule \<Rightarrow> policy_rule \<Rightarrow> bool" where
  "rule_like r r' \<longleftrightarrow>
     pr_isPositive r = pr_isPositive r' \<and> pr_op r = pr_op r' \<and>
     regex_like (pr_dataNameRegex r) (pr_dataNameRegex r') \<and> regex_like (pr_signerNameRegex r) (pr_signerNameRegex r')"

definition manager_like :: "'s policy_manager \<Rightarrow> 's policy_manager \<Rightarrow> bool" where
  "manager_like m m' \<longleftrightarrow>
     m' = m\<lparr> pm_cache := pm_cache m', pm_rules := pm_rules m', pm_regexes := pm_regexes m' \<rparr> \<and>
     (\<forall>p. rule_like (pm_rules m p) (pm_rules m' p)) \<and> (\<forall>p. regex_like (pm_regexes m p) (pm_regexes m' p))"

text \<open>
  The steps of the system: the application expresses an interest, a packet or a timeout arrives for
  an outstanding interest, the executor runs its next task, the cache is cleaned.  An exception loses the
  request or task; the expressions keep some match results, the cache what it had got until then.
\<close>

datatype vlabel = Expresses int | Proceeds | Cleans

inductive vstep ::
    "boost_regex \<Rightarrow> rsa \<Rightarrow> (string \<Rightarrow> ptime result) \<Rightarrow> (identity_certificate, 's) cache_ops \<Rightarrow>
      vlabel \<Rightarrow> 's vstate \<Rightarrow> 's vstate \<Rightarrow> bool"
  for rx rsa_verify from_iso ops
where
  express: "vstep rx rsa_verify from_iso ops (Expresses stepCount) st
     (st\<lparr> vs_pending := vs_pending st @ [\<lparr> rq_interest = i, rq_cont = User u, rq_retry = 0, rq_step = stepCount \<rparr>] \<rparr>)"
| incomingData: "vs_pending st = before @ r # after \<Longrightarrow>
     verifyData rx rsa_verify ops now data (rq_cont r) (rq_step r) (vs_manager st) = Inr (rs, ts, m) \<Longrightarrow>
     vstep rx rsa_verify from_iso ops Proceeds st
       (st\<lparr> vs_manager := m, vs_pending := before @ after @ rs, vs_tasks := vs_tasks st @ ts \<rparr>)"
| incomingData_throws: "vs_pending st = before @ r # after \<Longrightarrow>
     verifyData rx rsa_verify ops now data (rq_cont r) (rq_step r) (vs_manager st) = Inl e \<Longrightarrow>
     manager_like (vs_manager st) m \<Longrightarrow>
     pm_cache m = pm_cache (vs_manager st) \<or> co_get ops now n (pm_cache (vs_manager st)) = Inr (c, pm_cache m) \<Longrightarrow>
     vstep rx rsa_verify from_iso ops Proceeds st (st\<lparr> vs_manager := m, vs_pending := before @ after \<rparr>)"
| timeout: "vs_pending st = before @ r # after \<Longrightarrow>
     vstep rx rsa_verify from_iso ops Proceeds st
       (st\<lparr> vs_pending := before @ after, vs_tasks := vs_tasks st @ [RunTimeout r] \<rparr>)"
| execute: "vs_tasks st = t # rest \<Longrightarrow>
     run_task rsa_verify from_iso ops now t (vs_manager st) = Inr (rs, ts, l, m) \<Longrightarrow>
     vstep rx rsa_verify from_iso ops Proceeds st
       (st\<lparr> vs_manager := m, vs_pending := vs_pending st @ rs, vs_tasks := rest @ ts, vs_log := vs_log st @ l \<rparr>)"
| execute_throws: "vs_tasks st = RunData (ForData d k) c # rest \<Longrightarrow>
     onCertificateVerified rsa_verify from_iso ops now c d k (vs_manager st) = Inl e \<Longrightarrow>
     m = vs_manager st \<or>
       (\<exists>ic s. identity_certificate_of_data from_iso c = Inr ic \<and>
          \<not> isTooLate (PTime now) ic \<and> \<not> isTooEarly (PTime now) ic \<and>
          co_insert ops now ic (pm_cache (vs_manager st)) = Inr s \<and> m = (vs_manager st)\<lparr> pm_cache := s \<rparr>) \<Longrightarrow>
     vstep rx rsa_verify from_iso ops Proceeds st (st\<lparr> vs_manager := m, vs_tasks := rest \<rparr>)"
| cleaning: "vstep rx rsa_verify from_iso ops Cleans st
     (st\<lparr> vs_manager := (vs_manager st)\<lparr> pm_cache := co_clean ops now (pm_cache (vs_manager st)) \<rparr> \<rparr>)"

text \<open>
  Reachable states, with the number of interests of the application and of later steps; the closures of the
  application start with a step count of \<open>counts\<close>.
\<close>

inductive vreach ::
    "boost_regex \<Rightarrow> rsa \<Rightarrow> (string \<Rightarrow> ptime result) \<Rightarrow> (identity_certificate, 's) cache_ops \<Rightarrow> int set \<Rightarrow>
      's vstate \<Rightarrow> nat \<Rightarrow> nat \<Rightarrow> 's vstate \<Rightarrow> bool"
  for rx rsa_verify from_iso ops counts st0
where
  start: "vreach rx rsa_verify from_iso ops counts st0 0 0 st0"
| expresses: "vreach rx rsa_verify from_iso ops counts st0 a b st \<Longrightarrow>
     vstep rx rsa_verify from_iso ops (Expresses stepCount) st st' \<Longrightarrow> stepCount \<in> counts \<Longrightarrow>
     vreach rx rsa_verify from_iso ops counts st0 (a + 1) b st'"
| proceeds: "vreach rx rsa_verify from_iso ops counts st0 a b st \<Longrightarrow> vstep rx rsa_verify from_iso ops Proceeds st st' \<Longrightarrow>
     vreach rx rsa_verify from_iso ops counts st0 a (b + 1) st'"
| cleans: "vreach rx rsa_verify from_iso ops counts st0 a b st \<Longrightarrow> vstep rx rsa_verify from_iso ops Cleans st st' \<Longrightarrow>
     vreach rx rsa_verify from_iso ops counts st0 a b st'"

definition start_state :: "'s policy_manager \<Rightarrow> 's vstate" where
  "start_state m = \<lparr> vs_manager = m, vs_pending = [], vs_tasks = [], vs_log = [] \<rparr>"

section \<open>Matching keeps rules what they are\<close>

lemma regex_like_refl [simp]: "regex_like t t" and rule_like_refl [simp]: "rule_like r r"
  by (simp_all add: regex_like_def rule_like_def)

lemma regex_like_trans: "regex_like a b \<Longrightarrow> regex_like b c \<Longrightarrow> regex_like a c"
  by (simp add: regex_like_def)

lemma rule_like_trans: "rule_like a b \<Longrightarrow> rule_like b c \<Longrightarrow> rule_like a c"
  by (auto simp: rule_like_def intro: regex_like_trans)

lemma manager_like_refl [simp]: "manager_like m m"
  by (simp add: manager_like_def)

lemma manager_like_trans: "manager_like a b \<Longrightarrow> manager_like b c \<Longrightarrow> manager_like a c"
  by (cases a; cases b; cases c) (auto simp: manager_like_def intro: rule_like_trans regex_like_trans)

lemma top_match_like: "top_match rx t n = Inr (b, t') \<Longrightarrow> regex_like t t'"
  by (auto simp: top_match_def Let_def bindE_Inr_iff regex_like_def split: option.splits)

definition keeps :: "('o \<Rightarrow> 'o \<Rightarrow> bool) \<Rightarrow> ('o \<Rightarrow> (bool \<times> 'o) result) \<Rightarrow> bool" where
  "keeps L f \<longleftrightarrow> (\<forall>r b r'. f r = Inr (b, r') \<longrightarrow> L r r')"

lemma top_match_keeps: "keeps regex_like (\<lambda>t. top_match rx t n)"
  by (auto simp: keeps_def dest: top_match_like)

lemma matchDataName_keeps: "keeps rule_like (matchDataName rx d)"
  by (auto simp: keeps_def matchDataName_def bindE_Inr_iff rule_like_def dest: top_match_like)

lemma satisfy_names_keeps: "keeps rule_like (\<lambda>r. satisfy_names rx r dn sn)"
  by (auto simp: keeps_def satisfy_names_def Let_def bindE_Inr_iff rule_like_def split: if_splits dest!: top_match_like)

lemma satisfy_keeps: "keeps rule_like (satisfy rx d)"
  using satisfy_names_keeps by (fastforce simp: keeps_def satisfy_def bindE_Inr_iff)

text \<open>
  The search loops, for any such likeness: every object keeps its likeness, the object found was
  accepted in some state, and where nothing is found every object was refused.
\<close>

locale likeness =
  fixes like :: "'o \<Rightarrow> 'o \<Rightarrow> bool"
  assumes like_refl: "like a a"
    and like_trans: "like a b \<Longrightarrow> like b c \<Longrightarrow> like a c"
begin

lemma search_cases:
  assumes "first_match f (p # ps) h = Inr (found, h')" and "keeps like f"
  obtains (hit) r where "f (h p) = Inr (True, r)" "found = Some p" "h' = h(p := r)" "\<And>q. like (h q) ((h(p := r)) q)"
    | (miss) r where "f (h p) = Inr (False, r)" "first_match f ps (h(p := r)) = Inr (found, h')"
        "\<And>q. like (h q) ((h(p := r)) q)"
proof -
  obtain b r where r: "f (h p) = Inr (b, r)" using assms(1) by (auto simp: bindE_Inr_iff)
  have "like (h q) ((h(p := r)) q)" for q using assms(2) r like_refl by (simp add: keeps_def)
  then show ?thesis using that r assms(1) by (cases b) auto
qed

lemma search_keeps:
  assumes "first_match f ps h = Inr (found, h')" and f: "keeps like f"
  shows "like (h q) (h' q)"
  using assms(1)
proof (induction ps arbitrary: h)
  case (Cons p ps)
  from Cons.prems f show ?case
  proof (cases rule: search_cases)
    case (miss r)
    then show ?thesis using Cons.IH [OF miss(2)] like_trans by blast
  qed simp
qed (simp add: like_refl)

lemma search_found:
  assumes "first_match f ps h = Inr (Some p, h')" and f: "keeps like f"
  shows "p \<in> set ps \<and> (\<exists>r r'. like (h p) r \<and> f r = Inr (True, r'))"
  using assms(1)
proof (induction ps arbitrary: h)
  case (Cons q ps)
  from Cons.prems f show ?case
  proof (cases rule: search_cases)
    case (hit r)
    then show ?thesis using like_refl by auto
  next
    case (miss r)
    obtain s s' where "p \<in> set ps" "like ((h(q := r)) p) s" "f s = Inr (True, s')" using Cons.IH [OF miss(2)] by blast
    then show ?thesis using like_trans [OF miss(3)] by (meson list.set_intros(2))
  qed
qed simp

lemma search_none:
  assumes "first_match f ps h = Inr (None, h')" and f: "keeps like f" and "p \<in> set ps"
  shows "\<exists>r r'. like (h p) r \<and> f r = Inr (False, r')"
  using assms(1,3)
proof (induction ps arbitrary: h)
  case (Cons q ps)
  from Cons.prems(1) f show ?case
  proof (cases rule: search_cases)
    case (miss r)
    show ?thesis
    proof (cases "p = q")
      case True
      then show ?thesis using miss(1) like_refl by blast
    next
      case False
      then have "p \<in> set ps" using Cons.prems(2) by simp
      then obtain s s' where "like ((h(q := r)) p) s" "f s = Inr (False, s')" using Cons.IH [OF miss(2)] by blast
      then show ?thesis using like_trans [OF miss(3)] by blast
    qed
  qed simp
qed simp

end

interpretation rules: likeness rule_like
  by unfold_locales (auto intro: rule_like_trans)

interpretation regexes: likeness regex_like
  by unfold_locales (auto intro: regex_like_trans)

lemma requireVerify_like:
  assumes "requireVerify rx d m = Inr (b, m')"
  shows "manager_like m m' \<and> pm_cache m' = pm_cache m"
proof -
  obtain f h where 1: "first_match (matchDataName rx d) (pm_verifyPolicies m) (pm_rules m) = Inr (f, h)"
    using assms by (auto simp: requireVerify_def bindE_Inr_iff)
  note k1 = rules.search_keeps [OF 1 matchDataName_keeps]
  show ?thesis
  proof (cases "f \<noteq> None")
    case True
    then show ?thesis using assms 1 k1 by (auto simp: requireVerify_def manager_like_def)
  next
    case False
    then obtain g h' where 2: "first_match (matchDataName rx d) (pm_mustFailVerify m) h = Inr (g, h')"
        "m' = m\<lparr> pm_rules := h' \<rparr>"
      using assms 1 by (auto simp: requireVerify_def bindE_Inr_iff)
    then show ?thesis
      using rule_like_trans [OF k1 rules.search_keeps [OF 2(1) matchDataName_keeps]] by (simp add: manager_like_def)
  qed
qed

lemma skipVerify_like:
  assumes "skipVerifyAndTrust rx d m = Inr (b, m')"
  shows "manager_like m m' \<and> pm_cache m' = pm_cache m \<and>
    (b \<longrightarrow> (\<exists>p\<in>set (pm_verifyExempt m). \<exists>t t'. regex_like (pm_regexes m p) t \<and> top_match rx t (d_name d) = Inr (True, t')))"
proof -
  obtain f h where 1: "first_match (\<lambda>t. top_match rx t (d_name d)) (pm_verifyExempt m) (pm_regexes m) = Inr (f, h)"
      "b = (f \<noteq> None)" "m' = m\<lparr> pm_regexes := h \<rparr>"
    using assms by (auto simp: skipVerifyAndTrust_def bindE_Inr_iff)
  have "manager_like m m'" using regexes.search_keeps [OF 1(1) top_match_keeps] 1(3) by (simp add: manager_like_def)
  moreover have "p \<in> set (pm_verifyExempt m) \<and> (\<exists>t t'. regex_like (pm_regexes m p) t \<and> top_match rx t (d_name d) = Inr (True, t'))"
    if "f = Some p" for p
    using regexes.search_found [OF _ top_match_keeps] 1(1) that by blast
  ultimately show ?thesis using 1 by (cases f) auto
qed

section \<open>Trust\<close>

text \<open>
  What the policy says of a packet, whatever its rules matched before: a rule of the verification
  policy is satisfied, no rule that must fail is, an exemption matches.
\<close>

definition approves :: "boost_regex \<Rightarrow> 's policy_manager \<Rightarrow> ndn_data \<Rightarrow> bool" where
  "approves rx m d \<longleftrightarrow>
     (\<exists>p\<in>set (pm_verifyPolicies m). \<exists>r r'. rule_like (pm_rules m p) r \<and> satisfy rx d r = Inr (True, r')) \<and>
     (\<forall>p\<in>set (pm_mustFailVerify m). \<exists>r r'. rule_like (pm_rules m p) r \<and> satisfy rx d r = Inr (False, r'))"

definition exempts :: "boost_regex \<Rightarrow> 's policy_manager \<Rightarrow> ndn_data \<Rightarrow> bool" where
  "exempts rx m d \<longleftrightarrow>
     (\<exists>p\<in>set (pm_verifyExempt m). \<exists>t t'. regex_like (pm_regexes m p) t \<and> top_match rx t (d_name d) = Inr (True, t'))"

text \<open>A chain of trust: exempt, or allowed by the policy and signed with the key of an anchor or of a
  certificate that is itself trusted and was valid when it was accepted.\<close>

inductive trusted :: "boost_regex \<Rightarrow> rsa \<Rightarrow> (string \<Rightarrow> ptime result) \<Rightarrow> 's policy_manager \<Rightarrow> ndn_data \<Rightarrow> bool"
  for rx rsa_verify from_iso m
where
  trust_exempt: "exempts rx m d \<Longrightarrow> trusted rx rsa_verify from_iso m d"
| trust_anchor: "approves rx m d \<Longrightarrow> signer_name d = Inr n \<Longrightarrow> map_of (pm_trustAnchors m) n = Some c \<Longrightarrow>
     verifySignature rsa_verify d (c_key c) = Inr True \<Longrightarrow> trusted rx rsa_verify from_iso m d"
| trust_chain: "approves rx m d \<Longrightarrow> trusted rx rsa_verify from_iso m cd \<Longrightarrow>
     identity_certificate_of_data from_iso cd = Inr c \<Longrightarrow>
     \<not> isTooLate (PTime now) c \<Longrightarrow> \<not> isTooEarly (PTime now) c \<Longrightarrow>
     verifySignature rsa_verify d (c_key c) = Inr True \<Longrightarrow> trusted rx rsa_verify from_iso m d"

lemma manager_like_fields:
  assumes "manager_like m m'"
  shows "pm_verifyPolicies m' = pm_verifyPolicies m" "pm_mustFailVerify m' = pm_mustFailVerify m"
    "pm_verifyExempt m' = pm_verifyExempt m" "pm_trustAnchors m' = pm_trustAnchors m" "pm_stepLimit m' = pm_stepLimit m"
    "rule_like (pm_rules m p) (pm_rules m' p)" "regex_like (pm_regexes m p) (pm_regexes m' p)"
  using assms by (cases m; cases m'; auto simp: manager_like_def)+

lemma approves_like:
  assumes "manager_like m m'" and "approves rx m' d"
  shows "approves rx m d"
proof -
  note e = manager_like_fields [OF assms(1)]
  have "rule_like (pm_rules m' p) r \<Longrightarrow> rule_like (pm_rules m p) r" for p r using e(6) rule_like_trans by blast
  then show ?thesis using assms(2) unfolding approves_def e(1,2) by meson
qed

lemma exempts_like:
  assumes "manager_like m m'" and "exempts rx m' d"
  shows "exempts rx m d"
proof -
  note e = manager_like_fields [OF assms(1)]
  have "regex_like (pm_regexes m' p) r \<Longrightarrow> regex_like (pm_regexes m p) r" for p r using e(7) regex_like_trans by blast
  then show ?thesis using assms(2) unfolding exempts_def e(3) by meson
qed

lemma manager_like_cache [simp]: "manager_like m (m'\<lparr> pm_cache := s \<rparr>) \<longleftrightarrow> manager_like m m'"
  by (cases m; cases m') (auto simp: manager_like_def)

text \<open>What a run of the system is about: the external functions and the manager it starts with.\<close>

record 's setting =
  tx_rx :: boost_regex
  tx_rsa :: rsa
  tx_iso :: "string \<Rightarrow> ptime result"
  tx_m0 :: "'s policy_manager"

definition trust :: "'s setting \<Rightarrow> ndn_data \<Rightarrow> bool" where
  "trust T d \<longleftrightarrow> trusted (tx_rx T) (tx_rsa T) (tx_iso T) (tx_m0 T) d"

definition good_cert :: "'s setting \<Rightarrow> identity_certificate \<Rightarrow> bool" where
  "good_cert T c \<longleftrightarrow> (\<exists>cd now. trust T cd \<and> identity_certificate_of_data (tx_iso T) cd = Inr c \<and>
     \<not> isTooLate (PTime now) c \<and> \<not> isTooEarly (PTime now) c)"

definition manager_ok :: "'s setting \<Rightarrow> ('s \<Rightarrow> identity_certificate set) \<Rightarrow> 's policy_manager \<Rightarrow> bool" where
  "manager_ok T held m \<longleftrightarrow> manager_like (tx_m0 T) m \<and> (\<forall>c\<in>held (pm_cache m). good_cert T c)"

primrec cont_ok :: "'s setting \<Rightarrow> cont \<Rightarrow> bool" where
  "cont_ok T (User i) \<longleftrightarrow> True"
| "cont_ok T (ForData d k) \<longleftrightarrow> approves (tx_rx T) (tx_m0 T) d \<and> cont_ok T k"

primrec task_ok :: "'s setting \<Rightarrow> task \<Rightarrow> bool" where
  "task_ok T (RunData k d) \<longleftrightarrow> trust T d \<and> cont_ok T k"
| "task_ok T (RunUnverified k d) \<longleftrightarrow> cont_ok T k"
| "task_ok T (RunTimeout r) \<longleftrightarrow> cont_ok T (rq_cont r)"

definition state_ok :: "'s setting \<Rightarrow> ('s \<Rightarrow> identity_certificate set) \<Rightarrow> 's vstate \<Rightarrow> bool" where
  "state_ok T held st \<longleftrightarrow> manager_ok T held (vs_manager st) \<and> (\<forall>r\<in>set (vs_pending st). cont_ok T (rq_cont r)) \<and>
     (\<forall>t\<in>set (vs_tasks st). task_ok T t) \<and> (\<forall>u d. Verified u d \<in> set (vs_log st) \<longrightarrow> trust T d)"

locale trust_store = certificate_store ops held init
  for ops :: "(identity_certificate, 's) cache_ops" and held and init
begin

lemma manager_ok_like: "manager_ok T held m \<Longrightarrow> manager_like m m' \<Longrightarrow> held (pm_cache m') \<subseteq> held (pm_cache m) \<Longrightarrow> manager_ok T held m'"
  using manager_like_trans by (auto simp: manager_ok_def)

lemma policy_passed:
  assumes ok: "manager_ok T held m"
    and deny: "first_match (satisfy (tx_rx T) d) (pm_mustFailVerify m) (pm_rules m) = Inr (None, h)"
    and allow: "first_match (satisfy (tx_rx T) d) (pm_verifyPolicies m) h = Inr (Some p, h')"
  shows "approves (tx_rx T) (tx_m0 T) d" and "manager_like m (m\<lparr> pm_rules := h' \<rparr>)"
proof -
  have l: "rule_like (pm_rules m q) (h q)" for q using rules.search_keeps [OF deny satisfy_keeps] .
  have l': "rule_like (pm_rules m q) (h' q)" for q
    using rule_like_trans [OF l rules.search_keeps [OF allow satisfy_keeps]] .
  obtain r r' where "p \<in> set (pm_verifyPolicies m)" "rule_like (h p) r" "satisfy (tx_rx T) d r = Inr (True, r')"
    using rules.search_found [OF allow satisfy_keeps] by blast
  moreover have "\<exists>r r'. rule_like (pm_rules m q) r \<and> satisfy (tx_rx T) d r = Inr (False, r')" if "q \<in> set (pm_mustFailVerify m)" for q
    using rules.search_none [OF deny satisfy_keeps that] .
  ultimately have "approves (tx_rx T) m d" unfolding approves_def using rule_like_trans [OF l] by blast
  then show "approves (tx_rx T) (tx_m0 T) d" using ok approves_like by (auto simp: manager_ok_def)
  show "manager_like m (m\<lparr> pm_rules := h' \<rparr>)" using l' by (simp add: manager_like_def)
qed

lemma lookup_ok:
  assumes "manager_ok T held m" and "lookup_trusted ops now n m = Inr (c, m')"
  shows "manager_ok T held m'" and "c = Some x \<Longrightarrow> map_of (pm_trustAnchors (tx_m0 T)) n = Some x \<or> good_cert T x"
proof -
  have a: "pm_trustAnchors m = pm_trustAnchors (tx_m0 T)" using assms(1) manager_like_fields(4) by (auto simp: manager_ok_def)
  show "manager_ok T held m'" "c = Some x \<Longrightarrow> map_of (pm_trustAnchors (tx_m0 T)) n = Some x \<or> good_cert T x"
  proof (atomize (full), cases "map_of (pm_trustAnchors m) n")
    case None
    then obtain s where g: "co_get ops now n (pm_cache m) = Inr (c, s)" "m' = m\<lparr> pm_cache := s \<rparr>"
      using assms(2) by (auto simp: lookup_trusted_def bindE_Inr_iff)
    then show "manager_ok T held m' \<and> (c = Some x \<longrightarrow> map_of (pm_trustAnchors (tx_m0 T)) n = Some x \<or> good_cert T x)"
      using assms(1) get_held [OF g(1)] by (auto simp: manager_ok_def)
  next
    case (Some y)
    then show "manager_ok T held m' \<and> (c = Some x \<longrightarrow> map_of (pm_trustAnchors (tx_m0 T)) n = Some x \<or> good_cert T x)"
      using assms a by (auto simp: lookup_trusted_def)
  qed
qed

lemma check_signer_ok:
  assumes ok: "manager_ok T held m" and pass: "approves (tx_rx T) (tx_m0 T) d" and "check_signer (tx_rsa T) ops now d m = Inr (dec, m')"
  shows "manager_ok T held m' \<and> (dec = CallVerified \<longrightarrow> trust T d)"
proof -
  obtain sig where sig: "d_signature d = Some sig" using assms(3) by (cases "d_signature d") (auto simp: check_signer_def)
  show ?thesis
  proof (cases "KEYNAME \<noteq> getType (m_keyLocator sig)")
    case True
    then show ?thesis using assms(3) sig ok by (auto simp: check_signer_def)
  next
    case False
    then obtain n t m1 where n: "getKeyName (m_keyLocator sig) = Inr n" and t: "lookup_trusted ops now n m = Inr (t, m1)"
      using assms(3) sig by (auto simp: check_signer_def bindE_Inr_iff)
    note lk = lookup_ok [OF ok t]
    show ?thesis
    proof (cases t)
      case (Some c)
      then obtain b where b: "verifySignature (tx_rsa T) d (c_key c) = Inr b"
          "dec = (if b then CallVerified else CallUnverified)" "m' = m1"
        using assms(3) sig False n t by (auto simp: check_signer_def bindE_Inr_iff)
      have "signer_name d = Inr n" using sig n by (simp add: signer_name_def)
      then have "trust T d" if b
        using trust_anchor [OF pass] trust_chain [OF pass] b that lk(2) [OF Some]
        by (auto simp: trust_def good_cert_def)
      then show ?thesis using b lk(1) by auto
    qed (use assms(3) sig False n t lk(1) in \<open>auto simp: check_signer_def\<close>)
  qed
qed

lemma check_ok:
  assumes ok: "manager_ok T held m" and "checkVerificationPolicy (tx_rx T) (tx_rsa T) ops now d sc m = Inr (dec, m')"
  shows "manager_ok T held m' \<and> (dec = CallVerified \<longrightarrow> trust T d) \<and> (\<forall>i. dec = FetchCertificate i \<longrightarrow> approves (tx_rx T) (tx_m0 T) d)"
proof (cases "pm_stepLimit m = sc")
  case True
  then show ?thesis using assms by (simp add: checkVerificationPolicy_def)
next
  case False
  then obtain f h where deny: "first_match (satisfy (tx_rx T) d) (pm_mustFailVerify m) (pm_rules m) = Inr (f, h)"
    using assms(2) by (auto simp: checkVerificationPolicy_def bindE_Inr_iff)
  have l: "rule_like (pm_rules m q) (h q)" for q using rules.search_keeps [OF deny satisfy_keeps] .
  have refused: "manager_ok T held (m\<lparr> pm_rules := h' \<rparr>)" if "\<And>q. rule_like (pm_rules m q) (h' q)" for h'
    using that manager_ok_like [OF ok, of "m\<lparr> pm_rules := h' \<rparr>"] by (simp add: manager_like_def)
  show ?thesis
  proof (cases f)
    case (Some p)
    then show ?thesis using assms(2) False deny refused [OF l] by (auto simp: checkVerificationPolicy_def)
  next
    case None
    note deny = deny [unfolded None]
    obtain g h' where allow: "first_match (satisfy (tx_rx T) d) (pm_verifyPolicies m) h = Inr (g, h')"
      using assms(2) False deny by (auto simp: checkVerificationPolicy_def bindE_Inr_iff)
    have l': "rule_like (pm_rules m q) (h' q)" for q
      using rule_like_trans [OF l rules.search_keeps [OF allow satisfy_keeps]] .
    show ?thesis
    proof (cases g)
      case None
      then show ?thesis using assms(2) False deny allow refused [OF l'] by (auto simp: checkVerificationPolicy_def)
    next
      case (Some p)
      then have "check_signer (tx_rsa T) ops now d (m\<lparr> pm_rules := h' \<rparr>) = Inr (dec, m')"
        using assms(2) False deny allow by (simp add: checkVerificationPolicy_def)
      then show ?thesis
        using policy_passed(1) [OF ok deny allow [unfolded Some]] check_signer_ok [OF refused [OF l']] by blast
    qed
  qed
qed

lemma verifyData_ok:
  assumes ok: "manager_ok T held m" and k: "cont_ok T k" and "verifyData (tx_rx T) (tx_rsa T) ops now d k sc m = Inr (rs, ts, m')"
  shows "manager_ok T held m' \<and> (\<forall>r\<in>set rs. cont_ok T (rq_cont r)) \<and> (\<forall>t\<in>set ts. task_ok T t)"
proof -
  obtain b m1 where r: "requireVerify (tx_rx T) d m = Inr (b, m1)" using assms(3) by (auto simp: verifyData_def bindE_Inr_iff)
  have ok1: "manager_ok T held m1" using requireVerify_like [OF r] manager_ok_like [OF ok] by simp
  show ?thesis
  proof (cases b)
    case True
    then obtain dec m2 where c: "checkVerificationPolicy (tx_rx T) (tx_rsa T) ops now d sc m1 = Inr (dec, m2)"
      using assms(3) r by (auto simp: verifyData_def bindE_Inr_iff)
    then show ?thesis using check_ok [OF ok1 c] k assms(3) r True by (cases dec) (auto simp: verifyData_def)
  next
    case False
    then obtain sk where s: "skipVerifyAndTrust (tx_rx T) d m1 = Inr (sk, m')" "rs = []"
        "ts = [if sk then RunData k d else RunUnverified k d]"
      using assms(3) r by (auto simp: verifyData_def bindE_Inr_iff)
    have "trust T d" if sk
    proof -
      have "exempts (tx_rx T) m1 d" using skipVerify_like [OF s(1)] that by (simp add: exempts_def)
      then have "exempts (tx_rx T) (tx_m0 T) d" using ok1 exempts_like by (auto simp: manager_ok_def)
      then show ?thesis by (simp add: trust_def trust_exempt)
    qed
    moreover have "manager_ok T held m'" using skipVerify_like [OF s(1)] manager_ok_like [OF ok1] by simp
    ultimately show ?thesis using s k by auto
  qed
qed

lemma insert_ok:
  assumes "manager_ok T held m" and "trust T cd" and "identity_certificate_of_data (tx_iso T) cd = Inr c"
    and "\<not> isTooLate (PTime now) c" "\<not> isTooEarly (PTime now) c" and "co_insert ops now c (pm_cache m) = Inr s"
  shows "manager_ok T held (m\<lparr> pm_cache := s \<rparr>)" and "good_cert T c"
proof -
  show g: "good_cert T c" using assms by (auto simp: good_cert_def)
  show "manager_ok T held (m\<lparr> pm_cache := s \<rparr>)" using assms(1) g insert_keeps [OF assms(6)] by (auto simp: manager_ok_def)
qed

lemma onCertificateVerified_ok:
  assumes ok: "manager_ok T held m" and "trust T cd" and d: "cont_ok T (ForData d k)"
    and "onCertificateVerified (tx_rsa T) (tx_iso T) ops now cd d k m = Inr (ts, m')"
  shows "manager_ok T held m' \<and> (\<forall>t\<in>set ts. task_ok T t)"
proof -
  obtain c where c: "identity_certificate_of_data (tx_iso T) cd = Inr c"
    using assms(4) by (auto simp: onCertificateVerified_def bindE_Inr_iff)
  show ?thesis
  proof (cases "\<not> isTooLate (PTime now) c \<and> \<not> isTooEarly (PTime now) c")
    case True
    then obtain s b where s: "co_insert ops now c (pm_cache m) = Inr s" "verifySignature (tx_rsa T) d (c_key c) = Inr b"
        "ts = (if b then [RunData k d] else [])" "m' = m\<lparr> pm_cache := s \<rparr>"
      using assms(4) c by (auto simp: onCertificateVerified_def bindE_Inr_iff Let_def)
    have "trust T d" if b using trust_chain [OF _ assms(2) [unfolded trust_def] c] True s(2) d that by (auto simp: trust_def)
    then show ?thesis using insert_ok [OF ok assms(2) c _ _ s(1)] True s d by auto
  next
    case False
    then have "ts = [RunUnverified k d]" "m' = m" using assms(4) c by (auto simp: onCertificateVerified_def)
    then show ?thesis using ok d by simp
  qed
qed

lemma run_task_ok:
  assumes "manager_ok T held m" and "task_ok T t" and "run_task (tx_rsa T) (tx_iso T) ops now t m = Inr (rs, ts, l, m')"
  shows "manager_ok T held m' \<and> (\<forall>r\<in>set rs. cont_ok T (rq_cont r)) \<and> (\<forall>t\<in>set ts. task_ok T t) \<and>
    (\<forall>u d. Verified u d \<in> set l \<longrightarrow> trust T d)"
proof (cases t)
  case (RunData k d)
  then show ?thesis
    using assms onCertificateVerified_ok [of T m d] by (cases k) (auto simp: bindE_Inr_iff)
next
  case (RunUnverified k d)
  then show ?thesis using assms by (cases k) (auto simp: onCertificateUnverified_def)
next
  case (RunTimeout r)
  then show ?thesis
    using assms by (cases "rq_cont r") (auto simp: onCertificateInterestTimeout_def split: if_splits)
qed

lemma step_ok: "vstep (tx_rx T) (tx_rsa T) (tx_iso T) ops b st st' \<Longrightarrow> state_ok T held st \<Longrightarrow> state_ok T held st'"
proof (induction rule: vstep.induct)
  case (incomingData st before r after now data rs ts m)
  then show ?case using verifyData_ok [of T "vs_manager st" "rq_cont r"] by (fastforce simp: state_ok_def)
next
  case (incomingData_throws st before r after now data e m n c)
  then have "held (pm_cache m) \<subseteq> held (pm_cache (vs_manager st))" using get_held by fastforce
  then show ?case using incomingData_throws manager_ok_like by (auto simp: state_ok_def)
next
  case (execute st t rest now rs ts l m)
  then show ?case using run_task_ok [of T "vs_manager st" t] by (fastforce simp: state_ok_def)
next
  case (execute_throws st d k c rest now e m)
  then have "manager_ok T held m" using insert_ok(1) by (auto simp: state_ok_def)
  then show ?case using execute_throws by (auto simp: state_ok_def)
next
  case (cleaning st now)
  then show ?case using clean_held by (auto simp: state_ok_def manager_ok_def)
qed (auto simp: state_ok_def)

lemma reach_ok: "vreach (tx_rx T) (tx_rsa T) (tx_iso T) ops counts (start_state (tx_m0 T)) a b st \<Longrightarrow> pm_cache (tx_m0 T) = init \<Longrightarrow> state_ok T held st"
proof (induction rule: vreach.induct)
  case start
  then show ?case using init_held by (simp add: state_ok_def start_state_def manager_ok_def)
qed (auto intro: step_ok)

lemma reported_trust:
  fixes T :: "'s setting"
  assumes "vreach (tx_rx T) (tx_rsa T) (tx_iso T) ops counts (start_state (tx_m0 T)) a b st" and "pm_cache (tx_m0 T) = init" and "Verified u d \<in> set (vs_log st)"
  shows "trusted (tx_rx T) (tx_rsa T) (tx_iso T) (tx_m0 T) d"
  using reach_ok [OF assms(1,2)] assms(3) by (auto simp: state_ok_def trust_def)

end

interpretation ttl_trust: trust_store ttl_ops ttl_held "new_ttl_cache maxSize"
  by (rule trust_store.intro) (rule ttl_store.certificate_store_axioms)

interpretation basic_trust: trust_store basic_ops basic_held "\<lparr> bc_cache = [] \<rparr>"
  by (rule trust_store.intro) (rule basic_store.certificate_store_axioms)

section \<open>Verification ends\<close>

primrec depth :: "cont \<Rightarrow> nat" where
  "depth (User i) = 0"
| "depth (ForData d k) = depth k + 1"

definition request_weight :: "int \<Rightarrow> request \<Rightarrow> nat" where
  "request_weight limit r = 2 * (rq_retry r + 1) + 9 * nat (limit - rq_step r) + depth (rq_cont r) + 1"

primrec task_weight :: "int \<Rightarrow> task \<Rightarrow> nat" where
  "task_weight limit (RunData k d) = depth k + 1"
| "task_weight limit (RunUnverified k d) = depth k + 1"
| "task_weight limit (RunTimeout r) = request_weight limit r - 1"

definition state_weight :: "int \<Rightarrow> 's vstate \<Rightarrow> nat" where
  "state_weight limit st =
     sum_list (map (request_weight limit) (vs_pending st)) + sum_list (map (task_weight limit) (vs_tasks st))"

definition within :: "int \<Rightarrow> 's vstate \<Rightarrow> bool" where
  "within limit st \<longleftrightarrow> pm_stepLimit (vs_manager st) = limit \<and>
     (\<forall>r\<in>set (vs_pending st). rq_step r \<le> limit) \<and> (\<forall>r. RunTimeout r \<in> set (vs_tasks st) \<longrightarrow> rq_step r \<le> limit)"

lemma lookup_limit: "lookup_trusted ops now n m = Inr (c, m') \<Longrightarrow> pm_stepLimit m' = pm_stepLimit m"
  by (auto simp: lookup_trusted_def bindE_Inr_iff split: option.splits)

lemma check_signer_limit: "check_signer rsa_verify ops now d m = Inr (dec, m') \<Longrightarrow> pm_stepLimit m' = pm_stepLimit m"
  by (auto simp: check_signer_def bindE_Inr_iff split: option.splits if_splits dest: lookup_limit)

lemma check_limit:
  assumes "checkVerificationPolicy rx rsa_verify ops now d sc m = Inr (dec, m')"
  shows "pm_stepLimit m' = pm_stepLimit m \<and> (dec = FetchCertificate i \<longrightarrow> pm_stepLimit m \<noteq> sc)"
  using assms
  by (auto simp: checkVerificationPolicy_def bindE_Inr_iff split: if_splits dest: check_signer_limit)

text \<open>What a packet leads to: one task, or one request that is a step further.\<close>

lemma verifyData_result:
  assumes "verifyData rx rsa_verify ops now d k sc m = Inr (rs, ts, m')"
  shows "pm_stepLimit m' = pm_stepLimit m \<and>
    (rs = [] \<and> (ts = [RunData k d] \<or> ts = [RunUnverified k d]) \<or>
     pm_stepLimit m \<noteq> sc \<and> ts = [] \<and> (\<exists>i. rs = [\<lparr> rq_interest = i, rq_cont = ForData d k, rq_retry = 3, rq_step = sc + 1 \<rparr>]))"
proof -
  obtain b m1 where r: "requireVerify rx d m = Inr (b, m1)" using assms by (auto simp: verifyData_def bindE_Inr_iff)
  have l: "pm_stepLimit m1 = pm_stepLimit m" using requireVerify_like [OF r] manager_like_fields(5) by blast
  show ?thesis
  proof (cases b)
    case True
    then obtain dec m2 where "checkVerificationPolicy rx rsa_verify ops now d sc m1 = Inr (dec, m2)"
      using assms r by (auto simp: verifyData_def bindE_Inr_iff)
    then show ?thesis using check_limit assms r True l by (cases dec) (fastforce simp: verifyData_def)+
  next
    case False
    then obtain sk where s: "skipVerifyAndTrust rx d m1 = Inr (sk, m')" "rs = []" "ts = [if sk then RunData k d else RunUnverified k d]"
      using assms r by (auto simp: verifyData_def bindE_Inr_iff)
    then have "pm_stepLimit m' = pm_stepLimit m1" using skipVerify_like manager_like_fields(5) by blast
    then show ?thesis using s l by auto
  qed
qed

lemma onCertificateVerified_result:
  "onCertificateVerified rsa_verify from_iso ops now c d k m = Inr (ts, m') \<Longrightarrow>
    pm_stepLimit m' = pm_stepLimit m \<and> (ts = [] \<or> ts = [RunData k d] \<or> ts = [RunUnverified k d])"
  by (auto simp: onCertificateVerified_def bindE_Inr_iff Let_def split: if_splits)

lemma run_task_weight:
  assumes "run_task rsa_verify from_iso ops now t m = Inr (rs, ts, l, m')"
    and "\<And>r. t = RunTimeout r \<Longrightarrow> rq_step r \<le> limit"
  shows "pm_stepLimit m' = pm_stepLimit m \<and> (\<forall>r\<in>set rs. rq_step r \<le> limit) \<and> (\<forall>r. RunTimeout r \<notin> set ts) \<and>
    sum_list (map (request_weight limit) rs) + sum_list (map (task_weight limit) ts) < task_weight limit t"
proof (cases t)
  case (RunData k d)
  then show ?thesis
    using assms(1) by (cases k) (auto simp: bindE_Inr_iff dest!: onCertificateVerified_result)
next
  case (RunUnverified k d)
  then show ?thesis using assms(1) by (cases k) (auto simp: onCertificateUnverified_def)
next
  case (RunTimeout r)
  then show ?thesis
    using assms by (cases "rq_cont r") (auto simp: onCertificateInterestTimeout_def request_weight_def split: if_splits)
qed

lemma arrival_weight:
  assumes "verifyData rx rsa_verify ops now d (rq_cont r) (rq_step r) m = Inr (rs, ts, m')"
    and "rq_step r \<le> pm_stepLimit m"
  shows "pm_stepLimit m' = pm_stepLimit m \<and> (\<forall>r\<in>set rs. rq_step r \<le> pm_stepLimit m) \<and> (\<forall>r. RunTimeout r \<notin> set ts) \<and>
    sum_list (map (request_weight (pm_stepLimit m)) rs) + sum_list (map (task_weight (pm_stepLimit m)) ts) <
    request_weight (pm_stepLimit m) r"
  using verifyData_result [OF assms(1)] assms(2) by (auto simp: request_weight_def)

lemma step_weight:
  assumes "vstep rx rsa_verify from_iso ops l st st'" and "within limit st" and "\<And>stepCount. l = Expresses stepCount \<Longrightarrow> 0 \<le> stepCount \<and> stepCount \<le> limit"
  shows "within limit st' \<and>
    (case l of Expresses _ \<Rightarrow> state_weight limit st' \<le> state_weight limit st + 9 * nat limit + 3
     | Proceeds \<Rightarrow> state_weight limit st' < state_weight limit st
     | Cleans \<Rightarrow> state_weight limit st' = state_weight limit st)"
  using assms
proof (cases rule: vstep.cases)
  case (incomingData before r after now data rs ts m)
  then have "rq_step r \<le> pm_stepLimit (vs_manager st)" using assms(2) by (simp add: within_def)
  from arrival_weight [OF incomingData(4) this] show ?thesis
    using incomingData assms(2) by (auto simp: within_def state_weight_def)
next
  case (incomingData_throws before r after now data e m n c)
  then show ?thesis
    using assms(2) manager_like_fields(5) [OF incomingData_throws(5)] by (auto simp: within_def state_weight_def request_weight_def)
next
  case (timeout before r after)
  then show ?thesis using assms(2) by (auto simp: within_def state_weight_def request_weight_def)
next
  case (execute t rest now rs ts lg m)
  have "rq_step r \<le> limit" if "t = RunTimeout r" for r using that assms(2) execute(3) by (auto simp: within_def)
  from run_task_weight [OF execute(4), of limit, OF this] show ?thesis
    using execute assms(2) by (auto simp: within_def state_weight_def)
qed (auto simp: within_def state_weight_def request_weight_def)

section \<open>Properties\<close>

text \<open>C1. However packets, timeouts, tasks, exceptions and rounds of cache cleaning interleave, a packet
  that is reported to the application as verified has a chain of trust: an exemption matches it, or the
  verification policy allows it and its signature was made with the key of a trust anchor, or of a
  certificate that is itself trusted in this sense and was valid when it was accepted.  The manager starts with an
  empty cache with expiry.\<close>

theorem verified_is_trusted:
  assumes "vreach rx rsa_verify from_iso ttl_ops counts (start_state m) a b st" and "pm_cache m = new_ttl_cache maxSize"
    and "Verified u d \<in> set (vs_log st)"
  shows "trusted rx rsa_verify from_iso m d"
  using ttl_trust.reported_trust [of "\<lparr> tx_rx = rx, tx_rsa = rsa_verify, tx_iso = from_iso, tx_m0 = m \<rparr>"] assms by simp

text \<open>C14. Verification ends: for every interest of the application at most \<open>9 * limit + 3\<close> later packets,
  timeouts and tasks are processed, where \<open>limit\<close> is the step limit of the manager, whatever
  certificates the network returns.  The closures of the application count their steps from any number between
  0, the default, and the limit; the code tests for equality, so a count beyond the limit would not be stopped.\<close>

theorem verification_ends:
  assumes "vreach rx rsa_verify from_iso ops counts (start_state m) a b st" and "counts \<subseteq> {0..pm_stepLimit m}"
  shows "b \<le> a * (9 * nat (pm_stepLimit m) + 3)"
proof -
  let ?L = "pm_stepLimit m"
  from assms(1) have "within ?L st \<and> b + state_weight ?L st \<le> a * (9 * nat ?L + 3)"
  proof (induction rule: vreach.induct)
    case start
    then show ?case by (simp add: within_def start_state_def state_weight_def)
  next
    case (expresses a b st stepCount st')
    then show ?case using step_weight [OF expresses(2), of ?L] assms(2) by (fastforce simp: algebra_simps)
  next
    case (proceeds a b st st')
    then show ?case using step_weight [OF proceeds(2), of ?L] by simp
  next
    case (cleans a b st st')
    then show ?case using step_weight [OF cleans(2), of ?L] by simp
  qed
  then show ?thesis by simp
qed

text \<open>A small run: a manager that exempts the empty name, one interest and its packet.\<close>

definition example_regex :: regex_top where
  "example_regex = \<lparr> m_expand = [], m_primaryMatcher = PatternList [], m_secondaryMatcher = None, m_primaryRefs = [],
     m_secondaryRefs = [], m_matchResult = [], m_secondaryUsed = False \<rparr>"

definition example_manager :: "identity_certificate ttl_cache policy_manager" where
  "example_manager = \<lparr> pm_stepLimit = 10, pm_cache = new_ttl_cache 5,
     pm_rules = (\<lambda>p. \<lparr> pr_isPositive = True, pr_op = ''>'', pr_dataNameRegex = example_regex, pr_signerNameRegex = example_regex \<rparr>),
     pm_regexes = (\<lambda>p. example_regex), pm_mustFailVerify = [], pm_verifyPolicies = [], pm_verifyExempt = [0],
     pm_signPolicies = [], pm_mustFailSign = [], pm_signInference = [], pm_trustAnchors = [] \<rparr>"

lemma example_verifyData:
  "verifyData rx rsa_verify ops now new_data (User 0) 0 example_manager = Inr ([], [RunData (User 0) new_data], example_manager)"
proof -
  have "top_match rx example_regex (Name []) = Inr (True, example_regex)"
    by (simp add: top_match_def example_regex_def name_size_def collect_def get_range_def Let_def)
  then show ?thesis
    by (simp add: verifyData_def requireVerify_def skipVerifyAndTrust_def example_manager_def new_data_def fun_upd_idem)
qed

lemma example_run:
  "\<exists>st. vreach rx rsa_verify from_iso ttl_ops {0} (start_state example_manager) 1 2 st \<and> Verified 0 new_data \<in> set (vs_log st)"
proof -
  let ?r = "\<lparr> rq_interest = new_interest (Name []), rq_cont = User 0, rq_retry = 0, rq_step = 0 \<rparr>"
  let ?s1 = "(start_state example_manager)\<lparr> vs_pending := [?r] \<rparr>"
  let ?s2 = "(start_state example_manager)\<lparr> vs_tasks := [RunData (User 0) new_data] \<rparr>"
  let ?s3 = "(start_state example_manager)\<lparr> vs_log := [Verified 0 new_data] \<rparr>"
  have 1: "vstep rx rsa_verify from_iso ttl_ops (Expresses 0) (start_state example_manager) ?s1"
    using express [of rx rsa_verify from_iso ttl_ops 0 "start_state example_manager" "new_interest (Name [])" 0] by (simp add: start_state_def)
  have 2: "vstep rx rsa_verify from_iso ttl_ops Proceeds ?s1 ?s2"
    using incomingData [of ?s1 "[]" ?r "[]" rx rsa_verify ttl_ops 0 new_data "[]" "[RunData (User 0) new_data]" example_manager]
      example_verifyData by (simp add: start_state_def)
  have 3: "vstep rx rsa_verify from_iso ttl_ops Proceeds ?s2 ?s3"
    using execute [of ?s2 "RunData (User 0) new_data" "[]" rsa_verify from_iso ttl_ops 0 "[]" "[]" "[Verified 0 new_data]" example_manager]
    by (simp add: start_state_def)
  have "vreach rx rsa_verify from_iso ttl_ops {0} (start_state example_manager) (0 + 1) (0 + 1 + 1) ?s3"
    using proceeds [OF proceeds [OF expresses [OF vreach.start 1, of "{0}"] 2] 3] by simp
  then show ?thesis by (intro exI [of _ ?s3]) (simp add: numeral_2_eq_2)
qed

theorem verified_is_trusted_witness:
  "\<exists>st. vreach \<lparr> rx_valid = (\<lambda>s. True), rx_mark_count = (\<lambda>s. 0), rx_match = (\<lambda>e s. None) \<rparr> (\<lambda>k b s. Inr False)
      (\<lambda>s. Inl StdOutOfRange) ttl_ops {0} (start_state example_manager) 1 2 st \<and> Verified 0 new_data \<in> set (vs_log st) \<and>
    trusted \<lparr> rx_valid = (\<lambda>s. True), rx_mark_count = (\<lambda>s. 0), rx_match = (\<lambda>e s. None) \<rparr> (\<lambda>k b s. Inr False)
      (\<lambda>s. Inl StdOutOfRange) example_manager new_data"
proof -
  have "pm_cache example_manager = new_ttl_cache 5" by (simp add: example_manager_def)
  then show ?thesis using example_run verified_is_trusted by blast
qed

theorem verification_ends_witness:
  "\<exists>st. vreach \<lparr> rx_valid = (\<lambda>s. True), rx_mark_count = (\<lambda>s. 0), rx_match = (\<lambda>e s. None) \<rparr> (\<lambda>k b s. Inr False)
      (\<lambda>s. Inl StdOutOfRange) ttl_ops {0} (start_state example_manager) 1 2 st \<and>
    2 \<le> 1 * (9 * nat (pm_stepLimit example_manager) + 3)"
proof -
  obtain st where "vreach \<lparr> rx_valid = (\<lambda>s. True), rx_mark_count = (\<lambda>s. 0), rx_match = (\<lambda>e s. None) \<rparr> (\<lambda>k b s. Inr False)
      (\<lambda>s. Inl StdOutOfRange) ttl_ops {0} (start_state example_manager) 1 2 st"
    using example_run by blast
  moreover from verification_ends [OF this] have "2 \<le> 1 * (9 * nat (pm_stepLimit example_manager) + 3)"
    by (simp add: example_manager_def)
  ultimately show ?thesis by blast
qed

section \<open>What the code does otherwise than it means\<close>

text \<open>The operator \<open>==\<close> of a rule also accepts a signer whose name is a proper prefix of the data name.\<close>

lemma equal_rule_accepts_prefix:
  "rule_compare ''=='' (Name [Component [1], Component [2]]) (Name [Component [1]])"
  by (simp add: rule_compare_def component_compare_def name_compare_def Let_def)

text \<open>Where a certificate is valid but the signature of the waiting data is wrong, neither callback is called.\<close>

lemma wrong_signature_no_callback:
  assumes "identity_certificate_of_data from_iso cd = Inr c" and "\<not> isTooLate (PTime now) c" "\<not> isTooEarly (PTime now) c"
    and "co_insert ops now c (pm_cache m) = Inr s" and "verifySignature rsa_verify d (c_key c) = Inr False"
  shows "onCertificateVerified rsa_verify from_iso ops now cd d k m = Inr ([], m\<lparr> pm_cache := s \<rparr>)"
  using assms by (simp add: onCertificateVerified_def Let_def)

text \<open>The check for the type of the key locator comes too late: a rule has asked for the key name before
  and threw, so a packet with another key locator is never reported as unverified.\<close>

lemma other_key_locator_throws:
  assumes "d_signature d = Some sig" and "getType (m_keyLocator sig) \<noteq> KEYNAME" and "pm_stepLimit m \<noteq> sc"
    and "pm_mustFailVerify m @ pm_verifyPolicies m \<noteq> []"
  shows "checkVerificationPolicy rx rsa_verify ops now d sc m = Inl ErrKeyLocator"
proof -
  have "getKeyName (m_keyLocator sig) = Inl ErrKeyLocator" using assms(2) by (cases "m_keyLocator sig") auto
  then have "satisfy rx d r = Inl ErrKeyLocator" for r using assms(1) by (simp add: satisfy_def signer_name_def)
  then have "first_match (satisfy rx d) (p # ps) h = Inl ErrKeyLocator" for p ps h by simp
  then show ?thesis
    using assms(3,4) by (cases "pm_mustFailVerify m"; cases "pm_verifyPolicies m") (auto simp: checkVerificationPolicy_def)
qed

end
