(* ===== verification/Identity_Manager.thy ===== *)
theory Identity_Manager
  imports Identity_Store Trust_Policy
begin

text \<open>
  \<open>ndn.cxx/security/identity/identity-manager.cc\<close> over the identity storage and the key store, and the signing
  half of \<open>security/keychain.cc\<close>.  The record \<open>env\<close> holds what an operation reads from outside: the time, the
  random seed, Crypto++, SHA-256, the SQL function \<open>datetime\<close> and the calendar functions of boost.  The
  time is read once per operation.  A null pointer that the code dereferences is \<open>UndefinedBehaviour\<close>.
\<close>

record env =
  e_now :: int
  e_seed :: nat
  e_crypto :: crypto
  e_sha256 :: "blob \<Rightarrow> blob"
  e_datetime :: "int \<Rightarrow> string option"
  e_to_iso :: "ptime \<Rightarrow> string"
  e_from_iso :: "string \<Rightarrow> ptime result"
  e_midnight :: "int \<Rightarrow> ptime"
  e_midnight20 :: "int \<Rightarrow> ptime result"

record identity_manager =
  im_public :: identity_db
  im_private :: key_store

abbreviation on_public :: "(identity_db, 'a) action \<Rightarrow> (identity_manager, 'a) action" where
  "on_public \<equiv> zoom im_public (\<lambda>db m. m\<lparr> im_public := db \<rparr>)"

abbreviation on_private :: "(key_store, 'a) action \<Rightarrow> (identity_manager, 'a) action" where
  "on_private \<equiv> zoom im_private (\<lambda>ks m. m\<lparr> im_private := ks \<rparr>)"

section \<open>Identities and keys\<close>

text \<open>The key name is passed to the private storage as text, which converts back to a name.\<close>

definition im_generateKeyPair :: "env \<Rightarrow> name \<Rightarrow> bool \<Rightarrow> key_type \<Rightarrow> int \<Rightarrow> (identity_manager, name) action" where
  "im_generateKeyPair e identity ksk keyType keySize =
     bindA (askA (\<lambda>m. getNewKeyName (e_now e) identity ksk (im_public m))) (\<lambda>keyName.
       bindA (pureA (name_of_uri (name_toUri keyName))) (\<lambda>storeName.
         bindA (on_private (generateKeyPair (e_crypto e) (e_seed e) storeName keyType keySize)) (\<lambda>_.
           bindA (askA (\<lambda>m. store_getPublickey (e_crypto e) (e_from_iso e) storeName (im_private m))) (\<lambda>pubKey.
             bindA (on_public (addKey keyName keyType (pk_key pubKey))) (\<lambda>_. retA keyName)))))"

definition generateRSAKeyPair :: "env \<Rightarrow> name \<Rightarrow> bool \<Rightarrow> int \<Rightarrow> (identity_manager, name) action" where
  "generateRSAKeyPair e identity ksk keySize = im_generateKeyPair e identity ksk KEY_TYPE_RSA keySize"

definition generateRSAKeyPairAsDefault :: "env \<Rightarrow> name \<Rightarrow> bool \<Rightarrow> int \<Rightarrow> (identity_manager, name) action" where
  "generateRSAKeyPairAsDefault e identity ksk keySize =
     bindA (im_generateKeyPair e identity ksk KEY_TYPE_RSA keySize) (\<lambda>keyName.
       bindA (on_public (setDefaultKeyNameForIdentity keyName identity)) (\<lambda>_. retA keyName))"

definition createIdentity :: "env \<Rightarrow> name \<Rightarrow> (identity_manager, name) action" where
  "createIdentity e identity =
     bindA (readA (\<lambda>m. doesIdentityExist identity (im_public m))) (\<lambda>ex.
       if \<not> ex then
         bindA (on_public (addIdentity identity)) (\<lambda>_. generateRSAKeyPairAsDefault e identity True 2048)
       else throwA SecException)"

definition setDefaultKeyForIdentity :: "name \<Rightarrow> name \<Rightarrow> (identity_manager, unit) action" where
  "setDefaultKeyForIdentity keyName identity = on_public (setDefaultKeyNameForIdentity keyName identity)"

definition im_getPublickey :: "env \<Rightarrow> name \<Rightarrow> identity_manager \<Rightarrow> publickey result" where
  "im_getPublickey e keyName m =
     bindE (getKey_blob keyName (im_public m)) (\<lambda>b.
       case b of None \<Rightarrow> Inl UndefinedBehaviour | Some b \<Rightarrow> publickey_fromDER (e_from_iso e) b)"

section \<open>Certificates\<close>

definition im_getCertificate :: "env \<Rightarrow> name \<Rightarrow> bool \<Rightarrow> identity_manager \<Rightarrow> identity_certificate result" where
  "im_getCertificate e certName any m =
     bindE (storage_getCertificate (e_datetime e) (e_now e) certName any (im_public m)) (\<lambda>d.
       case d of None \<Rightarrow> Inl UndefinedBehaviour | Some d \<Rightarrow> identity_certificate_of_data (e_from_iso e) d)"

definition im_addCertificate :: "env \<Rightarrow> identity_certificate \<Rightarrow> (identity_manager, unit) action" where
  "im_addCertificate e c = on_public (storage_addCertificate (e_datetime e) c)"

definition setDefaultCertificateForKey :: "identity_certificate \<Rightarrow> (identity_manager, unit) action" where
  "setDefaultCertificateForKey c =
     bindA (askA (\<lambda>m. doesKeyExist (c_publicKeyName c) (im_public m))) (\<lambda>ex.
       if \<not> ex then throwA SecException
       else on_public (setDefaultCertificateNameForKey (c_publicKeyName c) (d_name c)))"

definition addCertificateAsDefault :: "env \<Rightarrow> identity_certificate \<Rightarrow> (identity_manager, unit) action" where
  "addCertificateAsDefault e c = bindA (im_addCertificate e c) (\<lambda>_. setDefaultCertificateForKey c)"

definition addCertificateAsIdentityDefault :: "env \<Rightarrow> identity_certificate \<Rightarrow> (identity_manager, unit) action" where
  "addCertificateAsIdentityDefault e c =
     bindA (im_addCertificate e c) (\<lambda>_.
       bindA (setDefaultKeyForIdentity (c_publicKeyName c) (Name [])) (\<lambda>_. setDefaultCertificateForKey c))"

definition getDefaultCertificateNameByIdentity :: "name \<Rightarrow> identity_manager \<Rightarrow> name result" where
  "getDefaultCertificateNameByIdentity identity m = getDefaultCertificateNameForIdentity identity (im_public m)"

definition getDefaultCertificateName :: "identity_manager \<Rightarrow> name result" where
  "getDefaultCertificateName m =
     bindE (getDefaultIdentity (im_public m)) (\<lambda>identity. getDefaultCertificateNameForIdentity identity (im_public m))"

section \<open>Signing\<close>

text \<open>The signature object before it is signed: the name of the certificate without its version locates the key.\<close>

definition signature_for :: "env \<Rightarrow> name \<Rightarrow> publickey \<Rightarrow> sha256_with_rsa result" where
  "signature_for e certName publickey =
     bindE (getPrefix certName (of_nat (name_size certName) - 1) 0) (\<lambda>n.
       bindE (setKeyName (setType LocNotSet KEYNAME) n) (\<lambda>keyLocator.
         bindE (getDigest (e_sha256 e) DIGEST_SHA256 publickey) (\<lambda>digest.
           Inr (new_signature\<lparr> m_keyLocator := keyLocator, m_publisherKeyDigest := digest \<rparr>))))"

text \<open>\<open>*m_privateStorage->sign (...)\<close>.\<close>

definition private_sign :: "env \<Rightarrow> blob \<Rightarrow> name \<Rightarrow> identity_manager \<Rightarrow> blob result" where
  "private_sign e b keyName m =
     bindE (store_sign (e_crypto e) b keyName DIGEST_SHA256 (im_private m)) (\<lambda>sigBits.
       case sigBits of None \<Rightarrow> Inl UndefinedBehaviour | Some s \<Rightarrow> Inr s)"

definition signByCertificate_blob :: "env \<Rightarrow> blob \<Rightarrow> name \<Rightarrow> identity_manager \<Rightarrow> sha256_with_rsa result" where
  "signByCertificate_blob e blob certName m =
     bindE (im_getCertificate e certName False m) (\<lambda>certificate.
       let keyName = c_publicKeyName certificate
       in bindE (store_getPublickey (e_crypto e) (e_from_iso e) keyName (im_private m)) (\<lambda>publickey.
            bindE (private_sign e blob keyName m) (\<lambda>sigBits.
              bindE (signature_for e certName publickey) (\<lambda>sig. Inr (sig\<lparr> m_signatureBits := sigBits \<rparr>)))))"

definition signByCertificate :: "env \<Rightarrow> ndn_data \<Rightarrow> name \<Rightarrow> identity_manager \<Rightarrow> ndn_data result" where
  "signByCertificate e data certName m =
     bindE (im_getCertificate e certName False m) (\<lambda>certificate.
       let keyName = c_publicKeyName certificate
       in bindE (store_getPublickey (e_crypto e) (e_from_iso e) keyName (im_private m)) (\<lambda>publickey.
            bindE (signature_for e certName publickey) (\<lambda>sig.
              let data = data\<lparr> d_signature := Some sig \<rparr>
              in bindE (encodeToUnsignedWire data) (\<lambda>unsignedData.
                   let wire = setSignedPortion 0 (of_nat (length unsignedData))
                         \<lparr> sb_bytes = unsignedData, sb_signedBegin = 0, sb_signedEnd = 0 \<rparr>;
                       data = data\<lparr> d_wire := Some wire \<rparr>
                   in bindE (private_sign e unsignedData keyName m) (\<lambda>sigBits.
                        Inr (data\<lparr> d_signature := Some (sig\<lparr> m_signatureBits := sigBits \<rparr>) \<rparr>))))))"

section \<open>Issuing certificates\<close>

definition getKeyNameFromCertificatePrefix :: "name \<Rightarrow> name result" where
  "getKeyNameFromCertificatePrefix certificatePrefix =
     (let i = scan_up certificatePrefix ''KEY''
      in if i \<ge> name_size certificatePrefix then Inl SecException
         else bindE (getSubName certificatePrefix 0 (of_nat i)) (\<lambda>a.
                bindE (getSubName certificatePrefix (of_nat (i + 1)) (of_nat (name_size certificatePrefix) - of_nat i - 1)) (\<lambda>b.
                  Inr (append_name (append_name (Name []) a) b))))"

text \<open>A new identity certificate, and the operations of the base class on it.\<close>

definition new_identity_certificate :: identity_certificate where
  "new_identity_certificate = certificate.extend new_certificate \<lparr> c_publicKeyName = Name [] \<rparr>"

definition on_certificate :: "(certificate \<Rightarrow> certificate result) \<Rightarrow> identity_certificate \<Rightarrow> identity_certificate result" where
  "on_certificate f c =
     bindE (f (certificate.truncate c)) (\<lambda>c'. Inr (certificate.extend c' \<lparr> c_publicKeyName = c_publicKeyName c \<rparr>))"

text \<open>Name, validity, key and subject of the new certificate, and its encoded content.\<close>

definition fill_certificate :: "env \<Rightarrow> name \<Rightarrow> name \<Rightarrow> publickey \<Rightarrow> ptime \<Rightarrow> ptime \<Rightarrow> identity_certificate result" where
  "fill_certificate e certificateName keyName publickey notBefore notAfter =
     bindE (identity_setName certificateName new_identity_certificate) (\<lambda>c.
       let c = c\<lparr> c_notBefore := notBefore, c_notAfter := notAfter, c_key := publickey \<rparr>
       in bindE (subdescrypt_of_string ''2.5.4.41'' (name_toUri keyName)) (\<lambda>d.
            on_certificate (\<lambda>c. certificate_encode (e_to_iso e) (e_now e) (addSubjectDescription d c)) c))"

text \<open>
  Signing a certificate: the signature object is set, the unsigned encoding is signed with the key \<open>keyName m\<close>
  and the bits are put into the shared signature object.
\<close>

definition sign_certificate ::
    "env \<Rightarrow> name \<Rightarrow> publickey \<Rightarrow> (identity_manager \<Rightarrow> name result) \<Rightarrow> identity_certificate \<Rightarrow> identity_manager \<Rightarrow>
      identity_certificate result" where
  "sign_certificate e locatorCert publickey keyName c m =
     bindE (signature_for e locatorCert publickey) (\<lambda>sig.
       let c = c\<lparr> d_signature := Some sig \<rparr>
       in bindE (encodeToUnsignedWire (ndn_data.truncate c)) (\<lambda>unsignedData.
            bindE (keyName m) (\<lambda>keyName.
              bindE (private_sign e unsignedData keyName m) (\<lambda>sigBits.
                Inr (c\<lparr> d_signature := Some (sig\<lparr> m_signatureBits := sigBits \<rparr>) \<rparr>)))))"

definition append_version :: "env \<Rightarrow> name \<Rightarrow> name" where
  "append_version e n =
     appendVersion (of_int (total_seconds (e_now e))) (of_int (e_now e mod 1000000)) n nversion"

definition createIdentityCertificate ::
    "env \<Rightarrow> name \<Rightarrow> publickey \<Rightarrow> name \<Rightarrow> ptime \<Rightarrow> ptime \<Rightarrow> identity_manager \<Rightarrow> identity_certificate result" where
  "createIdentityCertificate e certificatePrefix publickey signerCertificateName notBefore notAfter m =
     bindE (getKeyNameFromCertificatePrefix certificatePrefix) (\<lambda>keyName.
       bindE (append_string certificatePrefix ''ID-CERT'') (\<lambda>n.
         bindE (fill_certificate e (append_version e n) keyName publickey notBefore notAfter) (\<lambda>c.
           sign_certificate e signerCertificateName publickey
             (\<lambda>m. bindE (im_getCertificate e signerCertificateName False m) (\<lambda>s. Inr (c_publicKeyName s))) c m)))"

definition createIdentityCertificate_stored ::
    "env \<Rightarrow> name \<Rightarrow> name \<Rightarrow> ptime \<Rightarrow> ptime \<Rightarrow> identity_manager \<Rightarrow> identity_certificate result" where
  "createIdentityCertificate_stored e certificatePrefix signerCertificateName notBefore notAfter m =
     bindE (getKeyNameFromCertificatePrefix certificatePrefix) (\<lambda>keyName.
       bindE (im_getPublickey e keyName m) (\<lambda>publickey.
         createIdentityCertificate e certificatePrefix publickey signerCertificateName notBefore notAfter m))"

definition selfSign :: "env \<Rightarrow> name \<Rightarrow> identity_manager \<Rightarrow> identity_certificate result" where
  "selfSign e keyName m =
     bindE (getSubName keyName 0 (of_nat (name_size keyName) - 1)) (\<lambda>n.
       bindE (append_string n ''KEY'') (\<lambda>n.
         bindE (name_get keyName (of_nat (name_size keyName) - 1)) (\<lambda>c.
           bindE (append_string (append_component n c) ''ID-CERT'') (\<lambda>n.
             let certificateName = append_version e n
             in bindE (if isCorrectName certificateName then Inr () else Inl SecException) (\<lambda>_.
                  bindE (im_getPublickey e keyName m) (\<lambda>publickey.
                    bindE (e_midnight20 e (e_now e)) (\<lambda>notAfter.
                      bindE (fill_certificate e certificateName keyName publickey (e_midnight e (e_now e)) notAfter) (\<lambda>c.
                        sign_certificate e certificateName publickey (\<lambda>m. Inr keyName) c m))))))))"

definition selfSign_certificate :: "env \<Rightarrow> identity_certificate \<Rightarrow> identity_manager \<Rightarrow> identity_certificate result" where
  "selfSign_certificate e c m =
     bindE (getKey_blob (c_publicKeyName c) (im_public m)) (\<lambda>b.
       case b of
         None \<Rightarrow> Inl SecException
       | Some b \<Rightarrow>
           bindE (publickey_fromDER (e_from_iso e) b) (\<lambda>publickey.
             sign_certificate e (d_name c) publickey (\<lambda>m. Inr (c_publicKeyName c)) c m))"

section \<open>The key chain\<close>

record 's keychain =
  kc_identityManager :: identity_manager
  kc_policyManager :: "'s policy_manager"

definition signByIdentity ::
    "boost_regex \<Rightarrow> env \<Rightarrow> ndn_data \<Rightarrow> name \<Rightarrow> 's keychain \<Rightarrow> (ndn_data \<times> 's keychain) result" where
  "signByIdentity rx e data identity kc =
     bindE
       (if name_size identity = 0 then
          bindE (inferSigningIdentity rx (d_name data) (kc_policyManager kc)) (\<lambda>(inferredIdentity, pm).
            bindE (if Name [] = inferredIdentity then getDefaultCertificateName (kc_identityManager kc)
                   else getDefaultCertificateNameByIdentity inferredIdentity (kc_identityManager kc)) (\<lambda>n.
              Inr (n, pm)))
        else
          bindE (getDefaultCertificateNameByIdentity identity (kc_identityManager kc)) (\<lambda>n.
            Inr (n, kc_policyManager kc)))
       (\<lambda>(signingCertificateName, pm).
         if name_size signingCertificateName = 0 then Inl SecException
         else bindE (checkSigningPolicy rx (d_name data) signingCertificateName pm) (\<lambda>(ok, pm).
           if \<not> ok then Inl SecException
           else bindE (signByCertificate e data signingCertificateName (kc_identityManager kc)) (\<lambda>data.
             Inr (data, kc\<lparr> kc_policyManager := pm \<rparr>))))"

definition signByIdentity_blob :: "env \<Rightarrow> blob \<Rightarrow> name \<Rightarrow> 's keychain \<Rightarrow> sha256_with_rsa result" where
  "signByIdentity_blob e blob identity kc =
     bindE (getDefaultCertificateNameByIdentity identity (kc_identityManager kc)) (\<lambda>signingCertificateName.
       if name_size signingCertificateName = 0 then Inl SecException
       else signByCertificate_blob e blob signingCertificateName (kc_identityManager kc))"

text \<open>The policy of a new key chain: three verification rules, the last of which also guards signing.\<close>

definition default_rules :: "boost_regex \<Rightarrow> policy_rule list result" where
  "default_rules rx =
     bindE (new_identity_rule rx ''^([^<KEY>]*)<KEY>(<>*)<ksk-.*><ID-CERT>'' ''^([^<KEY>]*)<KEY><dsk-.*><ID-CERT>''
              ''>'' (CHR 0x5C # ''1'' @ CHR 0x5C # ''2'') (CHR 0x5C # ''1'') True) (\<lambda>rule1.
       bindE (new_identity_rule rx ''^([^<KEY>]*)<KEY><dsk-.*><ID-CERT>'' ''^([^<KEY>]*)<KEY>(<>*)<ksk-.*><ID-CERT>''
                ''=='' (CHR 0x5C # ''1'') (CHR 0x5C # ''1'' @ CHR 0x5C # ''2'') True) (\<lambda>rule2.
         bindE (new_identity_rule rx ''^(<>*)$'' ''^([^<KEY>]*)<KEY><dsk-.*><ID-CERT>''
                  ''>'' (CHR 0x5C # ''1'') (CHR 0x5C # ''1'') True) (\<lambda>rule3.
           Inr [rule1, rule2, rule3])))"

definition new_policy_manager :: "int \<Rightarrow> 's \<Rightarrow> policy_rule list \<Rightarrow> regex_top \<Rightarrow> 's policy_manager" where
  "new_policy_manager stepLimit cache rules t =
     \<lparr> pm_stepLimit = stepLimit, pm_cache = cache, pm_rules = (\<lambda>p. if p < length rules then rules ! p else hd rules),
       pm_regexes = (\<lambda>p. t), pm_mustFailVerify = [], pm_verifyPolicies = [], pm_verifyExempt = [],
       pm_signPolicies = [], pm_mustFailSign = [], pm_signInference = [], pm_trustAnchors = [] \<rparr>"

definition default_policy :: "boost_regex \<Rightarrow> 's \<Rightarrow> regex_top \<Rightarrow> 's policy_manager result" where
  "default_policy rx cache t =
     bindE (default_rules rx) (\<lambda>rules.
       let pm = new_policy_manager 10 cache rules t;
           pm = addVerificationPolicyRule 0 pm;
           pm = addVerificationPolicyRule 1 pm;
           pm = addVerificationPolicyRule 2 pm
       in Inr (addSigningPolicyRule 2 pm))"

section \<open>The default certificate of an identity\<close>

lemma zoom_Inr: "zoom get put m t = (Inr x, t') \<longleftrightarrow> (\<exists>s'. m (get t) = (Inr x, s') \<and> t' = put s' t)"
  by (auto simp: zoom_def split: prod.splits)

text \<open>Property C20. Installing a certificate as the default of its identity takes effect: afterwards the
  default certificate of the identity, found through its default key, is exactly that certificate.\<close>

theorem identity_default_certificate:
  assumes add: "addCertificateAsIdentityDefault e c m = (Inr (), m')"
    and ok: "db_ok (im_public m)"
    and key: "name_wf (c_publicKeyName c)" "name_size (c_publicKeyName c) < 2 ^ 31" "comps (c_publicKeyName c) = cs @ [k]"
    and cert: "name_wf (d_name c)" "no_slash (d_name c)"
  shows "getDefaultCertificateNameByIdentity (Name cs) m' = Inr (d_name c) \<and> db_ok (im_public m')"
proof -
  let ?k = "c_publicKeyName c" and ?n = "d_name c"
  obtain db1 db2 db3 where
      db1: "storage_addCertificate (e_datetime e) c (im_public m) = (Inr (), db1)" and
      db2: "setDefaultKeyNameForIdentity ?k (Name []) db1 = (Inr (), db2)" and
      db3: "setDefaultCertificateNameForKey ?k ?n db2 = (Inr (), db3)" "im_public m' = db3"
    using add
    unfolding addCertificateAsIdentityDefault_def im_addCertificate_def setDefaultKeyForIdentity_def
      setDefaultCertificateForKey_def bindA_Inr zoom_Inr
    by (auto simp: zoom_Inr split: if_splits)
  note s = split_key_snoc [OF key]
  obtain row where row: "certificate_row (e_datetime e) c = Inr row" "db1 = (im_public m)\<lparr> db_cert := db_cert (im_public m) @ [row] \<rparr>"
      "doesKeyExist ?k (im_public m) = Inr True"
    using added_certificate [OF db1] by blast
  have r: "r_name row = name_toUri ?n" "cert_of_key (name_toUri (Name cs)) (component_toUri k) row"
    using row(1) s by (auto simp: certificate_row_def cert_of_key_def bindE_Inr_iff split: option.splits)
  have ok1: "db_ok db1" using preservesD [OF db_ok_addCertificates(2) ok] db1 by (metis snd_conv)
  have ok2: "db_ok db2" using preservesD [OF db_ok_setDefaults(2) ok1] db2 by (metis snd_conv)
  have "doesKeyExist ?k db1 = Inr True" using row(2,3) by (simp add: doesKeyExist_def)
  from default_key_chosen [OF ok1 key this] db2 have k2: "getDefaultKeyNameForIdentity (Name cs) db2 = Inr ?k" by simp
  have c2: "db_cert db2 = db_cert (im_public m) @ [row]"
    using db2 row(2) setDefaultKey_state [OF s disjI1 [OF refl]] default_key_tables(3) by auto
  have k3: "db_key db3 = db_key db2" using db3(1) setDefaultCert_state [OF s] default_cert_tables(3) by auto
  have "getDefaultCertificateNameForKey ?k db3 = Inr ?n"
    using default_cert_chosen [OF ok2 s cert, of row] c2 r db3(1) by simp
  moreover have "getDefaultKeyNameForIdentity (Name cs) db3 = Inr ?k"
    using k2 k3 by (simp add: getDefaultKeyNameForIdentity_def)
  moreover have "db_ok db3" using preservesD [OF db_ok_setDefaults(3) ok2] db3(1) by (metis snd_conv)
  ultimately show ?thesis
    using db3(2) by (simp add: getDefaultCertificateNameByIdentity_def getDefaultCertificateNameForIdentity_def)
qed

section \<open>Signed packets verify\<close>

text \<open>The store holds the key pair generated from \<open>seed\<close> for a key name.\<close>

definition holds_pair :: "crypto \<Rightarrow> key_store \<Rightarrow> name \<Rightarrow> nat \<Rightarrow> int \<Rightarrow> bool" where
  "holds_pair cr ks keyName seed sz \<longleftrightarrow>
     ks_files ks (nameTransform cr (name_toUri keyName) ''.pri'' ks) = Some (base64_encode cr (fst (rsa_generate cr seed sz))) \<and>
     ks_files ks (nameTransform cr (name_toUri keyName) ''.pub'' ks) = Some (base64_encode cr (snd (rsa_generate cr seed sz)))"

lemma generated_pair:
  assumes "generateKeyPair cr seed keyName KEY_TYPE_RSA sz ks = (Inr (), ks')"
  shows "holds_pair cr ks' keyName seed sz"
  using generated_files(1-3) [OF assms] nameTransform_path [of ks' ks] by (simp add: holds_pair_def)

lemma private_sign_pair:
  assumes "holds_pair (e_crypto e) (im_private m) keyName seed sz" and "crypto_ok (e_crypto e) rsa_verify"
    and "private_sign e b keyName m = Inr s"
  shows "rsa_sign (e_crypto e) (fst (rsa_generate (e_crypto e) seed sz)) b = Some s \<and>
    rsa_verify (snd (rsa_generate (e_crypto e) seed sz)) b s = Inr True"
  using assms
  by (auto simp: private_sign_def store_sign_def holds_pair_def crypto_ok_def bindE_Inr_iff split: if_splits option.splits)

lemma unsigned_ignores_bits:
  "encodeToUnsignedWire (d\<lparr> d_signature := Some (sig\<lparr> m_signatureBits := s \<rparr>), d_wire := w \<rparr>) =
    encodeToUnsignedWire (d\<lparr> d_signature := Some sig \<rparr>)"
  by (cases "m_timestamp (d_content d)") (simp_all add: encodeToUnsignedWire_def SerializeUnsigned_def Let_def cong: if_cong)

lemma signature_for_fields:
  assumes "signature_for e certName publickey = Inr sig" and "name_wf certName" "name_size certName < 2 ^ 31" "comps certName = cs @ [v]"
  shows "m_keyLocator sig = LocKeyName (Name cs) \<and> m_publisherKeyDigest sig = e_sha256 e (pk_key publickey)"
proof -
  have "getPrefix certName (of_nat (name_size certName) - 1) 0 = Inr (Name cs)"
    using sub_name_nat [OF assms(2,3), of 0 "length cs"] assms(4) by (simp add: getPrefix_def name_size_def)
  then show ?thesis
    using assms(1) by (auto simp: signature_for_def setType_def new_locator_def setKeyName_def getDigest_def)
qed

text \<open>A packet signed over the whole of its unsigned encoding is written like the packet without the buffer.\<close>

lemma encode_signed:
  assumes enc: "data_encodable (d\<lparr> d_wire := None \<rparr>) sig ti keyName"
    and u: "encodeToUnsignedWire (d\<lparr> d_wire := None \<rparr>) = Inr u" and "length u < 2 ^ 64"
  shows "encodeToWire_data (d\<lparr> d_wire := Some (setSignedPortion 0 (of_nat (length u))
      \<lparr> sb_bytes = u, sb_signedBegin = 0, sb_signedEnd = 0 \<rparr>) \<rparr>) = encodeToWire_data (d\<lparr> d_wire := None \<rparr>)"
proof -
  have "unat (of_nat (length u) :: uint64) = length u" using assms(3) by (simp add: unat_of_nat)
  then have s: "signed_bytes (setSignedPortion 0 (of_nat (length u)) \<lparr> sb_bytes = u, sb_signedBegin = 0, sb_signedEnd = 0 \<rparr>) = u"
    by (simp add: signed_bytes_def setSignedPortion_def signed_size_def)
  have a: "SerializeUnsigned (d\<lparr> d_wire := None \<rparr>) start = Inr (start @ u)" for start
    using u write_unsigned [OF enc] by (simp add: encodeToUnsignedWire_def)
  show ?thesis
    using s a by (simp add: encodeToWire_data_def Serialize_data_def split: option.splits)
qed

text \<open>A packet that \<open>signByCertificate\<close> signed verifies at the receiver: its encoding decodes, the
  decoded packet has the name and the content, its key locator is the name of the certificate without the
  version, and its signature verifies under the key of the certificate.  The private storage holds the
  key pair of the certificate, and signatures have 256 bytes (RSA with 2048 bits).\<close>

lemma signed_data_verifies:
  assumes cert: "im_getCertificate e certName False m = Inr cert"
    and pair: "holds_pair (e_crypto e) (im_private m) (c_publicKeyName cert) seed sz"
    and ck: "pk_key (c_key cert) = snd (rsa_generate (e_crypto e) seed sz)"
    and ok: "crypto_ok (e_crypto e) rsa_verify"
    and len: "\<forall>b s. rsa_sign (e_crypto e) (fst (rsa_generate (e_crypto e) seed sz)) b = Some s \<longrightarrow> length s = 256"
    and sha: "\<forall>b. e_sha256 e b \<noteq> [] \<and> length (e_sha256 e b) < 2 ^ 32"
    and name: "name_wf certName" "name_size certName < 2 ^ 31" "comps certName = cs @ [v]" "name_encodable (Name cs)"
    and data: "name_encodable (d_name data)" "m_timestamp (d_content data) = Some ti"
      "m_content (d_content data) \<noteq> []" "length (m_content (d_content data)) < 2 ^ 32"
    and sign: "signByCertificate e data certName m = Inr packet"
    and buf: "encodeToWire_data packet = Inr buf" "length buf < 2 ^ 64"
      "\<forall>u. encodeToUnsignedWire packet = Inr u \<longrightarrow> length u < 2 ^ 64"
  shows "\<exists>d'. decodeFromWire_data now buf = Inr d' \<and> d_name d' = d_name data \<and>
    m_content (d_content d') = m_content (d_content data) \<and> signer_name d' = Inr (Name cs) \<and>
    verifySignature rsa_verify d' (c_key cert) = Inr True"
proof -
  obtain publickey sig u s where
      sig: "signature_for e certName publickey = Inr sig" and
      u: "encodeToUnsignedWire (data\<lparr> d_signature := Some sig \<rparr>) = Inr u" and
      s: "private_sign e u (c_publicKeyName cert) m = Inr s" and
      packet: "packet = (data\<lparr> d_signature := Some (sig\<lparr> m_signatureBits := s \<rparr>) \<rparr>)\<lparr> d_wire := Some
        (setSignedPortion 0 (of_nat (length u)) \<lparr> sb_bytes = u, sb_signedBegin = 0, sb_signedEnd = 0 \<rparr>) \<rparr>"
    using sign cert by (auto simp: signByCertificate_def Let_def bindE_Inr_iff)
  let ?sig = "sig\<lparr> m_signatureBits := s \<rparr>"
  let ?d = "data\<lparr> d_signature := Some ?sig, d_wire := None \<rparr>"
  note v = private_sign_pair [OF pair ok s]
  have f: "m_keyLocator sig = LocKeyName (Name cs)" "m_publisherKeyDigest sig = e_sha256 e (pk_key publickey)"
    using signature_for_fields [OF sig name(1-3)] by simp_all
  have l: "length s = 256" using len v by blast
  have enc: "data_encodable ?d ?sig ti (Name cs)"
    using f sha data name(4) l by (simp add: data_encodable_def)
  have u': "encodeToUnsignedWire ?d = Inr u" using unsigned_ignores_bits u by metis
  have "encodeToUnsignedWire packet = Inr u"
    unfolding packet ndn_data.simps using unsigned_ignores_bits u by metis
  then have "length u < 2 ^ 64" using buf(3) by blast
  then have b: "encodeToWire_data ?d = Inr buf"
    using encode_signed [of "data\<lparr> d_signature := Some ?sig \<rparr>" ?sig ti "Name cs" u] enc u' buf(1) packet by simp
  from signed_portion_back [OF enc _ b buf(2), of now] l u' obtain d' w where
    "decodeFromWire_data now buf = Inr d'" "d_wire d' = Some w" "signed_bytes w = u" "d_name d' = d_name data"
    "m_content (d_content d') = m_content (d_content data)"
    "d_signature d' = Some \<lparr> m_signatureBits = s, m_publisherKeyDigest = m_publisherKeyDigest sig, m_keyLocator = LocKeyName (Name cs) \<rparr>"
    by auto
  then show ?thesis using v ck by (simp add: verifySignature_def signer_name_def)
qed

section \<open>Certificates over the wire\<close>

lemma certificate_travels:
  assumes ok: "certificate_ok to_iso from_iso c" and k: "leaf_types k" "publickey_visit from_iso (canonical k) = Inr (c_key c)"
    and enc: "data_encodable d sig ti keyName" and con: "m_content (d_content d) = tree_bytes (certificate_tree to_iso k c)"
    and len: "length (m_content (d_content d)) < 2 ^ 31"
    and name: "name_wf (d_name d)" "name_size (d_name d) < 2 ^ 31" "comps (d_name d) = pre @ [kc] @ mid @ [ic, ver]"
      "component_toUri kc = ''KEY''" "component_toUri ic = ''ID-CERT''" "\<forall>x\<in>set pre. component_toUri x \<noteq> ''KEY''"
      "component_toUri ver \<noteq> ''ID-CERT''"
  shows "\<exists>buf d' c'. encodeToWire_data d = Inr buf \<and> decodeFromWire_data now buf = Inr d' \<and>
    identity_certificate_of_data from_iso d' = Inr c' \<and> d_name c' = d_name d \<and> c_key c' = c_key c \<and>
    c_notBefore c' = c_notBefore c \<and> c_notAfter c' = c_notAfter c \<and> c_subjectList c' = c_subjectList c \<and>
    c_extnList c' = c_extnList c \<and> c_publicKeyName c' = Name (pre @ mid)"
proof -
  let ?b = "enc_block (data_block d sig ti keyName)"
  obtain d' sig' where d': "decodeFromWire_data now ?b = Inr d'" "d_name d' = d_name d"
      "m_content (d_content d') = m_content (d_content d)" "d_signature d' = Some sig'"
    using decode_data [OF enc] by (simp add: decodeFromWire_data_def Let_def)
  from certificate_of_content [OF ok k, of d' sig'] d' con len
  have "certificate_of_data from_iso d' =
      Inr (ndn_data.extend (ndn_data.truncate d') \<lparr> c_subjectList = c_subjectList c, c_notBefore = c_notBefore c,
        c_notAfter = c_notAfter c, c_key = c_key c, c_extnList = c_extnList c \<rparr>)" by simp
  then show ?thesis
    using write_data [OF enc] d' key_name_found [OF name]
    by (simp add: identity_certificate_of_data_def setPublicKeyName_def ndn_data.defs certificate.defs)
qed

text \<open>Property C4. A certificate survives the whole way: \<open>encode\<close> puts its DER form into the content of the packet, the
  packet is signed, written, decoded by the receiver and read as an identity certificate; the receiver gets
  the public key, the validity, the subject and the extensions of the issuer, and the name of the key from the
  name of the packet.  The conditions are those under which the certificate and the packet round trip: times of
  validity with whole seconds, object identifiers that DER can hold, a key that is the encoding of a DER tree, a
  signature with a key name as key locator, no wire kept from an earlier decoding and sizes below 2 GiB.  The
  clock at the time of encoding is arbitrary; the timestamp of the packet is not part of the claim.\<close>

theorem certificate_over_wire:
  assumes ok: "certificate_ok to_iso from_iso c"
    and k: "pk_key (c_key c) = tree_bytes k" "leaf_types k" "length (tree_bytes k) < 2 ^ 31"
      "publickey_visit from_iso (canonical k) = Inr (c_key c)"
    and ce: "certificate_encode to_iso t c = Inr ce" and d: "d = (ndn_data.truncate ce)\<lparr> d_signature := Some sig \<rparr>"
    and enc: "data_encodable d sig ti keyName" and len: "length (m_content (d_content d)) < 2 ^ 31"
    and name: "name_wf (d_name c)" "name_size (d_name c) < 2 ^ 31" "comps (d_name c) = pre @ [kc] @ mid @ [ic, ver]"
      "component_toUri kc = ''KEY''" "component_toUri ic = ''ID-CERT''" "\<forall>x\<in>set pre. component_toUri x \<noteq> ''KEY''"
      "component_toUri ver \<noteq> ''ID-CERT''"
  shows "\<exists>buf d' c'. encodeToWire_data d = Inr buf \<and> decodeFromWire_data now buf = Inr d' \<and>
    identity_certificate_of_data from_iso d' = Inr c' \<and> d_name c' = d_name c \<and> c_key c' = c_key c \<and>
    c_notBefore c' = c_notBefore c \<and> c_notAfter c' = c_notAfter c \<and> c_subjectList c' = c_subjectList c \<and>
    c_extnList c' = c_extnList c \<and> c_publicKeyName c' = Name (pre @ mid)"
proof -
  have e: "ce = c\<lparr> d_content := make_content (tree_bytes (certificate_tree to_iso k c)) t CONTENT_KEY maxFreshness (Component []) \<rparr>"
    using certificate_encode_tree [OF ok k(1-3), of t] ce by simp
  have "m_content (d_content d) = tree_bytes (certificate_tree to_iso k c)" and n: "d_name d = d_name c"
    by (simp_all add: d e make_content_def ndn_data.defs)
  from certificate_travels [OF ok k(2,4) enc this(1) len name [folded n]] show ?thesis unfolding n .
qed

section \<open>An identity, its certificate and a signed packet\<close>

definition example_name :: name where
  "example_name = Name [Component [97], Component (string_bytes ''KEY''), Component [98], Component (string_bytes ''ID-CERT''), Component [1]]"

definition example_packet :: ndn_data where
  "example_packet =
     \<lparr> d_name = example_name,
       d_signature = Some \<lparr> m_signatureBits = [9], m_publisherKeyDigest = [1], m_keyLocator = LocKeyName (Name [Component [107]]) \<rparr>,
       d_content = make_content (tree_bytes (certificate_tree example_to_iso example_key example_certificate)) 86000000 CONTENT_KEY
         maxFreshness (Component []), d_wire = None \<rparr>"

lemma example_name_parts:
  "name_wf example_name" "name_size example_name < 2 ^ 31"
  "comps example_name = [Component [97]] @ [Component (string_bytes ''KEY'')] @ [Component [98]] @
     [Component (string_bytes ''ID-CERT''), Component [1]]"
  "component_toUri (Component (string_bytes ''KEY'')) = ''KEY''"
  "component_toUri (Component (string_bytes ''ID-CERT'')) = ''ID-CERT''"
  "\<forall>x\<in>set [Component [97]]. component_toUri x \<noteq> ''KEY''" "component_toUri (Component [1]) \<noteq> ''ID-CERT''"
proof -
  show "component_toUri (Component (string_bytes ''KEY'')) = ''KEY''"
    "component_toUri (Component (string_bytes ''ID-CERT'')) = ''ID-CERT''"
    "\<forall>x\<in>set [Component [97]]. component_toUri x \<noteq> ''KEY''" "component_toUri (Component [1]) \<noteq> ''ID-CERT''"
    by code_simp+
qed (simp_all add: example_name_def name_wf_def name_size_def string_bytes_def)

lemma example_packet_encodable:
  "data_encodable example_packet
     \<lparr> m_signatureBits = [9], m_publisherKeyDigest = [1], m_keyLocator = LocKeyName (Name [Component [107]]) \<rparr>
     86000000 (Name [Component [107]])"
  using example_facts(7,8)
  by (simp add: data_encodable_def example_packet_def make_content_def name_encodable_def example_name_def string_bytes_def)

definition example_named :: certificate where
  "example_named = example_certificate\<lparr> d_name := example_name \<rparr>"

lemma example_named_facts:
  "certificate_ok example_to_iso example_from_iso example_named" "c_key example_named = c_key example_certificate"
  "certificate_tree example_to_iso example_key example_named = certificate_tree example_to_iso example_key example_certificate"
  "d_name example_named = example_name"
  using example_facts(1) by (simp_all add: example_named_def certificate_ok_def certificate_tree_def)

theorem certificate_over_wire_witness:
  "\<exists>ce buf d' c'. certificate_encode example_to_iso 86000000 example_named = Inr ce \<and>
    encodeToWire_data ((ndn_data.truncate ce)\<lparr> d_signature := d_signature example_packet \<rparr>) = Inr buf \<and>
    decodeFromWire_data 0 buf = Inr d' \<and> identity_certificate_of_data example_from_iso d' = Inr c' \<and>
    c_key c' = c_key example_named \<and> c_publicKeyName c' = Name [Component [97], Component [98]]"
proof -
  let ?sig = "\<lparr> m_signatureBits = [9], m_publisherKeyDigest = [1], m_keyLocator = LocKeyName (Name [Component [107]]) \<rparr>"
  note k = example_facts(3-6) [folded example_named_facts(2)]
  obtain ce where ce: "certificate_encode example_to_iso 86000000 example_named = Inr ce"
      "ce = example_named\<lparr> d_content := d_content example_packet \<rparr>"
    using certificate_encode_tree [OF example_named_facts(1) k(1-3), of 86000000] example_named_facts(3)
    by (simp add: example_packet_def)
  have p: "example_packet = (ndn_data.truncate ce)\<lparr> d_signature := Some ?sig \<rparr>"
    by (simp add: ce(2) example_packet_def ndn_data.defs example_named_def example_certificate_def new_certificate_def new_data_def)
  have l: "length (m_content (d_content example_packet)) < 2 ^ 31"
    using example_facts(7) by (simp add: example_packet_def make_content_def)
  note w = certificate_over_wire [OF example_named_facts(1) k ce(1) p example_packet_encodable l
      example_name_parts [folded example_named_facts(4)], of 0]
  have "d_signature example_packet = Some ?sig" by (simp add: example_packet_def)
  then show ?thesis using w ce(1) p by auto
qed

definition example_rsa :: crypto where
  "example_rsa = example_crypto\<lparr> rsa_generate := (\<lambda>seed sz. ([1], tree_bytes example_key)), rsa_sign := (\<lambda>k m. Some (replicate 256 7)) \<rparr>"

definition example_env :: env where
  "example_env =
     \<lparr> e_now = 86000000, e_seed = 0, e_crypto = example_rsa, e_sha256 = (\<lambda>b. [1]), e_datetime = (\<lambda>n. Some ''b''),
       e_to_iso = example_to_iso, e_from_iso = example_from_iso, e_midnight = PTime, e_midnight20 = (\<lambda>n. Inr (PTime n)) \<rparr>"

definition example_row :: "blob \<Rightarrow> cert_row" where
  "example_row b =
     \<lparr> r_name = name_toUri example_name, r_issuer = ''/i'', r_identity = ''/a'', r_identifier = ''b'',
       r_before = Some ''a'', r_after = Some ''c'', r_data = b, r_valid = 1, r_default = 0 \<rparr>"

definition example_manager_of :: "blob \<Rightarrow> key_store \<Rightarrow> identity_manager" where
  "example_manager_of b ks = \<lparr> im_public = \<lparr> db_identity = [], db_key = [], db_cert = [example_row b] \<rparr>, im_private = ks \<rparr>"

lemma example_getCertificate:
  "im_getCertificate example_env example_name False (example_manager_of b ks) =
     bindE (decodeFromWire_data 86000000 b) (identity_certificate_of_data example_from_iso)"
proof -
  have l: "text_less ''a'' ''b''" "text_less ''b'' ''c''" by code_simp+
  show ?thesis
    using l
    by (cases "decodeFromWire_data 86000000 b")
      (simp_all add: im_getCertificate_def example_env_def example_manager_of_def storage_getCertificate_def
        doesCertificateExist_def cert_selected_def example_row_def sql_less_def del: text_less.simps)
qed

definition example_signature :: sha256_with_rsa where
  "example_signature =
     \<lparr> m_signatureBits = replicate 256 7, m_publisherKeyDigest = [1], m_keyLocator = LocKeyName (Name (butlast (comps example_name))) \<rparr>"

definition example_signed :: ndn_data where
  "example_signed = (sample_data [9])\<lparr> d_signature := Some example_signature \<rparr>"

lemma example_signed_encodable: "data_encodable example_signed example_signature 86000000 (Name (butlast (comps example_name)))"
  by (simp add: data_encodable_def example_signed_def example_signature_def sample_data_def make_content_def name_encodable_def
    example_name_def string_bytes_def)

lemma example_signed_length:
  "length (enc_block (data_block example_signed example_signature 86000000 (Name (butlast (comps example_name))))) < 2 ^ 64"
  "length (concat (map enc_block (unsigned_blocks example_signed example_signature 86000000 (Name (butlast (comps example_name)))))) < 2 ^ 64"
proof -
  let ?n = "Name (butlast (comps example_name))"
  show u: "length (concat (map enc_block (unsigned_blocks example_signed example_signature 86000000 ?n))) < 2 ^ 64"
    using time_length [of 86000000]
    by (simp add: unsigned_blocks_def name_block_def comp_block_def tagged_block_def time_block_def example_signed_def
        example_signature_def sample_data_def make_content_def header_bytes_length EstimateBlockHeader_def estimate_loop.simps
        dtag_defs timestamp_bytes_length example_name_def string_bytes_def)
  obtain pre where pre: "length pre = 266" "enc_block (data_block example_signed example_signature 86000000 ?n) =
      pre @ concat (map enc_block (unsigned_blocks example_signed example_signature 86000000 ?n)) @ [NDN_CLOSE]"
    by (rule data_split [of example_signature]) (simp add: example_signature_def)
  show "length (enc_block (data_block example_signed example_signature 86000000 ?n)) < 2 ^ 64"
    unfolding pre(2) using pre(1) time_length [of 86000000]
    by (simp add: unsigned_blocks_def name_block_def comp_block_def tagged_block_def time_block_def example_signed_def
        example_signature_def sample_data_def make_content_def header_bytes_length EstimateBlockHeader_def estimate_loop.simps
        dtag_defs timestamp_bytes_length example_name_def string_bytes_def)
qed

text \<open>A manager that holds the certificate and the key pair of the example.\<close>

lemma example_setup:
  "\<exists>m cert. im_getCertificate example_env example_name False m = Inr cert \<and>
     holds_pair example_rsa (im_private m) (c_publicKeyName cert) 0 2048 \<and> c_key cert = c_key example_certificate"
proof -
  have c: "m_content (d_content example_packet) = tree_bytes (certificate_tree example_to_iso example_key example_certificate)"
    "d_name example_packet = example_name"
    by (simp_all add: example_packet_def make_content_def)
  obtain b d' cert where b: "encodeToWire_data example_packet = Inr b" "decodeFromWire_data 86000000 b = Inr d'"
      "identity_certificate_of_data example_from_iso d' = Inr cert" "c_key cert = c_key example_certificate"
      "c_publicKeyName cert = Name [Component [97], Component [98]]"
    using certificate_travels [OF example_facts(1,4,6) example_packet_encodable c(1) _
      example_name_parts [folded c(2)], of 86000000] example_facts(7) c(1) by auto
  obtain ks where "generateKeyPair example_rsa 0 (Name [Component [97], Component [98]]) KEY_TYPE_RSA 2048
      \<lparr> ks_path = ''d'', ks_files = (\<lambda>f. None) \<rparr> = (Inr (), ks)"
    by (simp add: generateKeyPair_def bindA_def store_doesKeyExist_def)
  from generated_pair [OF this] b show ?thesis
    using example_getCertificate [of b ks]
    by (intro exI [of _ "example_manager_of b ks"] exI [of _ cert]) (simp add: example_manager_of_def)
qed

lemma example_sign:
  assumes "im_getCertificate example_env example_name False m = Inr cert"
    and "holds_pair example_rsa (im_private m) (c_publicKeyName cert) 0 2048"
  shows "\<exists>u. encodeToUnsignedWire example_signed = Inr u \<and> length u < 2 ^ 64 \<and>
    signByCertificate example_env (sample_data [9]) example_name m =
      Inr (example_signed\<lparr> d_wire := Some (setSignedPortion 0 (of_nat (length u)) \<lparr> sb_bytes = u, sb_signedBegin = 0, sb_signedEnd = 0 \<rparr>) \<rparr>)"
proof -
  let ?ks = "im_private m" and ?k = "c_publicKeyName cert" and ?n = "butlast (comps example_name)"
  have ks: "ks_files ?ks (nameTransform example_rsa (name_toUri ?k) ''.pri'' ?ks) = Some [1]"
      "ks_files ?ks (nameTransform example_rsa (name_toUri ?k) ''.pub'' ?ks) = Some (tree_bytes example_key)"
    using assms(2) by (simp_all add: holds_pair_def example_rsa_def example_crypto_def)
  have "publickey_fromDER example_from_iso (tree_bytes example_key) = Inr (c_key example_certificate)"
    using parse_tree_bytes [OF example_facts(4,5)] example_facts(6) by (auto simp: publickey_fromDER_def)
  then have pub: "store_getPublickey example_rsa example_from_iso ?k ?ks = Inr (c_key example_certificate)"
    using ks(2) by (simp add: store_getPublickey_def store_doesKeyExist_def key_class_ext_def) (simp add: example_rsa_def example_crypto_def)
  have sgn: "store_sign example_rsa b ?k DIGEST_SHA256 ?ks = Inr (Some (replicate 256 7))" for b
    using ks(1) by (simp add: store_sign_def store_doesKeyExist_def key_class_ext_def) (simp add: example_rsa_def)
  have "getPrefix example_name (of_nat (name_size example_name) - 1) 0 = Inr (Name ?n)"
    using sub_name_nat [OF example_name_parts(1,2), of 0 4] by (simp add: getPrefix_def example_name_def name_size_def)
  then have sig: "signature_for example_env example_name (c_key example_certificate) = Inr (example_signature\<lparr> m_signatureBits := [] \<rparr>)"
    by (simp add: signature_for_def setType_def new_locator_def setKeyName_def getDigest_def example_env_def new_signature_def
      example_signature_def)
  obtain u where u: "encodeToUnsignedWire example_signed = Inr u" "length u < 2 ^ 64"
    using write_unsigned [OF example_signed_encodable, of "[]"] example_signed_length(2) by (simp add: encodeToUnsignedWire_def)
  have "encodeToUnsignedWire ((sample_data [9])\<lparr> d_signature := Some (example_signature\<lparr> m_signatureBits := [] \<rparr>) \<rparr>) = Inr u"
    using unsigned_ignores_bits [where d = "sample_data [9]" and sig = "example_signature\<lparr> m_signatureBits := [] \<rparr>" and s = "replicate 256 7" and w = None] u(1)
    by (simp add: example_signed_def example_signature_def sample_data_def)
  then show ?thesis
    using assms(1) u pub sgn sig
    by (auto simp: signByCertificate_def private_sign_def Let_def example_env_def example_signed_def example_signature_def)
qed

theorem identity_default_certificate_witness:
  "\<exists>m'. addCertificateAsIdentityDefault (example_env\<lparr> e_datetime := example_datetime \<rparr>) example_identity_certificate
      \<lparr> im_public = example_db, im_private = \<lparr> ks_path = ''d'', ks_files = (\<lambda>f. None) \<rparr> \<rparr> = (Inr (), m') \<and>
    getDefaultCertificateNameByIdentity (Name [Component [97]]) m' = Inr (Name [Component [104, 105]])"
proof -
  let ?e = "example_env\<lparr> e_datetime := example_datetime \<rparr>" and ?c = example_identity_certificate
  let ?m = "\<lparr> im_public = example_db, im_private = \<lparr> ks_path = ''d'', ks_files = (\<lambda>f. None) \<rparr> \<rparr>"
  obtain db1 where db1: "storage_addCertificate example_datetime ?c example_db = (Inr (), db1)"
    using example_added by blast
  note s = example_split [folded example_fields(3)]
  let ?db2 = "snd (setDefaultKeyNameForIdentity (c_publicKeyName ?c) (Name []) db1)"
  have "doesKeyExist (c_publicKeyName ?c) db1 = Inr True"
    using added_certificate [OF db1] by (auto simp: doesKeyExist_def)
  moreover have "set (map (\<lambda>r. (k_identity r, k_identifier r)) (db_key ?db2)) = set (map (\<lambda>r. (k_identity r, k_identifier r)) (db_key db1))"
    unfolding setDefaultKey_state [OF s disjI1 [OF refl]] snd_conv default_key_tables key_table.choose_keys ..
  ultimately have k2: "doesKeyExist (c_publicKeyName ?c) ?db2 = Inr True" unfolding doesKeyExist_row [OF s] by simp
  obtain m' where m': "addCertificateAsIdentityDefault ?e ?c ?m = (Inr (), m')"
    using db1 k2 setDefaultKey_state [OF s disjI1 [OF refl], of db1] setDefaultCert_state [OF s]
    by (auto simp: addCertificateAsIdentityDefault_def im_addCertificate_def setDefaultKeyForIdentity_def
      setDefaultCertificateForKey_def bindA_def zoom_def)
  have "no_slash (d_name ?c)" "name_wf (d_name ?c)" "name_wf (c_publicKeyName ?c)" "name_size (c_publicKeyName ?c) < 2 ^ 31"
    "comps (c_publicKeyName ?c) = [Component [97]] @ [Component [98]]"
    by (simp_all add: example_fields no_slash_def name_wf_def name_size_def)
  from identity_default_certificate [OF m' _ this(3-5,2,1)] m' show ?thesis
    by (simp add: example_db_ok example_fields)
qed

section \<open>Generated keys are registered\<close>

lemma plain_text: "\<forall>c\<in>set s. \<not> must_escape (byte_of_char c) \<Longrightarrow> fromEscaped s = Inr (map byte_of_char s)"
proof (induction s)
  case (Cons c s)
  have "must_escape (byte_of_char (CHR ''%''))" by (simp add: must_escape_iff unat_byte_of_char)
  then have "c \<noteq> CHR ''%''" using Cons.prems by auto
  then show ?case using Cons by simp
qed simp

lemma key_identifier_plain:
  assumes "c \<in> set ((if ksk then ''ksk-'' else ''dsk-'') @ print_int v)"
  shows "\<not> must_escape (byte_of_char c) \<and> byte_of_char c \<noteq> 0x2F"
proof -
  have "is_decimal c \<or> c \<in> set ''kds-''"
    using assms decimal_chars [of "nat v"] decimal_chars [of "nat (- v)"]
    by (auto simp: print_int_def split: if_splits)
  moreover have "\<not> must_escape (byte_of_char c) \<and> unat (byte_of_char c) \<noteq> 47" if "is_decimal c"
    using that by (auto simp: is_decimal_def must_escape_iff unat_byte_of_char)
  moreover have "\<not> must_escape (byte_of_char c) \<and> unat (byte_of_char c) \<noteq> 47" if "c \<in> set ''kds-''"
    using that by (auto simp: must_escape_iff unat_byte_of_char)
  ultimately have "\<not> must_escape (byte_of_char c) \<and> unat (byte_of_char c) \<noteq> 47" by blast
  then show ?thesis by auto
qed

lemma new_key_name:
  assumes "getNewKeyName now identity ksk db = Inr keyName" and "name_wf identity" "no_slash identity"
  shows "\<exists>c. comps keyName = comps identity @ [c] \<and> name_wf keyName \<and> no_slash keyName"
proof -
  let ?s = "(if ksk then ''ksk-'' else ''dsk-'') @ print_int (total_seconds now)"
  let ?c = "Component (map byte_of_char ?s)"
  have "fromEscaped ?s = Inr (map byte_of_char ?s)"
    by (rule plain_text) (use key_identifier_plain [of _ ksk "total_seconds now"] in blast)
  then have "append_string identity ?s = Inr (Name (comps identity @ [?c]))"
    by (simp add: append_string_def component_of_uri_def appendBySwap_def component_size_def)
  then have "keyName = Name (comps identity @ [?c])"
    using assms(1) by (auto simp: getNewKeyName_def bindE_Inr_iff split: if_splits)
  moreover have "0x2F \<notin> byte_of_char ` A" if "\<forall>c\<in>A. byte_of_char c \<noteq> 0x2F" for A using that by (metis imageE)
  then have "0x2F \<notin> set (map byte_of_char ?s)"
    unfolding set_map using key_identifier_plain [of _ ksk "total_seconds now"] by blast
  ultimately show ?thesis
    using assms(2,3) by (auto simp: name_wf_def no_slash_def)
qed

lemma added_key:
  assumes "addKey keyName keyType b db = (Inr (), db')" and "split_key keyName = Inr (keyId, identity)"
  shows "getKey_blob keyName db' = Inr (Some b) \<and> doesIdentityExist identity db'"
proof -
  let ?u = "name_toUri identity"
  let ?row = "\<lparr> k_identity = ?u, k_identifier = keyId, k_type = keyType, k_public = b, k_default = 0, k_active = 0 \<rparr>"
  let ?m = "bindA (readA (doesIdentityExist identity)) (\<lambda>ex. if \<not> ex then addIdentity identity else retA ())"
  have a: "addKey keyName keyType b db = bindA ?m (\<lambda>_. bindA (askA (doesKeyExist keyName)) (\<lambda>ex.
      if ex then throwA SecException else writeA (insert_key ?row))) db"
    by (simp add: addKey_def assms(2) bindA_def [of "pureA _"])
  obtain db1 where db1: "?m db = (Inr (), db1)" "doesKeyExist keyName db1 = Inr False" "db' = insert_key ?row db1"
  proof -
    obtain x db1 where x: "?m db = (Inr x, db1)" "bindA (askA (doesKeyExist keyName)) (\<lambda>ex.
        if ex then throwA SecException else writeA (insert_key ?row)) db1 = (Inr (), db')"
      using assms(1) bindA_Inr [of ?m] unfolding a by metis
    then have "doesKeyExist keyName db1 = Inr False \<and> db' = insert_key ?row db1"
      by (auto simp: bindA_def [of "askA _"] split: sum.splits if_splits)
    then show thesis using that x(1) by simp
  qed
  have i: "?u \<in> set (map id_uri (db_identity db1))"
  proof (cases "doesIdentityExist identity db")
    case True
    then have "db1 = db" using db1(1) by (simp add: bindA_def)
    then show ?thesis using True doesIdentityExist_iff by blast
  next
    case False
    then have "db1 = insert_identity \<lparr> id_uri = ?u, id_default = 0 \<rparr> db" using db1(1) by (simp add: bindA_def addIdentity_def)
    then show ?thesis by (simp add: insert_tables)
  qed
  have n: "(?u, keyId) \<notin> set (map (\<lambda>r. (k_identity r, k_identifier r)) (db_key db1))"
    using db1(2) unfolding doesKeyExist_row [OF assms(2)] by simp
  then have k: "db_key db' = db_key db1 @ [?row]" unfolding db1(3) insert_tables by simp
  have "\<not> has_key ?u keyId r" if "r \<in> set (db_key db1)" for r
  proof
    assume "has_key ?u keyId r"
    then have "(?u, keyId) = (\<lambda>r. (k_identity r, k_identifier r)) r" by (simp add: has_key_def)
    then have "(?u, keyId) \<in> set (map (\<lambda>r. (k_identity r, k_identifier r)) (db_key db1))"
      unfolding set_map using that by (rule image_eqI)
    then show False using n by blast
  qed
  then have "find (has_key ?u keyId) (db_key db') = Some ?row"
    unfolding k using find_snoc [of "db_key db1" "has_key ?u keyId" ?row] by (simp add: has_key_def)
  moreover have "doesKeyExist keyName db' = Inr True" unfolding doesKeyExist_row [OF assms(2)] k by simp
  moreover have "doesIdentityExist identity db'" using i unfolding doesIdentityExist_iff db1(3) insert_tables .
  ultimately show ?thesis using assms(2) by (simp add: getKey_blob_def)
qed

text \<open>Property C19. A key pair that the identity manager generates is registered consistently: the identity is
  stored, the name of the key is the name of the identity with one more component, the private storage holds
  the generated pair under that name, the public storage holds the public key that is read from the private
  storage, and the database stays consistent.\<close>

theorem generated_key_registered:
  assumes gen: "im_generateKeyPair e identity ksk KEY_TYPE_RSA sz m = (Inr keyName, m')"
    and wf: "name_wf identity" "no_slash identity" "name_size identity < 2 ^ 31 - 1" and ok: "db_ok (im_public m)"
  shows "\<exists>c pubKey. keyName = Name (comps identity @ [c]) \<and>
    holds_pair (e_crypto e) (im_private m') keyName (e_seed e) sz \<and>
    store_getPublickey (e_crypto e) (e_from_iso e) keyName (im_private m') = Inr pubKey \<and>
    getKey_blob keyName (im_public m') = Inr (Some (pk_key pubKey)) \<and>
    doesIdentityExist identity (im_public m') \<and> db_ok (im_public m')"
proof -
  obtain storeName ks pubKey db where
      n: "getNewKeyName (e_now e) identity ksk (im_public m) = Inr keyName" "name_of_uri (name_toUri keyName) = Inr storeName" and
      ks: "generateKeyPair (e_crypto e) (e_seed e) storeName KEY_TYPE_RSA sz (im_private m) = (Inr (), ks)"
        "store_getPublickey (e_crypto e) (e_from_iso e) storeName ks = Inr pubKey" and
      db: "addKey keyName KEY_TYPE_RSA (pk_key pubKey) (im_public m) = (Inr (), db)" and
      m': "m' = m\<lparr> im_private := ks, im_public := db \<rparr>"
    using gen by (auto simp: im_generateKeyPair_def bindA_Inr zoom_Inr)
  obtain c where c: "comps keyName = comps identity @ [c]" "name_wf keyName" "no_slash keyName"
    using new_key_name [OF n(1) wf(1,2)] by blast
  have s: "storeName = keyName" using n(2) name_uri_back [OF c(2,3)] by simp
  have "name_size keyName < 2 ^ 31" using c(1) wf(3) by (simp add: name_size_def)
  note k = split_key_snoc [OF c(2) this c(1)]
  have "keyName = Name (comps identity @ [c])" using c(1) by (cases keyName) simp
  moreover have "holds_pair (e_crypto e) ks keyName (e_seed e) sz" using generated_pair [OF ks(1)] s by simp
  moreover have "db_ok db" using preservesD [OF db_ok_addKey ok] db by (metis snd_conv)
  ultimately show ?thesis
    using added_key [OF db k] ks(2) s m' by simp
qed

theorem generated_key_registered_witness:
  "\<exists>keyName m'. im_generateKeyPair example_env (Name [Component [97]]) True KEY_TYPE_RSA 2048
      \<lparr> im_public = new_identity_storage None None None, im_private = \<lparr> ks_path = ''d'', ks_files = (\<lambda>f. None) \<rparr> \<rparr> = (Inr keyName, m') \<and>
    doesIdentityExist (Name [Component [97]]) (im_public m')"
proof -
  let ?ks = "\<lparr> ks_path = ''d'', ks_files = (\<lambda>f. None) \<rparr>" and ?db = "new_identity_storage None None None"
  let ?i = "Name [Component [97]]" and ?e = example_env
  have e: "e_now ?e = 86000000" "e_seed ?e = 0" "e_crypto ?e = example_rsa" "e_from_iso ?e = example_from_iso"
    by (simp_all add: example_env_def)
  have i: "name_wf ?i" "no_slash ?i" "name_size ?i < 2 ^ 31 - 1" by (simp_all add: name_wf_def no_slash_def name_size_def)
  obtain c where a: "append_string ?i (''ksk-'' @ print_int (total_seconds 86000000)) = Inr (Name [Component [97], c])" "bytes c \<noteq> []"
  proof
    let ?s = "''ksk-'' @ print_int (total_seconds 86000000)"
    have "fromEscaped ?s = Inr (map byte_of_char ?s)"
      by (rule plain_text) (use key_identifier_plain [of _ True "total_seconds 86000000"] in simp)
    then show "append_string ?i ?s = Inr (Name [Component [97], Component (map byte_of_char ?s)])"
      by (simp add: append_string_def component_of_uri_def appendBySwap_def component_size_def)
  qed simp
  let ?k = "Name [Component [97], c]"
  have kwf: "name_wf ?k" "name_size ?k < 2 ^ 31" using a(2) by (simp_all add: name_wf_def name_size_def)
  have sk: "split_key ?k = Inr (component_toUri c, ?i)"
    by (rule split_key_snoc [OF kwf]) simp
  have ex: "doesKeyExist ?k ?db = Inr False"
    unfolding doesKeyExist_row [OF sk] by (simp add: new_identity_storage_def open_table_def)
  have n: "getNewKeyName 86000000 ?i True ?db = Inr ?k" using a(1) ex by (simp add: getNewKeyName_def)
  have u: "name_of_uri (name_toUri ?k) = Inr ?k"
    using new_key_name [OF n i(1,2)] name_uri_back by blast
  obtain ks where ks: "generateKeyPair example_rsa 0 ?k KEY_TYPE_RSA 2048 ?ks = (Inr (), ks)"
    by (simp add: generateKeyPair_def bindA_def store_doesKeyExist_def)
  have "publickey_fromDER example_from_iso (tree_bytes example_key) = Inr (c_key example_certificate)"
    using parse_tree_bytes [OF example_facts(4,5)] example_facts(6) by (auto simp: publickey_fromDER_def)
  then have p: "store_getPublickey example_rsa example_from_iso ?k ks = Inr (c_key example_certificate)"
    using generated_pair [OF ks]
    by (simp add: store_getPublickey_def store_doesKeyExist_def key_class_ext_def holds_pair_def)
      (simp add: example_rsa_def example_crypto_def)
  have "\<exists>db. addKey ?k KEY_TYPE_RSA b ?db = (Inr (), db)" for b
  proof -
    have "\<not> doesIdentityExist ?i ?db" by (simp add: doesIdentityExist_iff new_identity_storage_def open_table_def)
    moreover have "doesKeyExist ?k (insert_identity r ?db) = Inr False" for r
      unfolding doesKeyExist_row [OF sk] insert_tables by (simp add: new_identity_storage_def open_table_def)
    ultimately show ?thesis by (simp add: addKey_def sk addIdentity_def bindA_def)
  qed
  then obtain db where "addKey ?k KEY_TYPE_RSA (pk_key (c_key example_certificate)) ?db = (Inr (), db)" by blast
  then obtain m' where g: "im_generateKeyPair ?e ?i True KEY_TYPE_RSA 2048 \<lparr> im_public = ?db, im_private = ?ks \<rparr> = (Inr ?k, m')"
    using n u ks p e by (simp add: im_generateKeyPair_def bindA_def zoom_def)
  from generated_key_registered [OF g i] db_ok_new g show ?thesis by auto
qed

section \<open>Missing entries\<close>

text \<open>
  An identity without a default key has no default certificate name: the lookup throws from \<open>Name::get\<close>
  on the empty key name, so the test for an empty certificate name in the key chain is not reached.
\<close>

lemma no_default_key_throws:
  assumes "getDefaultKeyNameForIdentity identity db = Inr (Name [])"
  shows "getDefaultCertificateNameForIdentity identity db = Inl ErrName"
proof -
  have "name_get (Name []) (-1) = Inl ErrName" by (simp add: name_get_def name_size_def)
  then show ?thesis
    using assms by (simp add: getDefaultCertificateNameForIdentity_def getDefaultCertificateNameForKey_def split_key_def)
qed

text \<open>A certificate that is not stored, or not valid now, is a null pointer that \<open>getCertificate\<close> dereferences.\<close>

lemma missing_certificate_undefined:
  "\<not> doesCertificateExist certName (im_public m) \<Longrightarrow> signByCertificate e data certName m = Inl UndefinedBehaviour"
  by (simp add: signByCertificate_def im_getCertificate_def storage_getCertificate_def)

text \<open>Making an unknown identity the default leaves no default identity.\<close>

lemma unknown_default_clears:
  assumes "\<not> doesIdentityExist identity db"
  shows "getDefaultIdentity (snd (setDefaultIdentity identity db)) = Inr (Name [])"
proof -
  let ?c = "choose_flag id_uri (\<lambda>r. ()) id_default (\<lambda>v r. r\<lparr> id_default := v \<rparr>) (name_toUri identity) () (db_identity db)"
  have "find (\<lambda>r. id_default r = 1) ?c = None"
  proof (rule ccontr)
    assume "find (\<lambda>r. id_default r = 1) ?c \<noteq> None"
    then obtain r where r: "r \<in> set ?c" "id_default r = 1" unfolding find_None_iff by blast
    then have "id_uri r = name_toUri identity" using identity_table.choose_flagged [OF r(1)] by simp
    then have "name_toUri identity \<in> set (map id_uri ?c)" using r(1) unfolding set_map by (metis imageI)
    then show False using assms unfolding identity_table.choose_keys doesIdentityExist_iff by blast
  qed
  then show ?thesis
    unfolding getDefaultIdentity_def setDefaultIdentity_def bindA_def by (simp add: default_identity_tables)
qed

end
