(* ===== verification/Encryption_Manager.thy ===== *)
theory Encryption_Manager
  imports Identity_Manager
begin

text \<open>
  \<open>ndn.cxx/security/encryption\<close>: the AES key object and the encryption manager, which keeps symmetric keys encrypted
  under a master key in an SQL database and hands asymmetric requests to the key store.  The tables are
  lists of rows, as for the identity storage.  The address of the first byte of an empty blob is the null pointer;
  SQLite binds it as NULL, which the column \<open>key_blob\<close> refuses.  Crypto++ exceptions that nobody catches
  are \<open>CryptoException\<close>; the use of a null \<open>Ptr\<close> is \<open>UndefinedBehaviour\<close>.
\<close>

section \<open>AES keys\<close>

datatype encrypt_mode = EM_DEFAULT | EM_CFB_AES

record aes_cipher =
  a_keyName :: string
  a_key :: blob
  a_iv :: blob

definition DEFAULT_KEYLENGTH :: nat where "DEFAULT_KEYLENGTH = 16"

text \<open>The two blocks are two draws of one random pool.\<close>

definition new_aes_cipher :: "crypto \<Rightarrow> nat \<Rightarrow> string \<Rightarrow> nat \<Rightarrow> nat \<Rightarrow> aes_cipher" where
  "new_aes_cipher cr seed keyName keySize ivSize =
     \<lparr> a_keyName = keyName, a_key = random_block cr seed keySize, a_iv = random_block cr (Suc seed) ivSize \<rparr>"

definition aes_toStr :: "aes_cipher \<Rightarrow> string" where
  "aes_toStr a = ''''"

definition aes_fromStr :: "string \<Rightarrow> aes_cipher option" where
  "aes_fromStr str = None"

definition aes_encrypt :: "crypto \<Rightarrow> blob \<Rightarrow> encrypt_mode \<Rightarrow> aes_cipher \<Rightarrow> blob result" where
  "aes_encrypt cr b em a =
     (if em = EM_CFB_AES
      then (case aes_cfb_encrypt cr (a_key a) (a_iv a) b of None \<Rightarrow> Inl CryptoException | Some c \<Rightarrow> Inr c)
      else Inl SecException)"

definition aes_decrypt :: "crypto \<Rightarrow> blob \<Rightarrow> encrypt_mode \<Rightarrow> aes_cipher \<Rightarrow> blob result" where
  "aes_decrypt cr b em a =
     (if em = EM_CFB_AES
      then (case aes_cfb_decrypt cr (a_key a) (a_iv a) b of None \<Rightarrow> Inl CryptoException | Some c \<Rightarrow> Inr c)
      else Inl SecException)"

section \<open>The manager\<close>

record master_row =
  mk_name :: string
  mk_type :: int
  mk_active :: int

record cipher_row =
  bc_name :: string
  bc_type :: key_type
  bc_blob :: blob
  bc_encryption :: int
  bc_encryptkey :: string

text \<open>\<open>em_defaultSym\<close> is \<open>None\<close> while the member is not initialised.\<close>

record encryption_manager =
  em_cipher :: "cipher_row list"
  em_master :: "master_row list"
  em_defaultKeyName :: name
  em_defaultSym :: "bool option"
  em_private :: key_store

abbreviation on_keys :: "(key_store, 'a) action \<Rightarrow> (encryption_manager, 'a) action" where
  "on_keys \<equiv> zoom em_private (\<lambda>ks m. m\<lparr> em_private := ks \<rparr>)"

definition insert_master :: "master_row \<Rightarrow> encryption_manager \<Rightarrow> encryption_manager" where
  "insert_master r m = (if mk_name r \<in> set (map mk_name (em_master m)) then m else m\<lparr> em_master := em_master m @ [r] \<rparr>)"

text \<open>
  The constructor on a database that has the tables \<open>ciphers\<close> and \<open>masters\<close>, if any.  A new table of master keys gets a fresh
  key, which \<open>generateKey\<close> makes with its default arguments.
\<close>

definition new_encryption_manager ::
    "crypto \<Rightarrow> nat \<Rightarrow> int \<Rightarrow> cipher_row list option \<Rightarrow> master_row list option \<Rightarrow> key_store \<Rightarrow> unit result \<times> encryption_manager" where
  "new_encryption_manager cr seed now ciphers masters ks =
     (let m0 = \<lparr> em_cipher = open_table ciphers, em_master = open_table masters, em_defaultKeyName = Name [],
                 em_defaultSym = None, em_private = ks \<rparr>
      in (case masters of
            None \<Rightarrow>
              bindA (pureA (name_of_uri (''/local-key/'' @ print_int (total_seconds now)))) (\<lambda>masterKeyName.
              bindA (writeA (\<lambda>m. m\<lparr> em_defaultKeyName := masterKeyName, em_defaultSym := Some True \<rparr>)) (\<lambda>_.
              bindA (on_keys (generateKey cr seed masterKeyName KEY_TYPE_AES 256)) (\<lambda>_.
              writeA (insert_master \<lparr> mk_name = name_toUri masterKeyName, mk_type = 1, mk_active = 1 \<rparr>))))
          | Some rows \<Rightarrow>
              (case find (\<lambda>r. mk_active r = 1) rows of
                 None \<Rightarrow> retA ()
               | Some r \<Rightarrow>
                   bindA (pureA (name_of_uri (mk_name r))) (\<lambda>keyName.
                   writeA (\<lambda>m. m\<lparr> em_defaultKeyName := keyName, em_defaultSym := Some (mk_type r = 1) \<rparr>)))) m0)"

definition doesKeyNameExist :: "string \<Rightarrow> encryption_manager \<Rightarrow> bool" where
  "doesKeyNameExist keyName m \<longleftrightarrow> length (filter (\<lambda>r. bc_name r = keyName) (em_cipher m)) > 0"

definition insert_cipher :: "cipher_row \<Rightarrow> encryption_manager \<Rightarrow> encryption_manager" where
  "insert_cipher r m =
     (if bc_name r \<in> set (map bc_name (em_cipher m)) \<or> bc_blob r = [] then m else m\<lparr> em_cipher := em_cipher m @ [r] \<rparr>)"

definition createSymKey ::
    "crypto \<Rightarrow> nat \<Rightarrow> name \<Rightarrow> key_type \<Rightarrow> name \<Rightarrow> bool \<Rightarrow> (encryption_manager, unit) action" where
  "createSymKey cr seed keyName keyType signkeyName symmetric =
     bindA (readA (doesKeyNameExist (name_toUri keyName))) (\<lambda>ex.
       if ex then throwA SecException
       else if keyType \<noteq> KEY_TYPE_AES then throwA SecException
       else
         (let symKey = new_aes_cipher cr seed (name_toUri keyName) DEFAULT_KEYLENGTH AES_BLOCKSIZE;
              xmlStr = aes_toStr symKey
          in bindA (askA (\<lambda>m. if name_size signkeyName = 0
                              then (case em_defaultSym m of None \<Rightarrow> Inl UndefinedBehaviour | Some b \<Rightarrow> Inr (em_defaultKeyName m, b))
                              else Inr (signkeyName, symmetric))) (\<lambda>(encryptName, encryptSym).
             if \<not> encryptSym then throwA SecException
             else bindA (askA (\<lambda>m. encrypt cr seed encryptName (string_bytes xmlStr) encryptSym (em_private m))) (\<lambda>keyBlob.
               case keyBlob of
                 None \<Rightarrow> throwA UndefinedBehaviour
               | Some b \<Rightarrow>
                   writeA (insert_cipher \<lparr> bc_name = name_toUri keyName, bc_type = keyType, bc_blob = b, bc_encryption = 1,
                     bc_encryptkey = name_toUri encryptName \<rparr>)))))"

text \<open>A null \<open>Ptr\<close> is \<open>None\<close>.\<close>

definition getSymmetricKey :: "crypto \<Rightarrow> nat \<Rightarrow> string \<Rightarrow> encryption_manager \<Rightarrow> aes_cipher option result" where
  "getSymmetricKey cr seed keyName m =
     (case find (\<lambda>r. bc_name r = keyName) (em_cipher m) of
        None \<Rightarrow> Inr None
      | Some r \<Rightarrow>
          bindE (name_of_uri (bc_encryptkey r)) (\<lambda>encryptKey.
            if bc_encryption r = 1 then
              bindE (decrypt cr seed encryptKey (bc_blob r) True (em_private m)) (\<lambda>keyBlob.
                if bc_type r = KEY_TYPE_AES then
                  (case keyBlob of
                     None \<Rightarrow> Inl UndefinedBehaviour
                   | Some b \<Rightarrow>
                       (case aes_fromStr (map char_of_byte b) of
                          None \<Rightarrow> Inl UndefinedBehaviour
                        | Some a \<Rightarrow> Inr (if a_keyName a = keyName then Some a else None)))
                else Inl SecException)
            else Inl SecException))"

definition em_encrypt :: "crypto \<Rightarrow> nat \<Rightarrow> name \<Rightarrow> blob \<Rightarrow> bool \<Rightarrow> encrypt_mode \<Rightarrow> encryption_manager \<Rightarrow> blob option result" where
  "em_encrypt cr seed keyName b symmetric em m =
     (if symmetric then
        bindE (getSymmetricKey cr seed (name_toUri keyName) m) (\<lambda>key.
          case key of None \<Rightarrow> Inl UndefinedBehaviour | Some a \<Rightarrow> bindE (aes_encrypt cr b em a) (\<lambda>c. Inr (Some c)))
      else bindE (name_of_uri (name_toUri keyName)) (\<lambda>n. encrypt cr seed n b False (em_private m)))"

definition em_decrypt :: "crypto \<Rightarrow> nat \<Rightarrow> name \<Rightarrow> blob \<Rightarrow> bool \<Rightarrow> encrypt_mode \<Rightarrow> encryption_manager \<Rightarrow> blob option result" where
  "em_decrypt cr seed keyName b symmetric em m =
     (if symmetric then
        bindE (getSymmetricKey cr seed (name_toUri keyName) m) (\<lambda>key.
          case key of None \<Rightarrow> Inl UndefinedBehaviour | Some a \<Rightarrow> bindE (aes_decrypt cr b em a) (\<lambda>c. Inr (Some c)))
      else bindE (name_of_uri (name_toUri keyName)) (\<lambda>n. decrypt cr seed n b False (em_private m)))"

section \<open>The master key\<close>

lemma plain_escaped: "\<forall>c\<in>set s. \<not> must_escape (byte_of_char c) \<Longrightarrow> toEscaped (map byte_of_char s) = s"
  by (induction s) (simp_all add: escape_byte_def)

definition master_name :: "int \<Rightarrow> name" where
  "master_name v = Name [Component (map byte_of_char ''local-key''), Component (map byte_of_char (print_int v))]"

lemma print_int_plain:
  assumes "c \<in> set (print_int v)" shows "\<not> must_escape (byte_of_char c) \<and> byte_of_char c \<noteq> 0x2F"
  using key_identifier_plain [of c True v] assms by simp

lemma print_int_not_empty: "print_int v \<noteq> []"
  using decimal_chars by (simp add: print_int_def)

lemma master_name_uri:
  "name_toUri (master_name v) = ''/local-key/'' @ print_int v"
  "name_of_uri (''/local-key/'' @ print_int v) = Inr (master_name v)"
proof -
  have l: "\<forall>c\<in>set ''local-key''. \<not> must_escape (byte_of_char c)" by (simp add: must_escape_iff unat_byte_of_char)
  show u: "name_toUri (master_name v) = ''/local-key/'' @ print_int v"
    using plain_escaped [OF l] plain_escaped [of "print_int v"] print_int_plain
    by (simp add: master_name_def name_toUri_def component_toUri_def name_size_def)
  have "0x2F \<notin> set (map byte_of_char (print_int v))" using print_int_plain [of _ v] by (metis (no_types) imageE set_map)
  moreover have "0x2F \<notin> set (map byte_of_char ''local-key'')" by (simp add: byte_of_char_def)
  ultimately have "name_wf (master_name v)" "no_slash (master_name v)"
    using print_int_not_empty [of v] by (simp_all add: master_name_def name_wf_def no_slash_def)
  from name_uri_back [OF this] show "name_of_uri (''/local-key/'' @ print_int v) = Inr (master_name v)" by (simp add: u)
qed

lemma generated_symmetric:
  assumes "generateKey cr seed keyName KEY_TYPE_AES sz ks = (Inr (), ks')"
  shows "store_doesKeyExist cr keyName KEY_CLASS_SYMMETRIC ks'"
proof -
  have "nameTransform cr u e (write_file f b s) = nameTransform cr u e s" for u e f b s by (rule nameTransform_path) simp
  then show ?thesis
    using assms
    by (auto simp: generateKey_def bindA_Inr store_doesKeyExist_def key_class_ext_def Let_def writeSymetricKey_def split: if_splits)
qed

text \<open>Property C31. The master key survives: when the manager is opened on a database without tables, it creates a symmetric
  master key in the key store and makes it the default; opening it again on the tables it left gives the
  same default key, which the key store still has, and no new one.\<close>

theorem master_key_persists:
  assumes "new_encryption_manager cr seed now None None ks = (Inr (), m)"
  shows "em_defaultKeyName m = master_name (total_seconds now) \<and> em_defaultSym m = Some True \<and>
    store_doesKeyExist cr (em_defaultKeyName m) KEY_CLASS_SYMMETRIC (em_private m) \<and>
    new_encryption_manager cr seed' now' (Some (em_cipher m)) (Some (em_master m)) (em_private m) = (Inr (), m)"
proof -
  let ?n = "master_name (total_seconds now)"
  obtain ks' where g: "generateKey cr seed ?n KEY_TYPE_AES 256 ks = (Inr (), ks')" and
      m: "m = \<lparr> em_cipher = [], em_master = [\<lparr> mk_name = name_toUri ?n, mk_type = 1, mk_active = 1 \<rparr>],
        em_defaultKeyName = ?n, em_defaultSym = Some True, em_private = ks' \<rparr>"
    using assms master_name_uri(2) [of "total_seconds now"]
    by (auto simp: new_encryption_manager_def bindA_Inr zoom_Inr insert_master_def open_table_def)
  have "name_of_uri (name_toUri ?n) = Inr ?n" unfolding master_name_uri(1) by (rule master_name_uri(2))
  then show ?thesis
    using generated_symmetric [OF g] by (simp add: m new_encryption_manager_def open_table_def bindA_eq)
qed

definition example_keys :: key_store where
  "example_keys = \<lparr> ks_path = ''d'', ks_files = (\<lambda>f. None) \<rparr>"

theorem master_key_persists_witness:
  "\<exists>m. new_encryption_manager example_crypto 0 86400000000 None None example_keys = (Inr (), m) \<and>
     em_defaultKeyName m = master_name 86400 \<and>
     new_encryption_manager example_crypto 1 0 (Some (em_cipher m)) (Some (em_master m)) (em_private m) = (Inr (), m)"
proof -
  obtain ks' where g: "generateKey example_crypto 0 (master_name 86400) KEY_TYPE_AES 256 example_keys = (Inr (), ks')"
    by (simp add: generateKey_def bindA_def store_doesKeyExist_def example_keys_def)
  have t: "total_seconds 86400000000 = 86400" by (simp add: total_seconds_def)
  have "\<exists>m. new_encryption_manager example_crypto 0 86400000000 None None example_keys = (Inr (), m)"
    using g master_name_uri(2) [of 86400]
    by (simp add: new_encryption_manager_def bindA_def zoom_def t)
  then show ?thesis using master_key_persists [of example_crypto 0 86400000000 example_keys _ 1 0] t by auto
qed

section \<open>Encryption\<close>

text \<open>
  Property C30. The symmetric service never delivers: a key object is stored as the empty text and cannot be read back, so every
  request to encrypt or decrypt with a symmetric key ends in an exception or in undefined behaviour, whatever is stored.
\<close>

theorem symmetric_requests_fail:
  "(\<exists>e. em_encrypt cr seed keyName b True em m = Inl e) \<and> (\<exists>e. em_decrypt cr seed keyName b True em m = Inl e)"
proof -
  have "getSymmetricKey cr seed u m \<noteq> Inr (Some a)" for u a
    by (auto simp: getSymmetricKey_def aes_fromStr_def bindE_Inr_iff split: option.splits if_splits)
  then show ?thesis
    unfolding em_encrypt_def em_decrypt_def
    by (cases "getSymmetricKey cr seed (name_toUri keyName) m") (auto split: option.splits)
qed

text \<open>What the asymmetric service relies on of Crypto++: a generated private key decrypts what its public key encrypted.\<close>

definition rsa_encryption_ok :: "crypto \<Rightarrow> bool" where
  "rsa_encryption_ok cr \<longleftrightarrow> (\<forall>b. base64_decode cr (base64_encode cr b) = b) \<and>
     (\<forall>seed sz seed' m c. rsa_encrypt cr seed' (snd (rsa_generate cr seed sz)) m = Some c \<longrightarrow>
        rsa_decrypt cr (fst (rsa_generate cr seed sz)) c = Some m)"

text \<open>Property C26. Asymmetric encryption through the manager round-trips: with a key pair that the key store generated, what
  \<open>encrypt\<close> returns for a message is what the generated public key gives, and \<open>decrypt\<close> recovers the message from it.\<close>

theorem asymmetric_roundtrip:
  assumes gen: "generateKeyPair cr seed keyName KEY_TYPE_RSA sz ks = (Inr (), em_private m)"
    and ok: "rsa_encryption_ok cr" and name: "name_wf keyName" "no_slash keyName"
  shows "\<exists>r. em_encrypt cr seed' keyName b False em m = Inr r \<and> r = rsa_encrypt cr seed' (snd (rsa_generate cr seed sz)) b \<and>
    (\<forall>c. r = Some c \<longrightarrow> em_decrypt cr seed'' keyName c False em' m = Inr (Some b))"
proof -
  let ?ks = "em_private m"
  note f = generated_files [OF gen]
  have p: "nameTransform cr u e ?ks = nameTransform cr u e ks" for u e using nameTransform_path f(1) by metis
  have b: "base64_decode cr (base64_encode cr x) = x" for x using ok by (simp add: rsa_encryption_ok_def)
  have ex: "store_doesKeyExist cr keyName KEY_CLASS_PUBLIC ?ks" "store_doesKeyExist cr keyName KEY_CLASS_PRIVATE ?ks"
    using f(2,3) by (simp_all add: store_doesKeyExist_def key_class_ext_def p)
  have "em_encrypt cr seed' keyName b False em m = Inr (rsa_encrypt cr seed' (snd (rsa_generate cr seed sz)) b)"
    using ex(1) f(3) by (simp add: em_encrypt_def name_uri_back [OF name] encrypt_def Let_def p b)
  moreover have "em_decrypt cr seed'' keyName c False em' m = Inr (rsa_decrypt cr (fst (rsa_generate cr seed sz)) c)" for c
    using ex(2) f(2) by (simp add: em_decrypt_def name_uri_back [OF name] decrypt_def Let_def p b)
  ultimately show ?thesis using ok unfolding rsa_encryption_ok_def by auto
qed

theorem asymmetric_roundtrip_witness:
  "\<exists>ks'. generateKeyPair example_crypto 0 (Name [Component [97]]) KEY_TYPE_RSA 2048 example_keys = (Inr (), ks') \<and>
     (let m = \<lparr> em_cipher = [], em_master = [], em_defaultKeyName = Name [], em_defaultSym = None, em_private = ks' \<rparr>
      in em_encrypt example_crypto 3 (Name [Component [97]]) [5, 6] False EM_DEFAULT m = Inr (Some [5, 6]) \<and>
         em_decrypt example_crypto 4 (Name [Component [97]]) [5, 6] False EM_DEFAULT m = Inr (Some [5, 6]))"
proof -
  obtain ks' where g: "generateKeyPair example_crypto 0 (Name [Component [97]]) KEY_TYPE_RSA 2048 example_keys = (Inr (), ks')"
    by (simp add: generateKeyPair_def bindA_def store_doesKeyExist_def example_keys_def)
  have "rsa_encryption_ok example_crypto" "name_wf (Name [Component [97]])" "no_slash (Name [Component [97]])"
    by (simp_all add: rsa_encryption_ok_def example_crypto_def name_wf_def no_slash_def)
  from asymmetric_roundtrip [OF _ this, of 0 2048 example_keys
      "\<lparr> em_cipher = [], em_master = [], em_defaultKeyName = Name [], em_defaultSym = None, em_private = ks' \<rparr>" 3 "[5, 6]" EM_DEFAULT 4 EM_DEFAULT] g
  show ?thesis by (auto simp: example_crypto_def)
qed

text \<open>A key object decrypts in CFB mode what it encrypted; every other mode is refused.\<close>

lemma aes_roundtrip:
  assumes "\<forall>k iv m c. aes_cfb_encrypt cr k iv m = Some c \<longrightarrow> aes_cfb_decrypt cr k iv c = Some m"
    and "aes_encrypt cr b em a = Inr c"
  shows "aes_decrypt cr c em a = Inr b"
  using assms by (auto simp: aes_encrypt_def aes_decrypt_def split: if_splits option.splits)

section \<open>The table of keys\<close>

lemma createSymKey_keeps:
  assumes "distinct (map bc_name (em_cipher m))"
  shows "distinct (map bc_name (em_cipher (snd (createSymKey cr seed keyName keyType signkeyName symmetric m))))"
  using assms
  by (auto simp: createSymKey_def bindA_def insert_cipher_def Let_def split: option.splits sum.splits prod.splits)

end
