(* ===== verification/Ndnb_Stream.thy ===== *)
theory Ndnb_Stream
  imports Ndnb_Wire
begin

text \<open>
  \<open>ndn.cxx/wire/ndnb.{h,cc}\<close>: the ndnb encoder over a \<open>std::ostream\<close> that the wrapper uses
  for names and interest templates, beside the one of \<open>wire/ndnb/wire-ndnb.cc\<close>.  Block headers,
  numbers and timestamps are computed by the same code in both; the lemmas show which packets
  the two agree on and what the parser and the visitors make of the output.
\<close>

definition NDN_DTAG_Any :: uint32 where "NDN_DTAG_Any = 13"
definition NDN_DTAG_Key :: uint32 where "NDN_DTAG_Key = 27"
definition NDN_DTAG_Exclude :: uint32 where "NDN_DTAG_Exclude = 43"
definition NDN_DTAG_FinalBlockID :: uint32 where "NDN_DTAG_FinalBlockID = 59"
definition NDN_DTAG_ContentObject :: uint32 where "NDN_DTAG_ContentObject = 64"

lemmas stream_dtag_defs = NDN_DTAG_Any_def NDN_DTAG_Key_def NDN_DTAG_Exclude_def NDN_DTAG_FinalBlockID_def
  NDN_DTAG_ContentObject_def

section \<open>The encoder\<close>

definition ndnb_appendBlockHeader :: "blob \<Rightarrow> uint64 \<Rightarrow> ndn_tt \<Rightarrow> blob" where
  "ndnb_appendBlockHeader os val tt = os @ header_bytes val tt"

definition ndnb_appendCloser :: "blob \<Rightarrow> blob" where
  "ndnb_appendCloser os = os @ [NDN_CLOSE]"

definition ndnb_appendNumber :: "blob \<Rightarrow> uint32 \<Rightarrow> blob" where
  "ndnb_appendNumber os number =
     (let numberStr = decimal (unat number);
          os = ndnb_appendBlockHeader os (of_nat (length numberStr)) NDN_UDATA
      in os @ string_bytes numberStr)"

definition ndnb_appendTaggedBlob :: "blob \<Rightarrow> uint32 \<Rightarrow> blob \<Rightarrow> blob" where
  "ndnb_appendTaggedBlob os dtag buf =
     (let os = ndnb_appendBlockHeader os (ucast dtag) NDN_DTAG;
          os = (if 0 < length buf then ndnb_appendBlockHeader os (of_nat (length buf)) NDN_BLOB @ buf else os)
      in ndnb_appendCloser os)"

definition ndnb_appendTaggedNumber :: "blob \<Rightarrow> uint32 \<Rightarrow> uint32 \<Rightarrow> blob" where
  "ndnb_appendTaggedNumber os dtag number =
     ndnb_appendCloser (ndnb_appendNumber (ndnb_appendBlockHeader os (ucast dtag) NDN_DTAG) number)"

definition ndnb_appendString :: "blob \<Rightarrow> uint32 \<Rightarrow> string \<Rightarrow> blob" where
  "ndnb_appendString os dtag str =
     (let os = ndnb_appendBlockHeader os (ucast dtag) NDN_DTAG;
          os = ndnb_appendBlockHeader os (of_nat (length str)) NDN_UDATA
      in ndnb_appendCloser (os @ string_bytes str))"

definition ndnb_appendName :: "blob \<Rightarrow> name \<Rightarrow> blob" where
  "ndnb_appendName os n =
     (let os = ndnb_appendBlockHeader os (ucast NDN_DTAG_Name) NDN_DTAG;
          os = foldl (\<lambda>os c. ndnb_appendTaggedBlob os NDN_DTAG_Component (bytes c)) os (comps n)
      in ndnb_appendCloser os)"

definition ndnb_appendTimestampBlob :: "blob \<Rightarrow> time_interval \<Rightarrow> blob" where
  "ndnb_appendTimestampBlob os time =
     ndnb_appendBlockHeader os (of_nat (required_bytes 2 (drop_bit 4 (total_seconds time)))) NDN_BLOB @
     timestamp_bytes time"

definition append_exclude_item :: "blob \<Rightarrow> component \<times> bool \<Rightarrow> blob" where
  "append_exclude_item os item =
     (let os = (if bytes (fst item) \<noteq> [] then ndnb_appendTaggedBlob os NDN_DTAG_Component (bytes (fst item)) else os)
      in if snd item then ndnb_appendCloser (ndnb_appendBlockHeader os (ucast NDN_DTAG_Any) NDN_DTAG) else os)"

definition ndnb_appendExclude :: "blob \<Rightarrow> exclude \<Rightarrow> blob" where
  "ndnb_appendExclude os ex =
     (let os = ndnb_appendBlockHeader os (ucast NDN_DTAG_Exclude) NDN_DTAG;
          os = foldl append_exclude_item os (rev (m_exclude ex))
      in ndnb_appendCloser os)"

definition ndnb_appendInterest :: "blob \<Rightarrow> interest \<Rightarrow> blob" where
  "ndnb_appendInterest os i =
     (let os = ndnb_appendBlockHeader os (ucast NDN_DTAG_Interest) NDN_DTAG;
          os = ndnb_appendName os (Name []);
          os = append_when (i_minSuffixComponents i \<noteq> ncomps)
            (\<lambda>s. ndnb_appendTaggedNumber s NDN_DTAG_MinSuffixComponents (i_minSuffixComponents i)) os;
          os = append_when (i_maxSuffixComponents i \<noteq> ncomps)
            (\<lambda>s. ndnb_appendTaggedNumber s NDN_DTAG_MaxSuffixComponents (i_maxSuffixComponents i)) os;
          os = append_when (0 < exclude_size (i_exclude i)) (\<lambda>s. ndnb_appendExclude s (i_exclude i)) os;
          os = append_when (i_childSelector i \<noteq> CHILD_DEFAULT)
            (\<lambda>s. ndnb_appendTaggedNumber s NDN_DTAG_ChildSelector (ucast (i_childSelector i))) os;
          os = append_when (i_answerOriginKind i \<noteq> AOK_DEFAULT)
            (\<lambda>s. ndnb_appendTaggedNumber s NDN_DTAG_AnswerOriginKind (i_answerOriginKind i)) os;
          os = append_when (i_scope i \<noteq> NO_SCOPE)
            (\<lambda>s. ndnb_appendTaggedNumber s NDN_DTAG_Scope (ucast (i_scope i))) os;
          os = append_when (\<not> i_interestLifetime i < 0)
            (\<lambda>s. ndnb_appendCloser (ndnb_appendTimestampBlob
               (ndnb_appendBlockHeader s (ucast NDN_DTAG_InterestLifetime) NDN_DTAG) (i_interestLifetime i))) os
      in ndnb_appendCloser os)"

text \<open>The \<open>userData\<close> of \<open>appendSignature\<close> selects the part of the signature that is written.\<close>

datatype signature_part = SIGNATURE_Block | SIGNATURE_INFO_PublisherPublicKeyDigest | SIGNATURE_INFO_KeyLocator

definition ndnb_appendKeyLocator :: "blob \<Rightarrow> key_locator \<Rightarrow> blob result" where
  "ndnb_appendKeyLocator os l =
     (case getType l of
        NOTSET \<Rightarrow> Inr os
      | KEY \<Rightarrow> bindE (getKey l) (\<lambda>k. Inr (ndnb_appendTaggedBlob os NDN_DTAG_Key k))
      | CERTIFICATE \<Rightarrow> bindE (getCertificate l) (\<lambda>c. Inr (ndnb_appendTaggedBlob os NDN_DTAG_Key c))
      | KEYNAME \<Rightarrow> bindE (getKeyName l) (\<lambda>n.
          Inr (ndnb_appendCloser (ndnb_appendName (ndnb_appendBlockHeader os (ucast NDN_DTAG_KeyName) NDN_DTAG) n))))"

definition ndnb_appendSignature :: "blob \<Rightarrow> sha256_with_rsa \<Rightarrow> signature_part \<Rightarrow> blob result" where
  "ndnb_appendSignature os sig userData =
     (case userData of
        SIGNATURE_Block \<Rightarrow>
          Inr (ndnb_appendCloser (ndnb_appendTaggedBlob
            (ndnb_appendBlockHeader os (ucast NDN_DTAG_Signature) NDN_DTAG) NDN_DTAG_SignatureBits (m_signatureBits sig)))
      | SIGNATURE_INFO_PublisherPublicKeyDigest \<Rightarrow>
          Inr (ndnb_appendTaggedBlob os NDN_DTAG_PublisherPublicKeyDigest (m_publisherKeyDigest sig))
      | SIGNATURE_INFO_KeyLocator \<Rightarrow>
          bindE (ndnb_appendKeyLocator (ndnb_appendBlockHeader os (ucast NDN_DTAG_Signature) NDN_DTAG) (m_keyLocator sig))
            (\<lambda>os. Inr (ndnb_appendCloser os)))"

fun TYPES :: "content_type \<Rightarrow> blob" where
  "TYPES DATA = [0x0C, 0x04, 0xC0]"
| "TYPES ENCR = [0x10, 0xD0, 0x91]"
| "TYPES GONE = [0x18, 0xE3, 0x44]"
| "TYPES CONTENT_KEY = [0x28, 0x46, 0x3F]"
| "TYPES LINK = [0x2C, 0x83, 0x4A]"
| "TYPES NACK = [0x34, 0x00, 0x8A]"

text \<open>\<open>noFreshness\<close> is the empty interval and \<open>noFinalBlock\<close> the empty component; the number
  of seconds is passed as a \<open>uint32_t\<close>.  A timestamp or type that was never set is read.\<close>

definition ndnb_appendData :: "blob \<Rightarrow> ndn_data \<Rightarrow> blob result" where
  "ndnb_appendData os d =
     (case d_signature d of
        None \<Rightarrow> Inl ErrWireNdnb
      | Some sig \<Rightarrow>
          bindE (ndnb_appendSignature (ndnb_appendBlockHeader os (ucast NDN_DTAG_ContentObject) NDN_DTAG) sig SIGNATURE_Block) (\<lambda>os.
          let os = ndnb_appendName os (d_name d);
              os = ndnb_appendBlockHeader os (ucast NDN_DTAG_SignedInfo) NDN_DTAG
          in bindE (ndnb_appendSignature os sig SIGNATURE_INFO_PublisherPublicKeyDigest) (\<lambda>os.
          case m_timestamp (d_content d) of
            None \<Rightarrow> Inl UndefinedBehaviour
          | Some ts \<Rightarrow>
              let os = ndnb_appendTimestampBlob os ts
              in case m_type (d_content d) of
                   None \<Rightarrow> Inl UndefinedBehaviour
                 | Some ty \<Rightarrow>
                     let os = ndnb_appendTaggedBlob os NDN_DTAG_Type (TYPES ty);
                         os = append_when (m_freshness (d_content d) \<noteq> 0)
                           (\<lambda>s. ndnb_appendTaggedNumber s NDN_DTAG_FreshnessSeconds
                              (of_int (total_seconds (m_freshness (d_content d))))) os;
                         os = append_when (m_finalBlockId (d_content d) \<noteq> Component [])
                           (\<lambda>s. ndnb_appendTaggedBlob s NDN_DTAG_FinalBlockID (bytes (m_finalBlockId (d_content d)))) os
                     in bindE (ndnb_appendSignature os sig SIGNATURE_INFO_KeyLocator) (\<lambda>os.
                        let os = ndnb_appendCloser os;
                            os = ndnb_appendTaggedBlob os NDN_DTAG_Content (m_content (d_content d))
                        in Inr (ndnb_appendCloser os)))))"

section \<open>What the encoder writes\<close>

lemmas stream_append_defs = ndnb_appendBlockHeader_def ndnb_appendCloser_def ndnb_appendNumber_def
  ndnb_appendTaggedNumber_def ndnb_appendTimestampBlob_def

definition blob_block :: "uint32 \<Rightarrow> blob \<Rightarrow> block" where
  "blob_block t b = Dtag t [] (if b = [] then [] else [Blob b])"

lemma stream_tagged: "ndnb_appendTaggedBlob s t b = s @ enc_block (blob_block t b)"
  by (simp add: ndnb_appendTaggedBlob_def ndnb_appendBlockHeader_def ndnb_appendCloser_def blob_block_def)

lemma blob_block_tagged: "b \<noteq> [] \<Longrightarrow> blob_block t b = tagged_block t b"
  by (simp add: blob_block_def tagged_block_def)

lemma stream_number: "ndnb_appendTaggedNumber s t v = s @ enc_block (number_block t v)"
  by (simp add: stream_append_defs number_block_def string_bytes_def Let_def)

lemma stream_time_blob: "ndnb_appendTimestampBlob s v = s @ enc_block (Blob (timestamp_bytes v))"
  by (simp add: stream_append_defs timestamp_bytes_length)

lemma stream_time:
  "ndnb_appendCloser (ndnb_appendTimestampBlob (ndnb_appendBlockHeader s (ucast t) NDN_DTAG) v) =
    s @ enc_block (time_block t v)"
  by (simp add: stream_time_blob ndnb_appendBlockHeader_def ndnb_appendCloser_def time_block_def)

lemma stream_fold: "(\<And>s x. f s x = s @ g x) \<Longrightarrow> foldl f s xs = s @ concat (map g xs)"
  by (induction xs arbitrary: s) simp_all

lemma stream_name:
  assumes "name_encodable n"
  shows "ndnb_appendName s n = s @ enc_block (name_block n)"
proof -
  have "map (\<lambda>c. enc_block (blob_block NDN_DTAG_Component (bytes c))) (comps n) = map enc_block (map comp_block (comps n))"
    using assms by (auto simp: name_encodable_def blob_block_def comp_block_def)
  then show ?thesis
    by (simp add: ndnb_appendName_def Let_def stream_fold [OF stream_tagged] ndnb_appendBlockHeader_def
        ndnb_appendCloser_def name_block_def del: map_map)
qed

subsection \<open>The exclude filter\<close>

definition exclude_item_blocks :: "component \<times> bool \<Rightarrow> block list" where
  "exclude_item_blocks item =
     opt_block (bytes (fst item) \<noteq> []) (comp_block (fst item)) @ opt_block (snd item) (Dtag NDN_DTAG_Any [] [])"

definition exclude_block :: "exclude \<Rightarrow> block" where
  "exclude_block ex = Dtag NDN_DTAG_Exclude [] (concat (map exclude_item_blocks (rev (m_exclude ex))))"

definition exclude_encodable :: "exclude \<Rightarrow> bool" where
  "exclude_encodable ex \<longleftrightarrow> (\<forall>(c, any)\<in>set (m_exclude ex). length (bytes c) < 2 ^ 32)"

lemma stream_exclude_item: "append_exclude_item s e = s @ concat (map enc_block (exclude_item_blocks e))"
  by (simp add: append_exclude_item_def Let_def stream_tagged blob_block_def ndnb_appendBlockHeader_def
      ndnb_appendCloser_def exclude_item_blocks_def opt_block_def comp_block_def)

lemma stream_exclude: "ndnb_appendExclude s ex = s @ enc_block (exclude_block ex)"
proof -
  have "concat (map (\<lambda>e. concat (map enc_block (exclude_item_blocks e))) es) =
      concat (map enc_block (concat (map exclude_item_blocks es)))" for es
    by (induction es) simp_all
  then show ?thesis
    by (simp add: ndnb_appendExclude_def Let_def stream_fold [OF stream_exclude_item] ndnb_appendBlockHeader_def
        ndnb_appendCloser_def exclude_block_def)
qed

lemma exclude_items_wf:
  assumes "\<forall>(c, any)\<in>set es. length (bytes c) < 2 ^ 32"
  shows "\<forall>b\<in>set (concat (map exclude_item_blocks es)). wf_block b \<and> \<not> is_attr b"
  using assms by (auto simp: exclude_item_blocks_def opt_block_set comp_block_def)

lemma wf_exclude:
  assumes "exclude_encodable ex"
  shows "wf_block (exclude_block ex)"
proof -
  let ?bs = "concat (map exclude_item_blocks (rev (m_exclude ex)))"
  have "\<forall>b\<in>set ?bs. wf_block b \<and> \<not> is_attr b"
    using assms by (intro exclude_items_wf) (simp add: exclude_encodable_def)
  moreover have "?bs \<noteq> [] \<Longrightarrow> hd ?bs \<in> set ?bs" by (rule hd_in_set)
  ultimately show ?thesis unfolding exclude_block_def by simp blast
qed

subsection \<open>The interest template\<close>

definition template_block :: "interest \<Rightarrow> block" where
  "template_block i = Dtag NDN_DTAG_Interest [] (name_block (Name []) #
     opt_block (i_minSuffixComponents i \<noteq> ncomps) (number_block NDN_DTAG_MinSuffixComponents (i_minSuffixComponents i)) @
     opt_block (i_maxSuffixComponents i \<noteq> ncomps) (number_block NDN_DTAG_MaxSuffixComponents (i_maxSuffixComponents i)) @
     opt_block (m_exclude (i_exclude i) \<noteq> []) (exclude_block (i_exclude i)) @
     opt_block (i_childSelector i \<noteq> CHILD_DEFAULT) (number_block NDN_DTAG_ChildSelector (ucast (i_childSelector i))) @
     opt_block (i_answerOriginKind i \<noteq> AOK_DEFAULT) (number_block NDN_DTAG_AnswerOriginKind (i_answerOriginKind i)) @
     opt_block (i_scope i \<noteq> NO_SCOPE) (number_block NDN_DTAG_Scope (ucast (i_scope i))) @
     opt_block (\<not> i_interestLifetime i < 0) (time_block NDN_DTAG_InterestLifetime (i_interestLifetime i)))"

lemma empty_name_encodable: "name_encodable (Name [])"
  by (simp add: name_encodable_def)

lemma stream_interest: "ndnb_appendInterest s i = s @ enc_block (template_block i)"
  unfolding ndnb_appendInterest_def Let_def append_when_block [OF stream_number] append_when_block [OF stream_exclude]
    append_when_block [OF stream_time] stream_name [OF empty_name_encodable]
  by (simp add: ndnb_appendBlockHeader_def ndnb_appendCloser_def template_block_def exclude_size_def)

lemma wf_template: "exclude_encodable (i_exclude i) \<Longrightarrow> wf_block (template_block i)"
  by (auto simp: template_block_def opt_block_set wf_exclude empty_name_encodable)

lemma template_no_exclude: "m_exclude (i_exclude i) = [] \<Longrightarrow> template_block i = interest_block (i\<lparr> i_name := Name [] \<rparr>)"
  by (simp add: template_block_def interest_block_def opt_block_def)

lemma interest_visit_exclude: "interest_visit (exclude_block ex) i = Inr i"
  by (simp add: exclude_block_def stream_dtag_defs dtag_defs)

lemma template_visit:
  assumes "i_interestLifetime i < 0 \<or> (\<exists>S. i_interestLifetime i = S * 1000000 \<and> 0 \<le> S \<and> S < 2 ^ 31)"
  shows "interest_visit (template_block i) (new_interest (Name [])) =
    Inr ((new_interest (Name []))\<lparr> i_scope := i_scope i,
      i_interestLifetime := (if i_interestLifetime i < 0 then -1000000 else i_interestLifetime i) \<rparr>)"
proof -
  let ?i = "new_interest (Name [])"
  have "interest_visit (template_block i) ?i =
      bindE (Inr (if i_scope i \<noteq> NO_SCOPE then setScope (i_scope i) ?i else ?i))
      (interest_visit_all (opt_block (\<not> i_interestLifetime i < 0)
        (time_block NDN_DTAG_InterestLifetime (i_interestLifetime i))))"
    by (simp add: template_block_def interest_visit_opt interest_visit_number interest_visit_scope
        interest_visit_name [OF empty_name_encodable] interest_visit_exclude setName_def new_interest_def)
  then show ?thesis
    using assms
    by (auto simp: interest_visit_opt interest_visit_lifetime new_interest_def setScope_def
        setInterestLifetime_def seconds_of_double_def)
qed

text \<open>Property C24.  The interest template of the stream encoder: the parser reads back exactly
  one block with the empty name, the selectors, the exclude filter with its entries in ascending
  order and the lifetime; without an exclude filter the bytes are those that the packet encoder
  writes for the interest with its name removed; and the Interest decoder accepts the template
  and finds the scope and a lifetime of whole seconds in it.\<close>

theorem template_parses:
  assumes "exclude_encodable (i_exclude i)"
    and "i_interestLifetime i < 0 \<or> (\<exists>S. i_interestLifetime i = S * 1000000 \<and> 0 \<le> S \<and> S < 2 ^ 31)"
  shows "ParseBlock (open_stream (ndnb_appendInterest [] i)) =
      Inr (template_block i, advance (length (ndnb_appendInterest [] i)) (open_stream (ndnb_appendInterest [] i))) \<and>
    (m_exclude (i_exclude i) = [] \<longrightarrow> ndnb_appendInterest [] i = encodeToWire_interest (i\<lparr> i_name := Name [] \<rparr>)) \<and>
    decodeFromWire_interest (ndnb_appendInterest [] i) =
      Inr ((new_interest (Name []))\<lparr> i_scope := i_scope i,
        i_interestLifetime := (if i_interestLifetime i < 0 then -1000000 else i_interestLifetime i) \<rparr>)"
proof -
  have p: "ParseBlock (open_stream (ndnb_appendInterest [] i)) =
      Inr (template_block i, advance (length (ndnb_appendInterest [] i)) (open_stream (ndnb_appendInterest [] i)))"
    using ParseBlock_back [OF wf_template [OF assms(1)], of "open_stream (enc_block (template_block i))" "[]"]
      reads_open [of "enc_block (template_block i)"] by (simp add: stream_interest)
  show ?thesis
    using p template_visit [OF assms(2)]
    by (simp add: decodeFromWire_interest_def Deserialize_interest_def encodeToWire_interest_def
        write_interest empty_name_encodable stream_interest template_no_exclude)
qed

theorem template_parses_witness:
  "\<exists>s. ParseBlock (open_stream (ndnb_appendInterest []
      (setExclude \<lparr> m_exclude = [(Component [98], False), (Component [97], True)] \<rparr> (new_interest (Name [Component [104]]))))) =
    Inr (Dtag 26 [] [Dtag 14 [] [],
      Dtag 43 [] [Dtag 15 [] [Blob [97]], Dtag 13 [] [], Dtag 15 [] [Blob [98]]]], s)"
  using template_parses [of "setExclude \<lparr> m_exclude = [(Component [98], False), (Component [97], True)] \<rparr>
    (new_interest (Name [Component [104]]))"]
  by (simp add: setExclude_def new_interest_def exclude_encodable_def seconds_of_double_def template_block_def
      opt_block_def exclude_block_def exclude_item_blocks_def comp_block_def name_block_def dtag_defs stream_dtag_defs)

section \<open>Data packets\<close>

fun locator_blocks :: "key_locator \<Rightarrow> block list" where
  "locator_blocks LocNotSet = []"
| "locator_blocks (LocKey k) = [blob_block NDN_DTAG_Key k]"
| "locator_blocks (LocCertificate c) = [blob_block NDN_DTAG_Key c]"
| "locator_blocks (LocKeyName n) = [Dtag NDN_DTAG_KeyName [] [name_block n]]"

fun locator_encodable :: "key_locator \<Rightarrow> bool" where
  "locator_encodable LocNotSet = True"
| "locator_encodable (LocKey k) = (length k < 2 ^ 32)"
| "locator_encodable (LocCertificate c) = (length c < 2 ^ 32)"
| "locator_encodable (LocKeyName n) = name_encodable n"

definition object_block :: "ndn_data \<Rightarrow> sha256_with_rsa \<Rightarrow> int \<Rightarrow> content_type \<Rightarrow> block" where
  "object_block d sig ts ty =
     Dtag NDN_DTAG_ContentObject []
       [Dtag NDN_DTAG_Signature [] [blob_block NDN_DTAG_SignatureBits (m_signatureBits sig)],
        name_block (d_name d),
        Dtag NDN_DTAG_SignedInfo []
          ([blob_block NDN_DTAG_PublisherPublicKeyDigest (m_publisherKeyDigest sig),
            Blob (timestamp_bytes ts),
            blob_block NDN_DTAG_Type (TYPES ty)] @
           opt_block (m_freshness (d_content d) \<noteq> 0)
             (number_block NDN_DTAG_FreshnessSeconds (of_int (total_seconds (m_freshness (d_content d))))) @
           opt_block (m_finalBlockId (d_content d) \<noteq> Component [])
             (blob_block NDN_DTAG_FinalBlockID (bytes (m_finalBlockId (d_content d)))) @
           [Dtag NDN_DTAG_Signature [] (locator_blocks (m_keyLocator sig))]),
        blob_block NDN_DTAG_Content (m_content (d_content d))]"

definition object_encodable :: "ndn_data \<Rightarrow> sha256_with_rsa \<Rightarrow> int \<Rightarrow> content_type \<Rightarrow> bool" where
  "object_encodable d sig ts ty \<longleftrightarrow>
     d_signature d = Some sig \<and> m_timestamp (d_content d) = Some ts \<and> m_type (d_content d) = Some ty \<and>
     name_encodable (d_name d) \<and> locator_encodable (m_keyLocator sig) \<and>
     length (m_signatureBits sig) < 2 ^ 32 \<and> length (m_publisherKeyDigest sig) < 2 ^ 32 \<and>
     length (bytes (m_finalBlockId (d_content d))) < 2 ^ 32 \<and> length (m_content (d_content d)) < 2 ^ 32"

lemma stream_locator:
  "locator_encodable l \<Longrightarrow> ndnb_appendKeyLocator s l = Inr (s @ concat (map enc_block (locator_blocks l)))"
  by (cases l) (simp_all add: ndnb_appendKeyLocator_def stream_tagged stream_name ndnb_appendBlockHeader_def ndnb_appendCloser_def)

lemma stream_data:
  assumes "object_encodable d sig ts ty"
  shows "ndnb_appendData s d = Inr (s @ enc_block (object_block d sig ts ty))"
  using assms unfolding ndnb_appendData_def ndnb_appendSignature_def Let_def object_encodable_def
    append_when_block [OF stream_number] append_when_block [OF stream_tagged]
  by (simp add: stream_locator stream_tagged stream_name stream_time_blob ndnb_appendBlockHeader_def
      ndnb_appendCloser_def object_block_def)

lemma blob_block_wf [simp]: "length b < 2 ^ 32 \<Longrightarrow> wf_block (blob_block t b)" "\<not> is_attr (blob_block t b)"
  by (simp_all add: blob_block_def)

lemma TYPES_length [simp]: "length (TYPES ty) = 3"
  by (cases ty) simp_all

lemma wf_locator: "locator_encodable l \<Longrightarrow> wf_block (Dtag t [] (locator_blocks l))"
  by (cases l) simp_all

lemma wf_object:
  assumes "object_encodable d sig ts ty"
  shows "wf_block (object_block d sig ts ty)"
  using assms wf_locator [of "m_keyLocator sig" NDN_DTAG_Signature] time_length [of ts]
  by (auto simp: object_block_def object_encodable_def opt_block_set)

subsection \<open>What the Data decoder makes of it\<close>

text \<open>Three bytes are read as \<open>char\<close>s: of the six types only \<open>KEY\<close> has no byte above 0x7F.\<close>

lemma content_type_read:
  "bindE (bindE (content_type_visit (Blob (TYPES ty))) any_uint32) toType =
    (if ty = CONTENT_KEY then Inr CONTENT_KEY else Inl NdnbDecodingException)"
  by (cases ty; simp add: content_type_visit_def content_type_visit_blob_def; code_simp)

lemma data_visit_type:
  "data_visit now (blob_block NDN_DTAG_Type (TYPES ty)) d =
    (if ty = CONTENT_KEY then Inr (on_content (\<lambda>c. c\<lparr> m_type := Some CONTENT_KEY \<rparr>) d) else Inl NdnbDecodingException)"
proof -
  have "TYPES ty \<noteq> []" using TYPES_length [of ty] by (metis list.size(3) zero_neq_numeral)
  then have "data_visit now (blob_block NDN_DTAG_Type (TYPES ty)) d =
      bindE (bindE (bindE (content_type_visit (Blob (TYPES ty))) any_uint32) toType)
        (\<lambda>ty. Inr (on_content (\<lambda>c. c\<lparr> m_type := Some ty \<rparr>) d))"
    by (simp add: blob_block_def single_def dtag_defs bindE_def split: sum.splits)
  then show ?thesis by (simp only: content_type_read) simp
qed

lemma data_visit_ignored:
  "data_visit now (Blob b) d = Inr d"
  "data_visit now (blob_block NDN_DTAG_Key b) d = Inr d"
  "data_visit now (blob_block NDN_DTAG_FinalBlockID b) d = Inr d"
  "data_visit now (number_block NDN_DTAG_FreshnessSeconds v) d = Inr (on_content (\<lambda>c. c\<lparr> m_freshness := maxFreshness \<rparr>) d)"
  by (simp_all add: blob_block_def number_block_def dtag_defs stream_dtag_defs)

lemma data_visit_opt:
  "data_visit_all now (opt_block c b @ cs) d = bindE (if c then data_visit now b d else Inr d) (data_visit_all now cs)"
  by (simp add: opt_block_def)

definition read_locator :: "key_locator \<Rightarrow> key_locator" where
  "read_locator l = (case l of LocKeyName n \<Rightarrow> LocKeyName n | _ \<Rightarrow> LocNotSet)"

lemma data_visit_locator:
  assumes "locator_encodable l" and "d_signature d = Some sig" and "m_keyLocator sig = LocNotSet"
  shows "data_visit_all now (locator_blocks l) d =
    Inr (d\<lparr> d_signature := Some (sig\<lparr> m_keyLocator := read_locator l \<rparr>) \<rparr>)"
  using assms
  by (cases l) (simp_all add: data_visit_nested data_visit_ignored data_visit_keyname on_signature_def setKeyName_def setType_def
      new_locator_def read_locator_def del: data_visit.simps(1))

lemma object_visit:
  assumes "object_encodable d sig ts ty" and "d_signature d0 = Some new_signature"
    and "m_signatureBits sig \<noteq> []" "m_publisherKeyDigest sig \<noteq> []" "m_content (d_content d) \<noteq> []"
  shows "data_visit now (object_block d sig ts ty) d0 =
    (if ty \<noteq> CONTENT_KEY then Inl NdnbDecodingException
     else Inr (d0\<lparr> d_name := d_name d,
       d_signature := Some \<lparr> m_signatureBits = m_signatureBits sig,
         m_publisherKeyDigest = m_publisherKeyDigest sig, m_keyLocator = read_locator (m_keyLocator sig) \<rparr>,
       d_content := (d_content d0)\<lparr> m_type := Some CONTENT_KEY,
         m_freshness := (if m_freshness (d_content d) \<noteq> 0 then maxFreshness else m_freshness (d_content d0)),
         m_content := m_content (d_content d) \<rparr> \<rparr>))"
proof -
  have t: "NDN_DTAG_ContentObject = NDN_DTAG_Data" by (simp add: stream_dtag_defs dtag_defs)
  have n: "name_encodable (d_name d)" "locator_encodable (m_keyLocator sig)"
    using assms(1) by (simp_all add: object_encodable_def)
  note parts = data_visit_nested data_visit_leaves data_visit_ignored data_visit_type data_visit_opt
    blob_block_tagged on_signature_def on_content_def new_signature_def
  show ?thesis
    using assms(2-) n
    by (cases "m_freshness (d_content d) = 0"; cases "m_finalBlockId (d_content d) = Component []")
      (simp_all add: object_block_def t parts data_visit_locator del: data_visit.simps(1))
qed

text \<open>Without a signature the encoder throws.\<close>

lemma unsigned_data_refused: "d_signature d = None \<Longrightarrow> ndnb_appendData s d = Inl ErrWireNdnb"
  by (simp add: ndnb_appendData_def)

text \<open>Property C25.  What the Data decoder makes of the output of \<open>appendData\<close>: for a packet
  with signature bits, digest and content it writes one block, and decoding that block fails for
  every content type except \<open>KEY\<close>.  For \<open>KEY\<close> the name, the signature bits, the digest, the type, the content and
  a key name in the locator come back, and nothing else: the timestamp and the final block id are lost, as
  is a key or a certificate in the locator, and any freshness that was set is read as \<open>maxFreshness\<close>.\<close>

theorem appended_data_decodes:
  assumes "object_encodable d sig ts ty"
    and "m_signatureBits sig \<noteq> []" "m_publisherKeyDigest sig \<noteq> []" "m_content (d_content d) \<noteq> []"
  shows "\<exists>buf. ndnb_appendData [] d = Inr buf \<and>
    (if ty \<noteq> CONTENT_KEY then decodeFromWire_data now buf = Inl NdnbDecodingException
     else \<exists>d'. decodeFromWire_data now buf = Inr d' \<and> d_name d' = d_name d \<and>
       d_signature d' = Some \<lparr> m_signatureBits = m_signatureBits sig,
         m_publisherKeyDigest = m_publisherKeyDigest sig, m_keyLocator = read_locator (m_keyLocator sig) \<rparr> \<and>
       d_content d' = \<lparr> m_timestamp = None, m_type = Some CONTENT_KEY,
         m_freshness = (if m_freshness (d_content d) \<noteq> 0 then maxFreshness else 0),
         m_finalBlockId = Component [], m_content = m_content (d_content d) \<rparr>)"
proof -
  let ?b = "object_block d sig ts ty"
  have p: "ParseBlock (open_stream (enc_block ?b)) =
      Inr (?b, advance (length (enc_block ?b)) (open_stream (enc_block ?b)))"
    using ParseBlock_back [OF wf_object [OF assms(1)], of "open_stream (enc_block ?b)" "[]"] reads_open [of "enc_block ?b"]
    by simp
  obtain w where "decodeFromWire_data now (enc_block ?b) =
      data_visit now ?b (new_data\<lparr> d_wire := w, d_signature := Some new_signature \<rparr>)"
    by (simp add: decodeFromWire_data_def Deserialize_data_def p Let_def)
  then have "decodeFromWire_data now (enc_block ?b) =
     (if ty \<noteq> CONTENT_KEY then Inl NdnbDecodingException
      else Inr (new_data\<lparr> d_wire := w, d_name := d_name d,
       d_signature := Some \<lparr> m_signatureBits = m_signatureBits sig,
         m_publisherKeyDigest = m_publisherKeyDigest sig, m_keyLocator = read_locator (m_keyLocator sig) \<rparr>,
       d_content := empty_content\<lparr> m_type := Some CONTENT_KEY,
         m_freshness := (if m_freshness (d_content d) \<noteq> 0 then maxFreshness else 0),
         m_content := m_content (d_content d) \<rparr> \<rparr>))"
    using object_visit [OF assms(1) _ assms(2-), of "new_data\<lparr> d_wire := w, d_signature := Some new_signature \<rparr>" now]
    by (simp add: new_data_def empty_content_def)
  then show ?thesis
    using stream_data [OF assms(1), of "[]"] by (cases "ty = CONTENT_KEY") (simp_all add: empty_content_def)
qed

theorem appended_data_decodes_witness:
  "\<exists>buf. ndnb_appendData []
      \<lparr> d_name = Name [Component [97]],
        d_signature = Some \<lparr> m_signatureBits = [1], m_publisherKeyDigest = [2], m_keyLocator = LocNotSet \<rparr>,
        d_content = make_content [3] 5000000 DATA 0 (Component []), d_wire = None \<rparr> = Inr buf \<and>
    decodeFromWire_data 0 buf = Inl NdnbDecodingException"
  using appended_data_decodes [of "\<lparr> d_name = Name [Component [97]],
        d_signature = Some \<lparr> m_signatureBits = [1], m_publisherKeyDigest = [2], m_keyLocator = LocNotSet \<rparr>,
        d_content = make_content [3] 5000000 DATA 0 (Component []), d_wire = None \<rparr>"
      "\<lparr> m_signatureBits = [1], m_publisherKeyDigest = [2], m_keyLocator = LocNotSet \<rparr>" 5000000 DATA 0]
  by (simp add: object_encodable_def make_content_def name_encodable_def)

end
