(* ===== verification/Ndn_Wrapper.thy ===== *)
theory Ndn_Wrapper
  imports Ndnb_Stream Identity_Manager
begin

text \<open>
  \<open>ndn.cxx/wrapper/wrapper.{h,cc}\<close>: the connection to the daemon \<open>ndnd\<close>.  The C library behind
  the handle is a parameter: a function that gives the return value of a call from the calls
  made before it.  The state keeps the list of these calls, so that properties speak of what
  the wrapper asks of the daemon.  The thread of \<open>ndnLoop\<close> is a sequence of steps between the
  points where it releases the mutex; \<open>wrapper_step\<close> interleaves it with the calls of users.
  \<open>incomingData\<close> and the verification that it starts are in \<open>Trust_Policy\<close>, the executor in
  \<open>Task_Executor\<close>.
\<close>

section \<open>The client library\<close>

datatype 'cb ndn_call =
    NdnCreate
  | NdnConnect
  | NdnDisconnect
  | NdnRun
  | NdnGetConnectionFd
  | NdnOutputIsPending
  | Poll bool
  | NdnSetInterestFilter blob "'cb option"
  | NdnExpressInterest blob request blob
  | NdnPut blob

type_synonym 'cb client = "'cb ndn_call list \<Rightarrow> 'cb ndn_call \<Rightarrow> int"

record 'cb wrapper =
  w_handle :: bool
  w_running :: bool
  w_connected :: bool
  w_registeredInterests :: "(name \<times> 'cb) list"
  w_calls :: "'cb ndn_call list"

definition call :: "'cb client \<Rightarrow> 'cb ndn_call \<Rightarrow> 'cb wrapper \<Rightarrow> int \<times> 'cb wrapper" where
  "call lib c w = (lib (w_calls w) c, w\<lparr> w_calls := w_calls w @ [c] \<rparr>)"

text \<open>The members that the constructor initialises.\<close>

definition new_wrapper :: "'cb wrapper" where
  "new_wrapper = \<lparr> w_handle = False, w_running = True, w_connected = False, w_registeredInterests = [], w_calls = [] \<rparr>"

section \<open>Filters\<close>

text \<open>\<open>std::map<Name, InterestCallback>\<close> as the list of its nodes in order; \<open>insert\<close> keeps an
  existing node.\<close>

definition registered_insert :: "name \<Rightarrow> 'cb \<Rightarrow> (name \<times> 'cb) list \<Rightarrow> (name \<times> 'cb) list" where
  "registered_insert n cb xs =
     (if n \<in> fst ` set xs then xs
      else takeWhile (\<lambda>e. fst e < n) xs @ (n, cb) # dropWhile (\<lambda>e. fst e < n) xs)"

definition registered_erase :: "name \<Rightarrow> (name \<times> 'cb) list \<Rightarrow> (name \<times> 'cb) list" where
  "registered_erase n xs = filter (\<lambda>e. fst e \<noteq> n) xs"

definition wrapper_setInterestFilter :: "'cb client \<Rightarrow> name \<Rightarrow> 'cb \<Rightarrow> bool \<Rightarrow> 'cb wrapper \<Rightarrow> int \<times> 'cb wrapper" where
  "wrapper_setInterestFilter lib pre interestCallback rec w =
     (if \<not> w_running w \<or> \<not> w_connected w then (-1, w)
      else
        let (res, w) = call lib (NdnSetInterestFilter (ndnb_appendName [] pre) (Some interestCallback)) w
        in (res,
            if rec then w\<lparr> w_registeredInterests := registered_insert pre interestCallback (w_registeredInterests w) \<rparr>
            else w))"

definition wrapper_clearInterestFilter :: "'cb client \<Rightarrow> name \<Rightarrow> bool \<Rightarrow> 'cb wrapper \<Rightarrow> 'cb wrapper" where
  "wrapper_clearInterestFilter lib pre rec w =
     (if \<not> w_running w \<or> \<not> w_connected w then w
      else
        let (res, w) = call lib (NdnSetInterestFilter (ndnb_appendName [] pre) None) w
        in if rec then w\<lparr> w_registeredInterests := registered_erase pre (w_registeredInterests w) \<rparr> else w)"

section \<open>Connecting\<close>

text \<open>\<open>connectNdnd\<close>: the part before the mutex is taken and the part under it.\<close>

definition connect_prepare :: "'cb client \<Rightarrow> 'cb wrapper \<Rightarrow> 'cb wrapper" where
  "connect_prepare lib w =
     (if w_handle w then snd (call lib NdnDisconnect w)
      else (case call lib NdnCreate w of (res, w) \<Rightarrow> w\<lparr> w_handle := (res \<noteq> 0) \<rparr>))"

definition restore_filters :: "'cb client \<Rightarrow> (name \<times> 'cb) list \<Rightarrow> 'cb wrapper \<Rightarrow> 'cb wrapper" where
  "restore_filters lib es w =
     foldl (\<lambda>w (n, cb). snd (wrapper_setInterestFilter lib n cb False (wrapper_clearInterestFilter lib n False w))) w es"

definition connect_locked :: "'cb client \<Rightarrow> ('cb wrapper, unit) action" where
  "connect_locked lib w =
     (case call lib NdnConnect w of
        (res, w) \<Rightarrow>
          if res < 0 then (Inl NdnOperation, w)
          else
            let w = w\<lparr> w_connected := True \<rparr>
            in (Inr (),
                if w_registeredInterests w \<noteq> [] then restore_filters lib (w_registeredInterests w) w else w))"

definition connectNdnd :: "'cb client \<Rightarrow> ('cb wrapper, unit) action" where
  "connectNdnd lib w = connect_locked lib (connect_prepare lib w)"

section \<open>The thread of the wrapper\<close>

text \<open>
  Where the thread stands in \<open>ndnLoop\<close>: at the head of the loop, after \<open>ndn_run\<close>, in the sleep
  before a connection attempt with the current interval, between the two parts of \<open>connectNdnd\<close>,
  and after the loop.
\<close>

datatype loop_pc = LoopHead | AfterRun int | Reconnect nat | Connecting nat | LoopEnd

fun loop_step :: "'cb client \<Rightarrow> loop_pc \<times> 'cb wrapper \<Rightarrow> loop_pc \<times> 'cb wrapper" where
  "loop_step lib (LoopHead, w) =
     (if \<not> w_running w then (LoopEnd, w)
      else (case call lib NdnRun w of (res, w) \<Rightarrow> (AfterRun res, w)))"
| "loop_step lib (AfterRun res, w) =
     (if \<not> w_running w then (LoopEnd, w)
      else if res < 0 then (Reconnect 1, w\<lparr> w_connected := False \<rparr>)
      else
        let (fd, w) = call lib NdnGetConnectionFd w;
            (pending, w) = call lib NdnOutputIsPending w;
            (res, w) = call lib (Poll (pending \<noteq> 0)) w
        in if res < 0 then (Reconnect 1, w\<lparr> w_connected := False \<rparr>) else (LoopHead, w))"
| "loop_step lib (Reconnect interval, w) =
     (if \<not> w_running w then (LoopHead, w) else (Connecting interval, connect_prepare lib w))"
| "loop_step lib (Connecting interval, w) =
     (case connect_locked lib w of
        (Inr u, w) \<Rightarrow> (LoopHead, w)
      | (Inl e, w) \<Rightarrow> (Reconnect (if interval < 32 then interval * 2 else interval), w))"
| "loop_step lib (LoopEnd, w) = (LoopEnd, w)"

section \<open>Packets\<close>

definition putToNdnd :: "'cb client \<Rightarrow> blob \<Rightarrow> 'cb wrapper \<Rightarrow> int \<times> 'cb wrapper" where
  "putToNdnd lib dataBlob w =
     (if \<not> w_running w \<or> \<not> w_connected w then (-1, w)
      else (0, snd (call lib (NdnPut dataBlob) w)))"

text \<open>The closure is copied into the request that the daemon hands back with the answer.  The
  mutex is released between the test of the flags and the call.\<close>

definition send_express :: "'cb client \<Rightarrow> request \<Rightarrow> 'cb wrapper \<Rightarrow> 'cb wrapper" where
  "send_express lib rq w =
     snd (call lib
       (NdnExpressInterest (ndnb_appendName [] (i_name (rq_interest rq))) rq (ndnb_appendInterest [] (rq_interest rq))) w)"

definition wrapper_sendInterest :: "'cb client \<Rightarrow> request \<Rightarrow> 'cb wrapper \<Rightarrow> int \<times> 'cb wrapper" where
  "wrapper_sendInterest lib rq w =
     (if \<not> w_running w \<or> \<not> w_connected w then (-1, w) else (0, send_express lib rq w))"

definition publish_signed :: "'cb client \<Rightarrow> ndn_data \<Rightarrow> 'cb wrapper \<Rightarrow> (int \<times> 'cb wrapper) result" where
  "publish_signed lib d w = bindE (encodeToWire_data d) (\<lambda>buf. Inr (putToNdnd lib buf w))"

definition publishDataByCert_data ::
  "env \<Rightarrow> 'cb client \<Rightarrow> ndn_data \<Rightarrow> name \<Rightarrow> identity_manager \<Rightarrow> 'cb wrapper \<Rightarrow> (int \<times> 'cb wrapper) result" where
  "publishDataByCert_data e lib d certificateName m w =
     bindE (signByCertificate e d certificateName m) (\<lambda>d. publish_signed lib d w)"

definition publishDataByIdentity_data ::
  "boost_regex \<Rightarrow> env \<Rightarrow> 'cb client \<Rightarrow> ndn_data \<Rightarrow> name \<Rightarrow> 's keychain \<Rightarrow> 'cb wrapper \<Rightarrow>
    ((int \<times> 'cb wrapper) \<times> 's keychain) result" where
  "publishDataByIdentity_data rx e lib d identityName kc w =
     bindE (signByIdentity rx e d identityName kc) (\<lambda>(d, kc).
       bindE (publish_signed lib d w) (\<lambda>r. Inr (r, kc)))"

text \<open>The freshness argument is not used.\<close>

definition content_packet :: "env \<Rightarrow> name \<Rightarrow> blob \<Rightarrow> ndn_data" where
  "content_packet e n buf =
     new_data\<lparr> d_name := n, d_content := make_content buf (e_now e) DATA maxFreshness (Component []) \<rparr>"

definition publishDataByCert ::
  "env \<Rightarrow> 'cb client \<Rightarrow> name \<Rightarrow> blob \<Rightarrow> name \<Rightarrow> int \<Rightarrow> identity_manager \<Rightarrow> 'cb wrapper \<Rightarrow> (int \<times> 'cb wrapper) result" where
  "publishDataByCert e lib n buf certificateName freshness m w =
     publishDataByCert_data e lib (content_packet e n buf) certificateName m w"

definition publishDataByIdentity ::
  "boost_regex \<Rightarrow> env \<Rightarrow> 'cb client \<Rightarrow> name \<Rightarrow> blob \<Rightarrow> name \<Rightarrow> int \<Rightarrow> 's keychain \<Rightarrow> 'cb wrapper \<Rightarrow>
    ((int \<times> 'cb wrapper) \<times> 's keychain) result" where
  "publishDataByIdentity rx e lib n buf identityName freshness kc w =
     publishDataByIdentity_data rx e lib (content_packet e n buf) identityName kc w"

section \<open>The upcall for interests\<close>

datatype upcall_kind = UPCALL_FINAL | UPCALL_INTEREST | UPCALL_OTHER

text \<open>What \<open>incomingInterest\<close> hands to the executor; the interest that the library parsed and
  its name come from the upcall.\<close>

datatype 'cb interest_job = DeleteInInterestTuple 'cb | RunInterestCallback 'cb interest

definition incomingInterest :: "'cb \<Rightarrow> upcall_kind \<Rightarrow> interest \<Rightarrow> name \<Rightarrow> 'cb interest_job list" where
  "incomingInterest f kind parsed n =
     (case kind of
        UPCALL_FINAL \<Rightarrow> [DeleteInInterestTuple f]
      | UPCALL_INTEREST \<Rightarrow> [RunInterestCallback f (setName n parsed)]
      | UPCALL_OTHER \<Rightarrow> [])"

section \<open>Users and the thread together\<close>

text \<open>\<open>shutdown\<close>: not called, the flag cleared, \<open>m_connected\<close> found set and the join pending, returned.\<close>

datatype shutdown_pc = NotCalled | Stopping | Joining | Returned

type_synonym 'cb wrapper_state = "'cb wrapper \<times> loop_pc \<times> shutdown_pc"

definition shutdown_stop :: "'cb wrapper \<Rightarrow> 'cb wrapper" where
  "shutdown_stop w = w\<lparr> w_running := False \<rparr>"

definition shutdown_test :: "'cb wrapper \<Rightarrow> shutdown_pc" where
  "shutdown_test w = (if w_connected w then Joining else Returned)"

definition shutdown_joined :: "'cb client \<Rightarrow> 'cb wrapper \<Rightarrow> 'cb wrapper" where
  "shutdown_joined lib w = (snd (call lib NdnDisconnect w))\<lparr> w_connected := False \<rparr>"

text \<open>Component sizes are bounded by the 32-bit lengths of the format.\<close>

definition name_small :: "name \<Rightarrow> bool" where
  "name_small n \<longleftrightarrow> (\<forall>c\<in>set (comps n). length (bytes c) < 2 ^ 32)"

text \<open>The call of \<open>sendInterest\<close> comes after a test that may be out of date, so it is a step in every
  state.  \<open>unrecorded\<close> are the prefixes for which users call \<open>setInterestFilter\<close> or \<open>clearInterestFilter\<close> with
  \<open>record\<close> false.\<close>

inductive wrapper_step :: "'cb client \<Rightarrow> name set \<Rightarrow> 'cb wrapper_state \<Rightarrow> 'cb wrapper_state \<Rightarrow> bool" for lib unrecorded where
  thread: "loop_step lib (pc, w) = (pc', w') \<Longrightarrow> wrapper_step lib unrecorded (w, pc, sd) (w', pc', sd)"
| set_filter: "name_small n \<Longrightarrow> rec \<or> n \<in> unrecorded \<Longrightarrow>
    wrapper_step lib unrecorded (w, pc, sd) (snd (wrapper_setInterestFilter lib n cb rec w), pc, sd)"
| clear_filter: "name_small n \<Longrightarrow> rec \<or> n \<in> unrecorded \<Longrightarrow>
    wrapper_step lib unrecorded (w, pc, sd) (wrapper_clearInterestFilter lib n rec w, pc, sd)"
| send: "wrapper_step lib unrecorded (w, pc, sd) (send_express lib rq w, pc, sd)"
| put: "wrapper_step lib unrecorded (w, pc, sd) (snd (putToNdnd lib buf w), pc, sd)"
| stop: "wrapper_step lib unrecorded (w, pc, NotCalled) (shutdown_stop w, pc, Stopping)"
| test: "wrapper_step lib unrecorded (w, pc, Stopping) (w, pc, shutdown_test w)"
| joined: "wrapper_step lib unrecorded (w, LoopEnd, Joining) (shutdown_joined lib w, LoopEnd, Returned)"

text \<open>The constructor: \<open>start\<close> connects, which throws when the daemon refuses, and starts the thread.\<close>

definition wrapper_start :: "'cb client \<Rightarrow> 'cb wrapper_state result" where
  "wrapper_start lib =
     (case connectNdnd lib new_wrapper of
        (Inl e, _) \<Rightarrow> Inl e
      | (Inr u, w) \<Rightarrow> Inr (w, LoopHead, NotCalled))"

inductive wrapper_reach :: "'cb client \<Rightarrow> name set \<Rightarrow> 'cb wrapper_state \<Rightarrow> bool" for lib unrecorded where
  start: "wrapper_start lib = Inr st \<Longrightarrow> wrapper_reach lib unrecorded st"
| step: "wrapper_reach lib unrecorded st \<Longrightarrow> wrapper_step lib unrecorded st st' \<Longrightarrow> wrapper_reach lib unrecorded st'"

inductive_cases wrapper_stepE: "wrapper_step lib unrecorded st st'"

section \<open>Filters on the current connection\<close>

text \<open>The filters that the wrapper has asked for since it last connected.\<close>

fun note_call :: "(blob \<rightharpoonup> 'cb) \<Rightarrow> 'cb ndn_call \<Rightarrow> (blob \<rightharpoonup> 'cb)" where
  "note_call m NdnConnect = Map.empty"
| "note_call m (NdnSetInterestFilter b v) = m(b := v)"
| "note_call m _ = m"

definition requested :: "'cb ndn_call list \<Rightarrow> (blob \<rightharpoonup> 'cb)" where
  "requested cs = foldl note_call Map.empty cs"

lemma requested_append [simp]:
  "requested (cs @ [c]) = note_call (requested cs) c"
  by (simp add: requested_def)

abbreviation encoded :: "name \<Rightarrow> blob" where
  "encoded n \<equiv> ndnb_appendName [] n"

subsection \<open>Encoded names are distinct\<close>

definition any_name_block :: "name \<Rightarrow> block" where
  "any_name_block n = Dtag NDN_DTAG_Name [] (map (\<lambda>c. blob_block NDN_DTAG_Component (bytes c)) (comps n))"

lemma encoded_block: "encoded n = enc_block (any_name_block n)"
  by (simp add: ndnb_appendName_def Let_def stream_fold [OF stream_tagged] ndnb_appendBlockHeader_def
      ndnb_appendCloser_def any_name_block_def comp_def)

lemma any_name_block_inj: "any_name_block a = any_name_block b \<Longrightarrow> a = b"
proof -
  assume "any_name_block a = any_name_block b"
  then have m: "map (\<lambda>c. blob_block NDN_DTAG_Component (bytes c)) (comps a) =
      map (\<lambda>c. blob_block NDN_DTAG_Component (bytes c)) (comps b)" by (simp add: any_name_block_def)
  have "inj (\<lambda>c. blob_block NDN_DTAG_Component (bytes c))"
    by (rule injI) (auto simp: blob_block_def component.expand split: if_splits)
  with m have "comps a = comps b" using map_injective by blast
  then show "a = b" by (simp add: name.expand)
qed

lemma encoded_inj:
  assumes "name_small a" and "name_small b" and "encoded a = encoded b"
  shows "a = b"
proof -
  have wf: "wf_block (any_name_block n)" if "name_small n" for n
    using that by (auto simp: any_name_block_def name_small_def hd_map)
  have "ParseBlock (open_stream (encoded n)) = Inr (any_name_block n, advance (length (encoded n)) (open_stream (encoded n)))"
    if "name_small n" for n
    using ParseBlock_back [OF wf [OF that], of "open_stream (encoded n)" "[]"] reads_open [of "encoded n"]
    by (simp add: encoded_block)
  from this [OF assms(1)] this [OF assms(2)] assms(3) show ?thesis by (auto intro: any_name_block_inj)
qed

subsection \<open>What a connection restores\<close>

lemma restore_one:
  "w_running w \<Longrightarrow> w_connected w \<Longrightarrow>
    snd (wrapper_setInterestFilter lib n cb False (wrapper_clearInterestFilter lib n False w)) =
    w\<lparr> w_calls := w_calls w @ [NdnSetInterestFilter (encoded n) None, NdnSetInterestFilter (encoded n) (Some cb)] \<rparr>"
  by (simp add: wrapper_setInterestFilter_def wrapper_clearInterestFilter_def call_def Let_def)

lemma restore_calls:
  "w_running w \<Longrightarrow> w_connected w \<Longrightarrow>
    restore_filters lib es w = w\<lparr> w_calls := w_calls w @ concat (map (\<lambda>(n, cb).
      [NdnSetInterestFilter (encoded n) None, NdnSetInterestFilter (encoded n) (Some cb)]) es) \<rparr>"
proof (induction es arbitrary: w)
  case (Cons e es)
  then show ?case by (cases e) (simp add: restore_filters_def restore_one)
qed (simp add: restore_filters_def)

lemma restore_idle: "\<not> w_running w \<Longrightarrow> restore_filters lib es w = w"
  by (induction es) (auto simp: restore_filters_def wrapper_setInterestFilter_def wrapper_clearInterestFilter_def)

lemma requested_restored:
  "foldl note_call m (concat (map (\<lambda>(n, cb).
      [NdnSetInterestFilter (encoded n) None, NdnSetInterestFilter (encoded n) (Some cb)]) es)) =
    foldl (\<lambda>m (n, cb). m(encoded n \<mapsto> cb)) m es"
  by (induction es arbitrary: m) (auto simp: case_prod_unfold)

lemma restored_dom: "dom (foldl (\<lambda>m (n, cb). m(encoded n \<mapsto> cb)) m es) = dom m \<union> encoded ` fst ` set es"
  by (induction es arbitrary: m) auto

lemma connect_running:
  assumes "w_running w" and "connect_locked lib w = (Inr (), w')"
  shows "w_connected w' \<and> w_running w' \<and> w_registeredInterests w' = w_registeredInterests w \<and> w_handle w' = w_handle w \<and>
    w_calls w' = w_calls w @ NdnConnect # concat (map (\<lambda>(n, cb).
      [NdnSetInterestFilter (encoded n) None, NdnSetInterestFilter (encoded n) (Some cb)]) (w_registeredInterests w))"
  using assms by (auto simp: connect_locked_def call_def restore_calls Let_def split: if_splits)

lemma connect_requested:
  assumes "w_running w" and "connect_locked lib w = (Inr (), w')"
  shows "dom (requested (w_calls w')) = encoded ` fst ` set (w_registeredInterests w')"
  using connect_running [OF assms]
  by (simp add: requested_def requested_restored restored_dom del: foldl_append) (simp add: requested_restored restored_dom)

section \<open>Invariant\<close>

definition backoff_ok :: "nat \<Rightarrow> bool" where
  "backoff_ok interval \<longleftrightarrow> interval \<in> {1, 2, 4, 8, 16, 32}"

fun reconnecting :: "loop_pc \<Rightarrow> bool" where
  "reconnecting (Reconnect interval) = True"
| "reconnecting (Connecting interval) = True"
| "reconnecting _ = False"

fun pc_ok :: "loop_pc \<Rightarrow> bool" where
  "pc_ok (Reconnect interval) = backoff_ok interval"
| "pc_ok (Connecting interval) = backoff_ok interval"
| "pc_ok _ = True"

definition filters_inv :: "name set \<Rightarrow> 'cb wrapper \<Rightarrow> bool" where
  "filters_inv unrecorded w \<longleftrightarrow>
     (\<forall>n\<in>fst ` set (w_registeredInterests w). name_small n) \<and>
     sorted_wrt (<) (map fst (w_registeredInterests w)) \<and>
     (w_running w \<longrightarrow> w_connected w \<longrightarrow>
       dom (requested (w_calls w)) - encoded ` unrecorded =
         encoded ` fst ` set (w_registeredInterests w) - encoded ` unrecorded)"

definition wrapper_inv :: "name set \<Rightarrow> 'cb wrapper_state \<Rightarrow> bool" where
  "wrapper_inv unrecorded st \<longleftrightarrow>
     (case st of (w, pc, sd) \<Rightarrow>
        filters_inv unrecorded w \<and> pc_ok pc \<and> (reconnecting pc \<longrightarrow> \<not> w_connected w) \<and> (w_running w \<longleftrightarrow> sd = NotCalled))"

lemma registered_insert_set: "fst ` set (registered_insert n cb xs) = insert n (fst ` set xs)"
proof -
  have "set xs = set (takeWhile (\<lambda>e. fst e < n) xs) \<union> set (dropWhile (\<lambda>e. fst e < n) xs)"
    by (metis set_append takeWhile_dropWhile_id)
  then show ?thesis by (auto simp: registered_insert_def)
qed

lemma registered_insert_sorted:
  assumes "sorted_wrt (<) (map fst xs)"
  shows "sorted_wrt (<) (map fst (registered_insert n cb xs))"
proof (cases "n \<in> fst ` set xs")
  case False
  have "sorted_wrt (<) (map fst (takeWhile (\<lambda>e. fst e < n) xs @ (n, cb) # dropWhile (\<lambda>e. fst e < n) xs))"
    using assms False
  proof (induction xs)
    case (Cons x xs)
    show ?case
    proof (cases "fst x < n")
      case True
      then have s: "set (takeWhile (\<lambda>e. fst e < n) xs) \<subseteq> set xs" "set (dropWhile (\<lambda>e. fst e < n) xs) \<subseteq> set xs"
        by (auto dest: set_takeWhileD set_dropWhileD)
      have "sorted_wrt (<) (map fst (takeWhile (\<lambda>e. fst e < n) xs @ (n, cb) # dropWhile (\<lambda>e. fst e < n) xs))"
        using Cons by auto
      then show ?thesis using True Cons.prems s by (auto simp: subset_iff)
    next
      case f: False
      then have "n < fst x" using Cons.prems by (auto simp: not_less order_le_less)
      then show ?thesis using f Cons.prems by (auto intro: order.strict_trans)
    qed
  qed simp
  then show ?thesis using False by (simp add: registered_insert_def)
qed (use assms in \<open>simp add: registered_insert_def\<close>)

lemma registered_erase_sorted:
  "sorted_wrt (<) (map fst xs) \<Longrightarrow> sorted_wrt (<) (map fst (registered_erase n xs))"
  unfolding registered_erase_def by (induction xs) auto

lemma set_filter_inv:
  assumes "filters_inv unrecorded w" and "name_small n" and "rec \<or> n \<in> unrecorded"
  shows "filters_inv unrecorded (snd (wrapper_setInterestFilter lib n cb rec w))"
proof (cases "w_running w \<and> w_connected w")
  case True
  let ?xs = "w_registeredInterests w"
  have "\<forall>x\<in>fst ` set (registered_insert n cb ?xs). name_small x"
    unfolding registered_insert_set using assms by (simp add: filters_inv_def)
  moreover have D: "dom (requested (w_calls w)) - encoded ` unrecorded = encoded ` fst ` set ?xs - encoded ` unrecorded"
    using assms(1) True by (simp add: filters_inv_def)
  have "insert (encoded n) (dom (requested (w_calls w))) - encoded ` unrecorded =
      (if rec then insert (encoded n) (encoded ` fst ` set ?xs) else encoded ` fst ` set ?xs) - encoded ` unrecorded"
    using D assms(3) by (cases rec) (simp_all add: insert_Diff_if)
  ultimately show ?thesis
    using assms True registered_insert_sorted [of ?xs n cb]
    by (cases rec) (simp_all add: filters_inv_def wrapper_setInterestFilter_def call_def registered_insert_set)
next
  case False
  then show ?thesis using assms by (auto simp: wrapper_setInterestFilter_def)
qed

lemma clear_filter_inv:
  assumes "filters_inv unrecorded w" and "name_small n" and "rec \<or> n \<in> unrecorded"
  shows "filters_inv unrecorded (wrapper_clearInterestFilter lib n rec w)"
proof (cases "w_running w \<and> w_connected w")
  case True
  let ?xs = "w_registeredInterests w"
  have small: "\<forall>x\<in>fst ` set ?xs. name_small x" using assms(1) by (simp add: filters_inv_def)
  then have "inj_on encoded (insert n (fst ` set ?xs))"
    using assms(2) by (intro inj_onI encoded_inj) auto
  then have "encoded ` (fst ` set ?xs - {n}) = encoded ` fst ` set ?xs - encoded ` {n}"
    by (rule inj_on_image_set_diff) auto
  moreover have "fst ` set (registered_erase n ?xs) = fst ` set ?xs - {n}" by (auto simp: registered_erase_def)
  ultimately have e: "encoded ` fst ` set (registered_erase n ?xs) = encoded ` fst ` set ?xs - {encoded n}" by simp
  have D: "dom (requested (w_calls w)) - encoded ` unrecorded = encoded ` fst ` set ?xs - encoded ` unrecorded"
    using assms(1) True by (simp add: filters_inv_def)
  have d: "dom (requested (w_calls w)) - {encoded n} - encoded ` unrecorded =
      (if rec then encoded ` fst ` set ?xs - {encoded n} else encoded ` fst ` set ?xs) - encoded ` unrecorded"
  proof (cases rec)
    case True
    have "dom (requested (w_calls w)) - {encoded n} - encoded ` unrecorded =
        (dom (requested (w_calls w)) - encoded ` unrecorded) - {encoded n}" by blast
    then show ?thesis unfolding D using True by auto
  next
    case False
    then have "encoded n \<in> encoded ` unrecorded" using assms(3) by blast
    then have "dom (requested (w_calls w)) - {encoded n} - encoded ` unrecorded = dom (requested (w_calls w)) - encoded ` unrecorded"
      by blast
    then show ?thesis using D False by simp
  qed
  have "\<forall>x\<in>fst ` set (registered_erase n ?xs). name_small x" using small by (auto simp: registered_erase_def)
  then show ?thesis
    using assms True registered_erase_sorted [of ?xs n] d e
    by (cases rec) (simp_all add: filters_inv_def wrapper_clearInterestFilter_def call_def)
next
  case False
  then show ?thesis using assms by (auto simp: wrapper_clearInterestFilter_def)
qed

lemma filters_inv_other_call:
  "(\<And>m. note_call m c = m) \<Longrightarrow> filters_inv unrecorded w \<Longrightarrow> filters_inv unrecorded (snd (call lib c w))"
  by (simp add: filters_inv_def call_def)

lemma filters_inv_flags:
  "filters_inv unrecorded w \<Longrightarrow> filters_inv unrecorded (w\<lparr> w_connected := False \<rparr>)"
  "filters_inv unrecorded w \<Longrightarrow> filters_inv unrecorded (w\<lparr> w_running := False \<rparr>)"
  "filters_inv unrecorded w \<Longrightarrow> filters_inv unrecorded (w\<lparr> w_handle := h \<rparr>)"
  by (simp_all add: filters_inv_def)

lemma call_simps [simp]:
  "w_running (snd (call lib c w)) = w_running w"
  "w_connected (snd (call lib c w)) = w_connected w"
  "w_registeredInterests (snd (call lib c w)) = w_registeredInterests w"
  by (simp_all add: call_def)

lemma connect_prepare_inv:
  assumes "filters_inv unrecorded w"
  shows "filters_inv unrecorded (connect_prepare lib w) \<and> w_running (connect_prepare lib w) = w_running w \<and>
    w_connected (connect_prepare lib w) = w_connected w"
  using assms filters_inv_other_call [of NdnDisconnect unrecorded w lib] filters_inv_other_call [of NdnCreate unrecorded w lib]
  by (auto simp: connect_prepare_def call_def filters_inv_flags(3))

lemma connect_locked_inv:
  assumes "filters_inv unrecorded w" and "\<not> w_connected w" and "connect_locked lib w = (r, w')"
  shows "filters_inv unrecorded w' \<and> w_running w' = w_running w \<and> (w_connected w' \<longleftrightarrow> r = Inr ())"
proof (cases r)
  case (Inl e)
  then show ?thesis
    using assms by (auto simp: connect_locked_def call_def filters_inv_def Let_def split: if_splits)
next
  case (Inr u)
  show ?thesis
  proof (cases "w_running w")
    case True
    then show ?thesis
      using connect_running [OF True, of lib w'] connect_requested [OF True, of lib w'] assms Inr
      by (simp add: filters_inv_def)
  next
    case False
    then show ?thesis
      using assms Inr by (auto simp: connect_locked_def call_def filters_inv_def restore_idle Let_def split: if_splits)
  qed
qed

lemma backoff_doubles: "backoff_ok k \<Longrightarrow> backoff_ok (if k < 32 then k * 2 else k)"
  by (auto simp: backoff_ok_def)

lemma loop_step_inv:
  assumes "wrapper_inv unrecorded (w, pc, sd)" and "loop_step lib (pc, w) = (pc', w')"
  shows "wrapper_inv unrecorded (w', pc', sd)"
proof (cases pc)
  case LoopHead
  then show ?thesis
    using assms filters_inv_other_call [of NdnRun unrecorded w lib]
    by (auto simp: wrapper_inv_def call_def split: if_splits)
next
  case (AfterRun res)
  let ?w1 = "snd (call lib NdnGetConnectionFd w)"
  let ?w2 = "snd (call lib NdnOutputIsPending ?w1)"
  have f: "filters_inv unrecorded (snd (call lib (Poll b) ?w2))" for b
    using assms(1) by (intro filters_inv_other_call) (simp_all add: wrapper_inv_def)
  show ?thesis
    using AfterRun assms f filters_inv_flags(1) [OF f] filters_inv_flags(1) [of unrecorded w]
    by (auto simp: wrapper_inv_def call_def Let_def backoff_ok_def split: if_splits)
next
  case (Reconnect k)
  then show ?thesis
    using assms connect_prepare_inv [of unrecorded w lib] by (auto simp: wrapper_inv_def split: if_splits)
next
  case (Connecting k)
  obtain r w1 where c: "connect_locked lib w = (r, w1)" by fastforce
  have i: "filters_inv unrecorded w1 \<and> w_running w1 = w_running w \<and> (w_connected w1 \<longleftrightarrow> r = Inr ())"
    using assms(1) Connecting by (intro connect_locked_inv [OF _ _ c]) (simp_all add: wrapper_inv_def)
  have k: "backoff_ok k" "w_running w \<longleftrightarrow> sd = NotCalled" using assms(1) Connecting by (simp_all add: wrapper_inv_def)
  show ?thesis
  proof (cases r)
    case (Inl e)
    have "pc' = Reconnect (if k < 32 then k * 2 else k)" "w' = w1"
      using assms(2) Connecting c Inl by simp_all
    then show ?thesis using i k Inl backoff_doubles [OF k(1)] by (simp add: wrapper_inv_def)
  next
    case (Inr u)
    have "pc' = LoopHead" "w' = w1" using assms(2) Connecting c Inr by simp_all
    then show ?thesis using i k by (simp add: wrapper_inv_def)
  qed
next
  case LoopEnd
  then show ?thesis using assms by simp
qed

lemma wrapper_step_inv:
  assumes "wrapper_step lib unrecorded st st'" and "wrapper_inv unrecorded st"
  shows "wrapper_inv unrecorded st'"
  using assms
proof (induction rule: wrapper_step.induct)
  case (thread pc w pc' w' sd)
  then show ?case using loop_step_inv by blast
next
  case (set_filter n rec w pc sd cb)
  then show ?case
    using set_filter_inv [of unrecorded w n rec lib cb] by (auto simp: wrapper_inv_def wrapper_setInterestFilter_def call_def Let_def)
next
  case (clear_filter n rec w pc sd)
  then show ?case
    using clear_filter_inv [of unrecorded w n rec lib] by (auto simp: wrapper_inv_def wrapper_clearInterestFilter_def call_def Let_def)
next
  case (send w pc sd rq)
  then show ?case by (auto simp: wrapper_inv_def send_express_def intro: filters_inv_other_call)
next
  case (put w pc sd buf)
  then show ?case by (auto simp: wrapper_inv_def putToNdnd_def intro: filters_inv_other_call)
next
  case (stop w pc)
  then show ?case by (simp add: wrapper_inv_def shutdown_stop_def filters_inv_flags)
next
  case (test w pc)
  then show ?case by (simp add: wrapper_inv_def shutdown_test_def)
next
  case (joined w)
  then show ?case
    by (auto simp: wrapper_inv_def shutdown_joined_def intro!: filters_inv_flags filters_inv_other_call)
qed

lemma wrapper_start_inv:
  assumes "wrapper_start lib = Inr st"
  shows "wrapper_inv unrecorded st"
proof -
  have n: "filters_inv unrecorded new_wrapper" by (simp add: filters_inv_def new_wrapper_def)
  let ?w = "connect_prepare lib new_wrapper"
  obtain r w where c: "connect_locked lib ?w = (r, w)" by fastforce
  have "r = Inr () \<and> st = (w, LoopHead, NotCalled)"
    using assms c by (cases r) (simp_all add: wrapper_start_def connectNdnd_def)
  moreover have p: "filters_inv unrecorded ?w" "w_running ?w" "\<not> w_connected ?w"
    using connect_prepare_inv [OF n, of lib] by (simp_all add: new_wrapper_def)
  ultimately show ?thesis using connect_locked_inv [OF p(1,3) c] p(2) by (simp add: wrapper_inv_def)
qed

lemma reach_inv: "wrapper_reach lib unrecorded st \<Longrightarrow> wrapper_inv unrecorded st"
  by (induction rule: wrapper_reach.induct) (auto intro: wrapper_start_inv wrapper_step_inv)

text \<open>Property C12.  Whatever the library answers and however users and the thread interleave: while the wrapper
  runs and is connected, the prefixes that it has asked the daemon for on the current connection are exactly
  the registered ones, apart from the prefixes for which users asked with \<open>record\<close> false, which the wrapper does not
  remember.  When the daemon was lost and the thread connects again, exactly the registered
  prefixes are asked for.  During the attempts to reconnect the wrapper counts as disconnected, and the interval
  between them is a power of two of at most 32 seconds.\<close>

theorem filters_follow_registrations:
  assumes "wrapper_reach lib unrecorded (w, pc, sd)"
  shows "(w_running w \<and> w_connected w \<longrightarrow>
      dom (requested (w_calls w)) - encoded ` unrecorded =
        encoded ` fst ` set (w_registeredInterests w) - encoded ` unrecorded) \<and>
    (\<forall>w'. w_running w \<and> connect_locked lib w = (Inr (), w') \<longrightarrow>
      w_registeredInterests w' = w_registeredInterests w \<and>
      dom (requested (w_calls w')) = encoded ` fst ` set (w_registeredInterests w')) \<and>
    (\<forall>k. pc = Reconnect k \<or> pc = Connecting k \<longrightarrow> \<not> w_connected w \<and> k \<in> {1, 2, 4, 8, 16, 32})"
proof (intro conjI allI impI)
  fix w' assume "w_running w \<and> connect_locked lib w = (Inr (), w')"
  then show "w_registeredInterests w' = w_registeredInterests w"
    and "dom (requested (w_calls w')) = encoded ` fst ` set (w_registeredInterests w')"
    using connect_requested [of w lib w'] connect_running [of w lib w'] by simp_all
qed (use reach_inv [OF assms] in \<open>auto simp: wrapper_inv_def filters_inv_def backoff_ok_def\<close>)

subsection \<open>Examples of runs\<close>

text \<open>A library under which \<open>ndn_run\<close> always fails and every other call succeeds.\<close>

definition flaky :: "nat client" where
  "flaky cs c = (case c of NdnCreate \<Rightarrow> 1 | NdnRun \<Rightarrow> -1 | _ \<Rightarrow> 0)"

lemma reach_thread:
  assumes "wrapper_reach lib unrecorded (w, pc, sd)" and "(loop_step lib ^^ k) (pc, w) = (pc', w')"
  shows "wrapper_reach lib unrecorded (w', pc', sd)"
  using assms(2)
proof (induction k arbitrary: pc' w')
  case (Suc k)
  obtain pc1 w1 where s: "(loop_step lib ^^ k) (pc, w) = (pc1, w1)" by fastforce
  with Suc.prems have "loop_step lib (pc1, w1) = (pc', w')" by simp
  then show ?case using Suc.IH [OF s] by (auto intro: wrapper_reach.step wrapper_step.thread)
qed (use assms(1) in auto)

lemma flaky_start:
  "wrapper_reach flaky {}
    (\<lparr> w_handle = True, w_running = True, w_connected = True, w_registeredInterests = [],
       w_calls = [NdnCreate, NdnConnect] \<rparr>, LoopHead, NotCalled)"
  by (rule wrapper_reach.start)
    (simp add: wrapper_start_def connectNdnd_def connect_prepare_def connect_locked_def new_wrapper_def call_def flaky_def)

definition first_name :: name where
  "first_name = Name [Component [97]]"

lemma flaky_filter:
  "wrapper_reach flaky {}
    (\<lparr> w_handle = True, w_running = True, w_connected = True, w_registeredInterests = [(first_name, 1)],
       w_calls = [NdnCreate, NdnConnect, NdnSetInterestFilter (encoded first_name) (Some 1)] \<rparr>, LoopHead, NotCalled)"
proof -
  have "name_small first_name" by (simp add: name_small_def first_name_def)
  from wrapper_reach.step [OF flaky_start wrapper_step.set_filter [OF this, where cb = 1 and rec = True]]
  show ?thesis
    by (simp add: wrapper_setInterestFilter_def call_def registered_insert_def)
qed

lemmas run_simps = call_def flaky_def connect_prepare_def connect_locked_def restore_filters_def Let_def
  wrapper_setInterestFilter_def wrapper_clearInterestFilter_def registered_insert_def numeral_eq_Suc

theorem filters_follow_registrations_witness:
  "\<exists>w. wrapper_reach flaky {} (w, LoopHead, NotCalled) \<and> w_connected w \<and>
    length (filter (\<lambda>c. c = NdnConnect) (w_calls w)) = 2 \<and> dom (requested (w_calls w)) = {encoded first_name}"
proof -
  obtain w where w: "(loop_step flaky ^^ 4) (LoopHead, \<lparr> w_handle = True, w_running = True, w_connected = True,
       w_registeredInterests = [(first_name, 1)],
       w_calls = [NdnCreate, NdnConnect, NdnSetInterestFilter (encoded first_name) (Some 1)] \<rparr>) = (LoopHead, w)"
      "w_connected w" "w_running w" "w_registeredInterests w = [(first_name, 1)]"
      "length (filter (\<lambda>c. c = NdnConnect) (w_calls w)) = 2"
    by (simp add: run_simps)
  have "wrapper_reach flaky {} (w, LoopHead, NotCalled)" by (rule reach_thread [OF flaky_filter w(1)])
  then show ?thesis using filters_follow_registrations [of flaky "{}" w LoopHead NotCalled] w by auto
qed

text \<open>A prefix that is registered again gets the new callback, and its first one back after a
  reconnect, because \<open>insert\<close> keeps the recorded callback.\<close>

lemma reregistered_callback_lost:
  "\<exists>w w'. wrapper_reach flaky {} (w, LoopHead, NotCalled) \<and> requested (w_calls w) (encoded first_name) = Some 2 \<and>
    (loop_step flaky ^^ 4) (LoopHead, w) = (LoopHead, w') \<and> w_connected w' \<and>
    requested (w_calls w') (encoded first_name) = Some 1"
proof -
  let ?w = "\<lparr> w_handle = True, w_running = True, w_connected = True, w_registeredInterests = [(first_name, 1)],
       w_calls = [NdnCreate, NdnConnect, NdnSetInterestFilter (encoded first_name) (Some 1),
         NdnSetInterestFilter (encoded first_name) (Some 2)] \<rparr>"
  have "name_small first_name" by (simp add: name_small_def first_name_def)
  from wrapper_reach.step [OF flaky_filter wrapper_step.set_filter [OF this, where cb = 2 and rec = True]]
  have "wrapper_reach flaky {} (?w, LoopHead, NotCalled)"
    by (simp add: wrapper_setInterestFilter_def call_def registered_insert_def)
  moreover have "requested (w_calls ?w) (encoded first_name) = Some 2" by (simp add: requested_def)
  moreover have "\<exists>w'. (loop_step flaky ^^ 4) (LoopHead, ?w) = (LoopHead, w') \<and> w_connected w' \<and>
      requested (w_calls w') (encoded first_name) = Some 1"
    by (simp add: run_simps requested_def)
  ultimately show ?thesis by blast
qed

text \<open>A registration that the daemon refuses is recorded all the same.\<close>

lemma refused_registration_recorded:
  assumes "w_running w" and "w_connected w"
    and "lib (w_calls w) (NdnSetInterestFilter (encoded n) (Some cb)) = -1"
  shows "fst (wrapper_setInterestFilter lib n cb True w) = -1 \<and>
    n \<in> fst ` set (w_registeredInterests (snd (wrapper_setInterestFilter lib n cb True w)))"
  using assms by (simp add: wrapper_setInterestFilter_def call_def registered_insert_set)

text \<open>When \<open>shutdown\<close> finds the wrapper disconnected it returns without joining the thread, which
  is still running and may even connect afterwards.\<close>

lemma shutdown_leaves_thread:
  "\<exists>w w'. wrapper_reach flaky {} (w, Connecting 1, Returned) \<and> \<not> w_connected w \<and>
    wrapper_reach flaky {} (w', LoopHead, Returned) \<and> w_connected w'"
proof -
  obtain w where w: "(loop_step flaky ^^ 3) (LoopHead, \<lparr> w_handle = True, w_running = True, w_connected = True,
       w_registeredInterests = [], w_calls = [NdnCreate, NdnConnect] \<rparr>) = (Connecting 1, w)" "\<not> w_connected w"
    by (simp add: run_simps)
  have "wrapper_reach flaky {} (shutdown_stop w, Connecting 1, Stopping)"
    using wrapper_reach.step [OF reach_thread [OF flaky_start w(1)] wrapper_step.stop] .
  from wrapper_reach.step [OF this wrapper_step.test]
  have r: "wrapper_reach flaky {} (shutdown_stop w, Connecting 1, Returned)"
    using w(2) by (simp add: shutdown_test_def shutdown_stop_def)
  have "\<exists>w'. loop_step flaky (Connecting 1, shutdown_stop w) = (LoopHead, w') \<and> w_connected w'"
    by (auto simp: connect_locked_def call_def flaky_def Let_def shutdown_stop_def restore_idle)
  then obtain w' where "wrapper_reach flaky {} (w', LoopHead, Returned)" "w_connected w'"
    using wrapper_reach.step [OF r wrapper_step.thread] by blast
  then show ?thesis using r w(2) by (auto simp: shutdown_stop_def)
qed

section \<open>Publishing\<close>

lemma published:
  assumes "publishDataByCert e lib n content certName fr m w = Inr (res, w')" and "w_running w" and "w_connected w"
  obtains packet buf where "signByCertificate e (content_packet e n content) certName m = Inr packet"
    "encodeToWire_data packet = Inr buf" "res = 0" "w_calls w' = w_calls w @ [NdnPut buf]"
  using assms
  by (auto simp: publishDataByCert_def publishDataByCert_data_def publish_signed_def putToNdnd_def call_def bindE_Inr_iff)

text \<open>Property C2.  What \<open>publishDataByCert\<close> hands to the daemon verifies at a receiver: on a
  connected wrapper it makes one call, \<open>ndn_put\<close> with a buffer that decodes to a packet with the
  given name and content, whose key locator is the certificate name without its version, and
  whose signature verifies under the key of the certificate.  The key pair of the certificate is in the private
  storage and its signatures have 256 bytes, that is RSA with 2048 bits: with another key size the constant offset of the
  decoder marks another range than the one that was signed.  The content is not empty, names have no empty
  component, sizes are below 4 GiB; the clock is arbitrary.\<close>

theorem published_data_verifies:
  assumes conn: "w_running w" "w_connected w"
    and cert: "im_getCertificate e certName False m = Inr cert"
    and pair: "holds_pair (e_crypto e) (im_private m) (c_publicKeyName cert) seed sz"
    and ck: "pk_key (c_key cert) = snd (rsa_generate (e_crypto e) seed sz)"
    and ok: "crypto_ok (e_crypto e) rsa_verify"
    and len: "\<forall>b s. rsa_sign (e_crypto e) (fst (rsa_generate (e_crypto e) seed sz)) b = Some s \<longrightarrow> length s = 256"
    and sha: "\<forall>b. e_sha256 e b \<noteq> [] \<and> length (e_sha256 e b) < 2 ^ 32"
    and name: "name_wf certName" "name_size certName < 2 ^ 31" "comps certName = cs @ [v]" "name_encodable (Name cs)"
    and data: "name_encodable n" "content \<noteq> []" "length content < 2 ^ 32"
    and fits: "\<forall>packet buf. signByCertificate e (content_packet e n content) certName m = Inr packet \<longrightarrow>
      (encodeToWire_data packet = Inr buf \<or> encodeToUnsignedWire packet = Inr buf) \<longrightarrow> length buf < 2 ^ 64"
    and publish: "publishDataByCert e lib n content certName fr m w = Inr (res, w')"
  shows "\<exists>buf d'. res = 0 \<and> w_calls w' = w_calls w @ [NdnPut buf] \<and> decodeFromWire_data now buf = Inr d' \<and>
    d_name d' = n \<and> m_content (d_content d') = content \<and> signer_name d' = Inr (Name cs) \<and>
    verifySignature rsa_verify d' (c_key cert) = Inr True"
proof -
  obtain packet buf where p: "signByCertificate e (content_packet e n content) certName m = Inr packet"
    "encodeToWire_data packet = Inr buf" "res = 0" "w_calls w' = w_calls w @ [NdnPut buf]"
    using published [OF publish conn] by blast
  let ?d = "content_packet e n content"
  have d: "name_encodable (d_name ?d)" "m_timestamp (d_content ?d) = Some (e_now e)"
    "m_content (d_content ?d) \<noteq> []" "length (m_content (d_content ?d)) < 2 ^ 32"
    using data by (simp_all add: content_packet_def make_content_def)
  have "length buf < 2 ^ 64" "\<forall>u. encodeToUnsignedWire packet = Inr u \<longrightarrow> length u < 2 ^ 64" using fits p by blast+
  from signed_data_verifies [OF cert pair ck ok len sha name d p(1,2) this, of now]
  show ?thesis using p by (simp add: content_packet_def make_content_def)
qed

lemma content_packet_sample:
  "signByCertificate example_env (content_packet example_env (Name [Component [104, 105]]) [5]) n m =
    signByCertificate example_env (sample_data [9]) n m"
proof -
  have "(content_packet example_env (Name [Component [104, 105]]) [5])\<lparr> d_signature := Some sig \<rparr> =
      (sample_data [9])\<lparr> d_signature := Some sig \<rparr>" for sig
    by (simp add: content_packet_def sample_data_def new_data_def example_env_def)
  then show ?thesis by (simp only: signByCertificate_def Let_def)
qed

theorem published_data_verifies_witness:
  "\<exists>m cert buf d' w'. publishDataByCert example_env flaky (Name [Component [104, 105]]) [5] example_name 60 m
      (new_wrapper\<lparr> w_connected := True \<rparr>) = Inr (0, w') \<and> w_calls w' = [NdnPut buf] \<and>
     im_getCertificate example_env example_name False m = Inr cert \<and> decodeFromWire_data 0 buf = Inr d' \<and>
     verifySignature (\<lambda>k b s. Inr (s = replicate 256 7)) d' (c_key cert) = Inr True"
proof -
  let ?w = "new_wrapper\<lparr> w_connected := True \<rparr> :: nat wrapper" and ?n = "Name [Component [104, 105]]"
  obtain m cert where m: "im_getCertificate example_env example_name False m = Inr cert"
      "holds_pair example_rsa (im_private m) (c_publicKeyName cert) 0 2048" "c_key cert = c_key example_certificate"
    using example_setup by blast
  obtain u where u: "encodeToUnsignedWire example_signed = Inr u" "length u < 2 ^ 64"
      "signByCertificate example_env (sample_data [9]) example_name m =
      Inr (example_signed\<lparr> d_wire := Some (setSignedPortion 0 (of_nat (length u)) \<lparr> sb_bytes = u, sb_signedBegin = 0, sb_signedEnd = 0 \<rparr>) \<rparr>)"
      (is "_ = Inr ?p")
    using example_sign [OF m(1,2)] by blast
  have s: "example_signed\<lparr> d_wire := None \<rparr> = example_signed" by (simp add: example_signed_def sample_data_def)
  have e: "encodeToWire_data ?p = Inr (enc_block (data_block example_signed example_signature 86000000 (Name (butlast (comps example_name)))))"
      (is "_ = Inr ?b")
    using encode_signed [of example_signed example_signature 86000000 _ u] u(1,2) example_signed_encodable
      write_data [OF example_signed_encodable] unfolding s by simp
  have pu: "encodeToUnsignedWire ?p = Inr u"
    using u(1) unsigned_ignores_bits [where d = example_signed and sig = example_signature and s = "replicate 256 7" and w = "d_wire ?p"]
    by (simp add: example_signed_def example_signature_def)
  note sg = content_packet_sample [of example_name m, unfolded u(3)]
  have pub: "publishDataByCert example_env flaky ?n [5] example_name 60 m ?w = Inr (putToNdnd flaky ?b ?w)"
    using sg e by (simp add: publishDataByCert_def publishDataByCert_data_def publish_signed_def)
  have ok: "crypto_ok example_rsa (\<lambda>k b s. Inr (s = replicate 256 7))"
    by (simp add: crypto_ok_def example_rsa_def example_crypto_def)
  have r: "e_crypto example_env = example_rsa" by (simp_all add: example_env_def)
  obtain res w' where p: "putToNdnd flaky ?b ?w = (res, w')" by fastforce
  have fits: "\<forall>packet buf. signByCertificate example_env (content_packet example_env ?n [5]) example_name m = Inr packet \<longrightarrow>
      (encodeToWire_data packet = Inr buf \<or> encodeToUnsignedWire packet = Inr buf) \<longrightarrow> length buf < 2 ^ 64"
    unfolding sg using e pu u(2) example_signed_length(1) by auto
  have "\<exists>buf d'. res = 0 \<and> w_calls w' = w_calls ?w @ [NdnPut buf] \<and> decodeFromWire_data 0 buf = Inr d' \<and>
      verifySignature (\<lambda>k b s. Inr (s = replicate 256 7)) d' (c_key cert) = Inr True"
    using published_data_verifies [of ?w example_env example_name m cert 0 2048 "\<lambda>k b s. Inr (s = replicate 256 7)"
        "butlast (comps example_name)" "Component [1]" ?n "[5]" flaky 60 res w' 0]
      m ok pub p fits example_facts(3) example_name_parts(1,2)
    unfolding r
    by (auto simp: example_env_def example_rsa_def new_wrapper_def name_encodable_def example_name_def string_bytes_def)
  moreover have "w_calls ?w = []" by (simp add: new_wrapper_def)
  ultimately show ?thesis using pub p m(1) by (metis append_Nil)
qed

end
