(* ===== verification/Spec2Isabelle.thy ===== *)
theory Spec2Isabelle
  imports Ndn_Face Event_Scheduler Encryption_Manager Ndn_Wrapper
begin

text \<open>
  A model of ndn.cxx, the C++ library for Named Data Networking, with the theorems that make its
  parts correct.  Paths are below \<open>src/\<close>.

  \<^bold>\<open>The program.\<close>  An application names data (\<open>fields/\<close>), asks for it with an Interest, and
  receives a signed Data packet.  Packets travel in the binary format ndnb (\<open>wire/\<close>); the
  \<open>Wrapper\<close> hands them to the daemon ndnd and calls the application back on an executor.  An
  arriving packet goes to the \<open>Keychain\<close>, which asks a policy manager whether it can be trusted:
  rules written as regular expressions over names relate the name of a packet to the name of its
  signer, certificates are fetched by further Interests, cached, and checked in turn.  To sign,
  the key chain asks the identity manager, which keeps identities, keys and certificates in an
  SQL database and private keys in files.  Certificates are DER trees in the content of a Data
  packet.  Tables keyed by names are tries with a replacement policy.  Timed tasks run through a
  scheduler over an executor.

  \<^bold>\<open>Theories and sources.\<close>

  \<^item> \<open>Ndn_Prelude\<close>: types, errors (\<open>error.h\<close> and the exceptions of the parsers), error and state
    composition, the shared lemmas and the collections \<open>ndn_simps\<close> and \<open>ndn_defs\<close>.

  \<^item> \<open>Uri_Escape\<close> (\<open>helpers/uri.h\<close>), \<open>Name_Component\<close> and \<open>Ndn_Name\<close> (\<open>fields/name-component\<close>,
    \<open>fields/name\<close>): escaping, the canonical orders, naming conventions and every operation on
    names, with the wrap-around of their index arithmetic.  A name reads back from its URI;
    no operation that builds names creates an empty component.

  \<^item> \<open>Exclude_Filter\<close> (\<open>fields/exclude\<close>): the ordered map of excluded components; each operation
    is characterised by what the filter excludes afterwards.

  \<^item> \<open>Name_Trie\<close> and \<open>Trie_Policy\<close> (\<open>trie/\<close>): insertion and erasure refine a map from keys to
    payloads, lookup is the longest match, and under every policy the table tracks exactly its
    entries, stays within the largest maximum it was given, and evicts what the policy says; iterators
    have to denote existing nodes, and the root node is left alone.  \<open>Ndn_Face\<close> (\<open>face.h\<close>, \<open>face.cc\<close>) uses two such tables
    for callbacks and refines a pair of maps.

  \<^item> \<open>Ndnb_Encoder\<close>, \<open>Ndnb_Parser\<close> and \<open>Ndnb_Wire\<close> (\<open>wire/ndnb/\<close>, \<open>interest.cc\<close>, \<open>data.cc\<close>) and
    \<open>Ndnb_Stream\<close> (\<open>wire/ndnb.cc\<close>), over the packet classes of \<open>Ndn_Packets\<close> (\<open>interest\<close>, \<open>data\<close>,
    \<open>fields/\<close>): blocks parse back from their encoding, the parser ends on every input, Interests
    and Data packets decode from their encoding, and the range that is marked as signed in a
    decoded packet is the encoding that the signer signed.  For the second encoder, the
    theorems say where it agrees with the first and what the decoder makes of its packets.

  \<^item> \<open>Name_Regex\<close> and \<open>Regex_Search\<close> (\<open>regex/\<close>): compilation and matching of name expressions,
    with the back references that the matchers share; matching decides the declarative
    meaning of an expression, and the back references then hold the parts that the groups matched.

  \<^item> \<open>Der_Codec\<close>, \<open>Der_Values\<close> (\<open>helpers/der\<close>, \<open>helpers/oid\<close>) and \<open>Ndn_Certificate\<close>
    (\<open>security/certificate\<close>): DER trees with their cached sizes, object identifiers, and
    certificates, which read back from their encoding.

  \<^item> \<open>Certificate_Cache\<close> (\<open>security/cache\<close>) and \<open>Trust_Policy\<close> (\<open>security/policy\<close>, the verifying half
    of \<open>security/keychain.cc\<close>, the data callbacks of \<open>wrapper/wrapper.cc\<close>): an application sees a packet as
    verified only if a chain of signatures and rules leads from it to a trust anchor, and every
    verification ends after a bounded number of steps, though not always with a verdict: a wrong signature
    under a fetched certificate calls neither callback (\<open>wrong_signature_no_callback\<close>).

  \<^item> \<open>Key_Store\<close>, \<open>Identity_Store\<close> and \<open>Identity_Manager\<close> (\<open>security/identity\<close>, the signing half of
    \<open>security/keychain.cc\<close>) and \<open>Encryption_Manager\<close> (\<open>security/encryption\<close>): the database stays
    consistent under every sequence of operations, generated keys and issued certificates are
    found again, certificates survive the way over the wire, and asymmetric encryption is
    undone by decryption.

  \<^item> \<open>Task_Executor\<close> (\<open>executor/\<close>) and \<open>Event_Scheduler\<close> (\<open>scheduler/\<close>): step relations of the
    threads; the executor serves its queue in order, and the scheduler leaves no registered task
    without a timer or a job in the runs in which no task enters its map with \<open>m_invoked\<close> set.  Direct calls
    of \<open>Task::reset\<close> or \<open>Task::run\<close>, and callbacks that the interruption at shutdown ends, are not steps of
    these runs; \<open>direct_reset_ends_period\<close> and \<open>interrupted_callback_ends_period\<close> show that they do strand tasks.

  \<^item> \<open>Ndn_Wrapper\<close> (\<open>wrapper/\<close>): the connection to the daemon, its thread and its shutdown.  The
    filters on the current connection follow the registered prefixes, apart from those that users set or cleared
    with \<open>record\<close> false, and what is published with a key of 2048 bits verifies at a receiver, from the
    private key over the wire to the check.

  \<^bold>\<open>Conventions.\<close>  An object is a \<open>record\<close>, an enumeration or a class hierarchy a \<open>datatype\<close>, a
  method a function from the state to the new state with its result.  Exceptions are values of
  \<open>ndn_error\<close>; \<open>UndefinedBehaviour\<close> marks a null pointer that is used or a value read
  before it is set, so a theorem that shows a normal result excludes both.  Words keep the width
  of the code where arithmetic can wrap.  An ordered map is the list of its nodes in iteration
  order, an iterator the key of its node, a shared object an address of a store.  Code that runs
  in several threads is an inductive step relation whose steps are what a thread does under one
  hold of the mutex; theorems are about every reachable state.

  \<^bold>\<open>Interfaces.\<close>  \<open>three_way\<close> is the law of the comparison functions and gives components
  and names their linear orders.  \<open>replacement_policy\<close> is what a table asks of its policy; the
  LRU, FIFO, persistent, counting, LFU and random policies are its instances.
  \<open>certificate_store\<close> is what the policy manager asks of a cache, \<open>trust_store\<close> extends it by the
  certificates that are trusted; both caches are instances of each.  \<open>likeness\<close> is
  what matching may change in a rule or an expression.  \<open>flagged_table\<close> is the law of the three
  SQL tables with a default row.

  \<^bold>\<open>Parameters.\<close>  What lies outside the repository is an argument of the definitions: Crypto++
  (records \<open>crypto\<close> and \<open>env\<close>, the check \<open>rsa_verify\<close>; the laws used, such as that a signature verifies
  under the key of its pair, are the predicate \<open>crypto_ok\<close>), \<open>boost::regex\<close> inside one component
  (\<open>rx\<close>), Boost's conversions between times and text, SQLite's \<open>datetime\<close>, the
  clock and the random seed, the instants at which libevent finds a timer due, and the return
  values of the C library behind the wrapper, which are arbitrary.

  \<^bold>\<open>Bounds and fuel.\<close>  The ndnb parser and the DER parser carry fuel, since their loops end when
  the input does.  The entry points compute it from the bytes that are left
  (\<open>parse_fuel\<close>, and twice the remaining bytes for DER); \<open>parser_terminates\<close> and \<open>der_parse_ends\<close> show
  that it never runs out.  All other functions are total by structural recursion or a
  measure.  Round trips ask for lengths below 4 GiB (the 32-bit lengths of the format) and for
  non-empty components and contents, which the format cannot express otherwise.  Times of whole seconds
  are recovered; other timestamps of Data packets decode to \<open>wire_time\<close> (\<open>fraction_scaled\<close> shows what
  happens to fractions), and lifetimes of Interests are unset or whole seconds.  The marked signed range is right
  for signatures of 256 bytes.  Delays of tasks stay below \<open>2\<^sup>3\<^sup>1\<close> seconds.

  \<^bold>\<open>Not modelled.\<close>  The sources outside the build (\<open>disabled/\<close>, \<open>security/old\<close>, \<open>security/tmp\<close>) and
  the second half of \<open>wire-ndnb-data.cc\<close>, which is commented out; the OS X key store, which only calls
  the Security framework; the policy manager that verifies nothing, whose operations return
  constants; the multi policy, a template over other policies in the ns3 namespace; visitors and
  operators that print; logging and the digest class \<open>helpers/hash\<close>, which nothing uses; the constructors from the C
  library's parsed packets; tests and examples.  Memory management and the rounding of
  floating-point numbers are not modelled.
\<close>

end
